(* ===== verification/Blade_Prelude.thy ===== *)
theory Blade_Prelude
  imports Main "HOL-Library.Word" "HOL-Library.AList" "HOL-Library.Multiset"
begin

text \<open>
  Shared vocabulary of the development: the machine types of blmesh/common.h, C++ failures as
  values of a sum type, the standard containers as association lists in iteration order, the
  little-endian byte image of machine words, and raw memory with bounds.
\<close>

section \<open>Machine types and failures\<close>

type_synonym u16 = "16 word"
type_synonym u32 = "32 word"
type_synonym i32 = "32 word"
type_synonym i64 = "64 word"
type_synonym f64 = "64 word" \<comment> \<open>the bit pattern of an IEEE double: the code only copies it\<close>
type_synonym port = "16 word"
type_synonym blade_byte = "8 word"
type_synonym mem = "8 word list"

text \<open>
  What can go wrong in the C++ code: the exceptions that it throws (its own and those of the
  standard library), and the undefined behaviours that the model makes visible. A
  \<^verbatim>\<open>catch (...)\<close> sees the former only.
\<close>

datatype fault =
    NoSuchFieldException
  | UnreachableCode
  | RemainLengthNotEnoughException
  | OutOfRange
  | InvalidArgument
  | StdException
  | SystemError \<comment> \<open>\<^verbatim>\<open>asio::system_error\<close>\<close>
  | NullDeref
  | OutOfBounds
  | EmptyRange
  | Uninitialised
  | SignedOverflow
  | Diverges \<comment> \<open>not a C++ fault: the call does not return\<close>

fun is_exception :: "fault \<Rightarrow> bool" where
  "is_exception NullDeref = False"
| "is_exception OutOfBounds = False"
| "is_exception EmptyRange = False"
| "is_exception Uninitialised = False"
| "is_exception SignedOverflow = False"
| "is_exception Diverges = False"
| "is_exception _ = True"

type_synonym 'a result = "fault + 'a"

definition and_then :: "'e + 'a \<Rightarrow> ('a \<Rightarrow> 'e + 'b) \<Rightarrow> 'e + 'b" where
  "and_then m f = (case m of Inl e \<Rightarrow> Inl e | Inr x \<Rightarrow> f x)"

lemma and_then_simps [simp]:
  "and_then (Inl e) f = Inl e"
  "and_then (Inr x) f = f x"
  by (simp_all add: and_then_def)

lemma and_then_Inr_iff: "and_then m f = Inr y \<longleftrightarrow> (\<exists>x. m = Inr x \<and> f x = Inr y)"
  by (cases m) auto

lemma and_then_Inl_iff: "and_then m f = Inl e \<longleftrightarrow> m = Inl e \<or> (\<exists>x. m = Inr x \<and> f x = Inl e)"
  by (cases m) auto

lemma and_then_assoc: "and_then (and_then m f) g = and_then m (\<lambda>x. and_then (f x) g)"
  by (cases m) auto

lemmas and_then_iffs = and_then_Inr_iff and_then_Inl_iff

text \<open>\<^verbatim>\<open>try m catch (...) h\<close>.\<close>

definition catch_all :: "'a result \<Rightarrow> 'a result \<Rightarrow> 'a result" where
  "catch_all m h = (case m of Inl e \<Rightarrow> if is_exception e then h else Inl e | Inr x \<Rightarrow> Inr x)"

lemma catch_all_simps [simp]:
  "catch_all (Inr x) h = Inr x"
  "is_exception e \<Longrightarrow> catch_all (Inl e) h = h"
  "\<not> is_exception e \<Longrightarrow> catch_all (Inl e) h = Inl e"
  by (simp_all add: catch_all_def)

lemma catch_all_Inr: "catch_all m h = Inr x \<longleftrightarrow> m = Inr x \<or> (\<exists>e. m = Inl e \<and> is_exception e \<and> h = Inr x)"
  by (cases m) (auto simp: catch_all_def)

text \<open>C++ integer conversions, as functions on the mathematical value.\<close>

definition to_size :: "int \<Rightarrow> int" where \<comment> \<open>conversion to size\_t (64 bits)\<close>
  "to_size x = x mod 2 ^ 64"

definition to_u32 :: "int \<Rightarrow> int" where
  "to_u32 x = x mod 2 ^ 32"

definition to_int32 :: "int \<Rightarrow> int" where \<comment> \<open>conversion to int (32 bits, two's complement)\<close>
  "to_int32 x = (x + 2 ^ 31) mod 2 ^ 32 - 2 ^ 31"

lemma to_size_id [simp]: "0 \<le> x \<Longrightarrow> x < 2 ^ 64 \<Longrightarrow> to_size x = x"
  by (simp add: to_size_def)

lemma to_u32_id [simp]: "0 \<le> x \<Longrightarrow> x < 2 ^ 32 \<Longrightarrow> to_u32 x = x"
  by (simp add: to_u32_def)

lemma to_int32_id [simp]: "- (2 ^ 31) \<le> x \<Longrightarrow> x < 2 ^ 31 \<Longrightarrow> to_int32 x = x"
  by (simp add: to_int32_def)

lemma unat_of_nat_small: "x < 2 ^ LENGTH('a) \<Longrightarrow> unat (word_of_nat x :: 'a::len word) = x"
  by (simp add: unat_of_nat)

lemma word_of_nat_neq_0: "0 < x \<Longrightarrow> x < 2 ^ LENGTH('a) \<Longrightarrow> (word_of_nat x :: 'a::len word) \<noteq> 0"
  using unat_of_nat_small [where 'a = 'a] by fastforce

lemma uint_le_int_iff: "uint w \<le> int n \<longleftrightarrow> unat w \<le> n"
  by (metis of_nat_unat of_nat_le_iff)

text \<open>
  Arithmetic on \<^verbatim>\<open>int\<close>: leaving the 32-bit range is undefined behaviour. \<open>int_half\<close> is
  \<^verbatim>\<open>x / 2\<close>, which truncates towards zero.
\<close>

definition int_range :: "int \<Rightarrow> bool" where
  "int_range x \<longleftrightarrow> - (2 ^ 31) \<le> x \<and> x < 2 ^ 31"

lemma sint_of_int_range: "int_range x \<Longrightarrow> sint (word_of_int x :: i32) = x"
  by (simp add: int_range_def sint_sbintrunc' signed_take_bit_int_eq_self)

definition int_add :: "int \<Rightarrow> int \<Rightarrow> int result" where
  "int_add x y = (if int_range (x + y) then Inr (x + y) else Inl SignedOverflow)"

definition int_half :: "int \<Rightarrow> int" where
  "int_half x = (if x < 0 then - ((- x) div 2) else x div 2)"

section \<open>Associative containers\<close>

text \<open>
  A \<^verbatim>\<open>std::unordered_map\<close> is an association list with distinct keys; the order of the list is
  the order in which its iterator yields the elements. C++ leaves the place of a new element
  unspecified: here it goes to the front, and the properties below hold for every list that is
  well-formed, or speak of the lookup function only, so they do not depend on that choice.
\<close>

type_synonym ('k, 'v) kv = "('k \<times> 'v) list"
type_synonym 'v storage = "(string, 'v) kv"

definition kv_wf :: "('k, 'v) kv \<Rightarrow> bool" where
  "kv_wf m = distinct (map fst m)"

definition kv_emplace :: "'k \<Rightarrow> 'v \<Rightarrow> ('k, 'v) kv \<Rightarrow> ('k, 'v) kv" where
  "kv_emplace k v m = (case map_of m k of None \<Rightarrow> (k, v) # m | Some _ \<Rightarrow> m)"

definition kv_erase :: "'k \<Rightarrow> ('k, 'v) kv \<Rightarrow> ('k, 'v) kv" where
  "kv_erase k m = AList.delete k m"

definition kv_at :: "('k, 'v) kv \<Rightarrow> 'k \<Rightarrow> 'v result" where
  "kv_at m k = (case map_of m k of None \<Rightarrow> Inl OutOfRange | Some v \<Rightarrow> Inr v)"

text \<open>
  \<^verbatim>\<open>m[k] = f(m[k])\<close>: the subscript operator default-inserts a missing key (value \<open>d\<close>), then the
  element is updated in place.
\<close>

definition kv_modify :: "'v \<Rightarrow> ('v \<Rightarrow> 'v) \<Rightarrow> 'k \<Rightarrow> ('k, 'v) kv \<Rightarrow> ('k, 'v) kv" where
  "kv_modify d f k m = AList.map_entry k f (kv_emplace k d m)"

text \<open>The contract of the container: every component below uses it through these laws.\<close>

locale assoc_store =
  fixes lookup :: "'m \<Rightarrow> 'k \<Rightarrow> 'v option"
    and emplace :: "'k \<Rightarrow> 'v \<Rightarrow> 'm \<Rightarrow> 'm"
    and erase :: "'k \<Rightarrow> 'm \<Rightarrow> 'm"
    and inv :: "'m \<Rightarrow> bool"
  assumes lookup_emplace:
      "lookup (emplace k v m) = (if lookup m k = None then (lookup m)(k \<mapsto> v) else lookup m)"
    and lookup_erase: "lookup (erase k m) = (lookup m)(k := None)"
    and inv_emplace: "inv m \<Longrightarrow> inv (emplace k v m)"
    and inv_erase: "inv m \<Longrightarrow> inv (erase k m)"
begin

lemma emplace_keeps_first: "lookup m k = Some w \<Longrightarrow> lookup (emplace k v m) = lookup m"
  by (simp add: lookup_emplace)

lemma emplace_fresh: "lookup m k = None \<Longrightarrow> lookup (emplace k v m) = (lookup m)(k \<mapsto> v)"
  by (simp add: lookup_emplace)

lemma erase_undoes_emplace: "lookup m k = None \<Longrightarrow> lookup (erase k (emplace k v m)) = lookup m"
  by (auto simp: lookup_emplace lookup_erase)

lemma emplace_commute:
  "k \<noteq> k' \<Longrightarrow> lookup (emplace k v (emplace k' v' m)) = lookup (emplace k' v' (emplace k v m))"
  by (auto simp: lookup_emplace fun_upd_twist)

lemma inv_emplace_fold: "inv m \<Longrightarrow> inv (fold (\<lambda>(k, v). emplace k v) kvs m)"
  by (induction kvs arbitrary: m) (auto intro: inv_emplace)

end

lemma map_of_emplace:
  "map_of (kv_emplace k v m) = (if map_of m k = None then (map_of m)(k \<mapsto> v) else map_of m)"
  by (auto simp: kv_emplace_def split: option.splits)

lemma kv_wf_emplace [intro]: "kv_wf m \<Longrightarrow> kv_wf (kv_emplace k v m)"
  by (auto simp: kv_wf_def kv_emplace_def map_of_eq_None_iff split: option.splits)

lemma kv_wf_erase [intro]: "kv_wf m \<Longrightarrow> kv_wf (kv_erase k m)"
  by (simp add: kv_wf_def kv_erase_def distinct_delete)

lemma kv_wf_Nil [simp]: "kv_wf []"
  by (simp add: kv_wf_def)

interpretation kv: assoc_store map_of kv_emplace kv_erase kv_wf
  by unfold_locales
    (auto simp: map_of_emplace kv_wf_emplace kv_wf_erase, auto simp: kv_erase_def delete_conv')

lemma map_of_modify:
  "map_of (kv_modify d f k m) = (map_of m)(k \<mapsto> f (case map_of m k of None \<Rightarrow> d | Some v \<Rightarrow> v))"
proof -
  have "map_of (AList.map_entry k f xs) = (map_of xs)(k := map_option f (map_of xs k))" for xs
    by (induction xs) (auto simp: fun_eq_iff)
  then show ?thesis
    by (auto simp: kv_modify_def map_of_emplace fun_eq_iff split: option.splits)
qed

lemma kv_wf_modify [intro]: "kv_wf m \<Longrightarrow> kv_wf (kv_modify d f k m)"
proof -
  have keys: "map fst (AList.map_entry k f xs) = map fst xs" for xs
    by (induction xs) auto
  show "kv_wf m \<Longrightarrow> kv_wf (kv_modify d f k m)"
    using kv_wf_emplace [of m k d] by (simp add: kv_wf_def kv_modify_def keys)
qed

lemma kv_at_Inr_iff: "kv_at m k = Inr v \<longleftrightarrow> map_of m k = Some v"
  by (simp add: kv_at_def split: option.splits)

lemma kv_wf_map_of: "kv_wf m \<Longrightarrow> (k, v) \<in> set m \<Longrightarrow> map_of m k = Some v"
  by (simp add: kv_wf_def)

text \<open>Iteration order does not matter: two permutations have the same lookup function.\<close>

lemma kv_wf_mset_eq:
  assumes "kv_wf m" and "mset m' = mset m"
  shows "kv_wf m'" and "map_of m' = map_of m"
proof -
  have "mset (map fst m') = mset (map fst m)" using assms(2) by simp
  then show wf: "kv_wf m'"
    using assms(1) mset_eq_imp_distinct_iff unfolding kv_wf_def by blast
  show "map_of m' = map_of m"
    using assms wf map_of_inject_set [of m' m] mset_eq_setD [OF assms(2)]
    by (simp add: kv_wf_def)
qed

lemma kv_wf_mset_add:
  assumes "kv_wf m" and "map_of m k = None" and "mset m' = add_mset (k, v) (mset m)"
  shows "kv_wf m'" and "map_of m' = (map_of m)(k \<mapsto> v)"
proof -
  have "kv_wf ((k, v) # m)" using assms(1,2) by (simp add: kv_wf_def map_of_eq_None_iff)
  moreover have "mset m' = mset ((k, v) # m)" using assms(3) by simp
  ultimately show "kv_wf m'" and "map_of m' = (map_of m)(k \<mapsto> v)"
    using kv_wf_mset_eq [of "(k, v) # m" m'] by simp_all
qed

lemma map_of_None_iff_fst: "map_of m k = None \<longleftrightarrow> k \<notin> fst ` set m"
  by (simp add: map_of_eq_None_iff)

section \<open>Byte images\<close>

text \<open>
  \<^verbatim>\<open>memcpy\<close> of a scalar on the little-endian machines the program targets: the low byte first.
\<close>

fun le_enc :: "nat \<Rightarrow> nat \<Rightarrow> mem" where
  "le_enc 0 x = []"
| "le_enc (Suc n) x = word_of_nat (x mod 256) # le_enc n (x div 256)"

fun le_dec :: "mem \<Rightarrow> nat" where
  "le_dec [] = 0"
| "le_dec (b # bs) = unat b + 256 * le_dec bs"

lemma length_le_enc [simp]: "length (le_enc n x) = n"
  by (induction n arbitrary: x) auto

lemma le_dec_enc: "le_dec (le_enc n x) = x mod 256 ^ n"
proof (induction n arbitrary: x)
  case 0
  then show ?case by simp
next
  case (Suc n)
  have "unat (word_of_nat (x mod 256) :: 8 word) = x mod 256"
    by (simp add: unat_of_nat)
  with Suc show ?case by (simp add: mod_mult2_eq)
qed

definition put_word :: "nat \<Rightarrow> 'a::len word \<Rightarrow> mem" where
  "put_word n w = le_enc n (unat w)"

definition get_word :: "mem \<Rightarrow> 'a::len word" where
  "get_word bs = word_of_nat (le_dec bs)"

lemma length_put_word [simp]: "length (put_word n w) = n"
  by (simp add: put_word_def)

lemma get_put_word:
  assumes "LENGTH('a) = 8 * n"
  shows "get_word (put_word n (w :: 'a::len word)) = w"
proof -
  have "unat w < 256 ^ n"
    using unsigned_less [of w] assms by (simp add: power_mult)
  then show ?thesis by (simp add: get_word_def put_word_def le_dec_enc)
qed

text \<open>Characters of a \<^verbatim>\<open>std::string\<close> are bytes.\<close>

definition byte_of_char :: "char \<Rightarrow> 8 word" where
  "byte_of_char c = word_of_nat (of_char c)"

definition char_of_byte :: "8 word \<Rightarrow> char" where
  "char_of_byte b = char_of (unat b)"

lemma char_of_byte_of_char [simp]: "char_of_byte (byte_of_char c) = c"
proof -
  have "(of_char c :: nat) < 256" by simp
  then have "unat (word_of_nat (of_char c) :: 8 word) = of_char c"
    by (simp add: unat_of_nat)
  then show ?thesis by (simp add: char_of_byte_def byte_of_char_def)
qed

lemma map_char_of_byte [simp]: "map (char_of_byte \<circ> byte_of_char) s = s"
  by (induction s) auto

section \<open>Memory with bounds\<close>

text \<open>
  A buffer is its list of bytes. \<^verbatim>\<open>memcpy\<close> past its end is undefined behaviour in C++ and
  \<open>OutOfBounds\<close> here.
\<close>

definition mem_splice :: "mem \<Rightarrow> nat \<Rightarrow> mem \<Rightarrow> mem" where
  "mem_splice m pos bs = take pos m @ bs @ drop (pos + length bs) m"

definition mem_write :: "mem \<Rightarrow> nat \<Rightarrow> mem \<Rightarrow> mem result" where
  "mem_write m pos bs =
     (if pos + length bs \<le> length m then Inr (mem_splice m pos bs) else Inl OutOfBounds)"

definition mem_read :: "mem \<Rightarrow> nat \<Rightarrow> nat \<Rightarrow> mem result" where
  "mem_read m pos n = (if pos + n \<le> length m then Inr (take n (drop pos m)) else Inl OutOfBounds)"

lemma length_mem_splice [simp]: "pos + length bs \<le> length m \<Longrightarrow> length (mem_splice m pos bs) = length m"
  by (simp add: mem_splice_def)

lemma mem_splice_append:
  assumes "pos + length xs + length ys \<le> length m"
  shows "mem_splice (mem_splice m pos xs) (pos + length xs) ys = mem_splice m pos (xs @ ys)"
proof -
  have "drop (length xs + pos) m = drop (pos + length xs) m" by (simp add: add.commute)
  with assms show ?thesis by (cases xs) (auto simp: mem_splice_def min_def ac_simps)
qed

lemma mem_splice_start: "length bs \<le> length m \<Longrightarrow> mem_splice m 0 bs = bs @ drop (length bs) m"
  by (simp add: mem_splice_def)

text \<open>The converse directions: bytes read are the image of what they are read as.\<close>

lemma le_enc_dec: "le_enc (length bs) (le_dec bs) = bs"
proof (induction bs)
  case (Cons b bs)
  have "unat b < 256" using unsigned_less [of b] by simp
  with Cons show ?case by simp
qed simp

lemma le_dec_less: "le_dec bs < 256 ^ length bs"
proof (induction bs)
  case (Cons b bs)
  have "unat b < 256" using unsigned_less [of b] by simp
  with Cons show ?case by simp
qed simp

lemma put_get_word:
  assumes "LENGTH('a) = 8 * length bs"
  shows "put_word (length bs) (get_word bs :: 'a::len word) = bs"
proof -
  have "le_dec bs < 2 ^ LENGTH('a)" using le_dec_less [of bs] assms by (simp add: power_mult)
  then show ?thesis by (simp add: put_word_def get_word_def unat_of_nat_small le_enc_dec)
qed

lemma byte_of_char_of_byte [simp]: "byte_of_char (char_of_byte b) = b"
proof -
  have "unat b < 256" using unsigned_less [of b] by simp
  then show ?thesis by (simp add: byte_of_char_def char_of_byte_def)
qed

lemma map_byte_of_char [simp]: "map (byte_of_char \<circ> char_of_byte) bs = bs"
  by (induction bs) auto

end
