(* ===== verification/Transition_Systems.thy ===== *)
theory Transition_Systems
  imports Blade_Prelude
begin

text \<open>
  Reachability, invariants and simulations, shared by the step relations of the development (the threads of
  the lock, the timers of the watchdog).
\<close>

inductive reach :: "('s \<Rightarrow> bool) \<Rightarrow> ('s \<Rightarrow> 's \<Rightarrow> bool) \<Rightarrow> 's \<Rightarrow> bool" for init step where
  reach_init: "init s \<Longrightarrow> reach init step s"
| reach_step: "reach init step s \<Longrightarrow> step s s' \<Longrightarrow> reach init step s'"

lemma reach_steps: "step\<^sup>*\<^sup>* s s' \<Longrightarrow> reach init step s \<Longrightarrow> reach init step s'"
  by (induction rule: rtranclp_induct) (auto intro: reach_step)

locale invariant_system =
  fixes init :: "'s \<Rightarrow> bool" and step :: "'s \<Rightarrow> 's \<Rightarrow> bool" and inv :: "'s \<Rightarrow> bool"
  assumes inv_init: "init s \<Longrightarrow> inv s"
    and inv_step: "inv s \<Longrightarrow> step s s' \<Longrightarrow> inv s'"
begin

lemma inv_reach: "reach init step s \<Longrightarrow> inv s"
  by (induction rule: reach.induct) (auto intro: inv_init inv_step)

text \<open>A measure that some step can always lower leads to a state without work left.\<close>

lemma drains:
  assumes "\<And>s. inv s \<Longrightarrow> 0 < m s \<Longrightarrow> \<exists>s'. step s s' \<and> m s' < (m s :: nat)"
  shows "inv s \<Longrightarrow> \<exists>s'. step\<^sup>*\<^sup>* s s' \<and> m s' = 0"
proof (induction "m s" arbitrary: s rule: less_induct)
  case less
  show ?case
  proof (cases "m s = 0")
    case False
    with assms [OF less.prems] obtain s' where s': "step s s'" "m s' < m s" by blast
    with less.hyps [of s'] inv_step [OF less.prems] obtain s'' where "step\<^sup>*\<^sup>* s' s''" "m s'' = 0" by blast
    with s'(1) show ?thesis by (meson converse_rtranclp_into_rtranclp)
  qed blast
qed

end

text \<open>Refinement: a simulation carries the abstract invariant over to the concrete system.\<close>

locale simulation = invariant_system init step inv
  for init :: "'s \<Rightarrow> bool" and step :: "'s \<Rightarrow> 's \<Rightarrow> bool" and inv :: "'s \<Rightarrow> bool" +
  fixes abs :: "'s \<Rightarrow> 'a" and ainit :: "'a \<Rightarrow> bool" and astep :: "'a \<Rightarrow> 'a \<Rightarrow> bool"
  assumes abs_init: "init s \<Longrightarrow> ainit (abs s)"
    and abs_step: "inv s \<Longrightarrow> step s s' \<Longrightarrow> abs s' = abs s \<or> astep (abs s) (abs s')"
begin

lemma abs_reach: "reach init step s \<Longrightarrow> reach ainit astep (abs s)"
proof (induction rule: reach.induct)
  case (reach_step s s')
  with abs_step [OF inv_reach] show ?case by (metis reach.reach_step)
qed (simp add: abs_init reach_init)

text \<open>A whole run, given by its states, is a run of the abstract system once the steps that it does not see are left out.\<close>

lemma abs_run: "inv s \<Longrightarrow> successively step (s # ss) \<Longrightarrow> successively astep (remdups_adj (map abs (s # ss)))"
proof (induction ss arbitrary: s)
  case (Cons s' ss)
  then have "step s s'" "inv s'" "successively step (s' # ss)" by (auto intro: inv_step)
  with Cons.IH [OF this(2,3)] abs_step [OF Cons.prems(1) this(1)] show ?case
    by (cases "remdups_adj (map abs (s' # ss))") (auto dest: arg_cong [where f = hd])
qed simp

end

end
