(* ===== verification/Blade_RWLock.thy ===== *)
theory Blade_RWLock
  imports Transition_Systems
begin

text \<open>
  The writer-preferring lock of blmesh/rw\_lock.h. Every access to its fields is made under
  \<^verbatim>\<open>mutex_\<close>, so one critical section is one atomic function on the record \<open>rw_lock\<close>; a wait
  on a condition variable gives the mutex up, so \<^verbatim>\<open>LockRead\<close> and \<^verbatim>\<open>LockWrite\<close> are split at
  the test of their predicate. \<open>lock_step\<close> interleaves any number of threads, with the choice of
  \<^verbatim>\<open>notify_one\<close> and spurious wake-ups left open. The lemmas give exclusion, exact counters, no
  lost wake-up, progress, writer preference and a refinement to the abstract lock.
\<close>

section \<open>The lock\<close>

type_synonym size_t = "64 word"

record rw_lock =
  read_cnt :: size_t
  write_cnt :: size_t
  is_wrtiting :: bool

definition new_lock :: rw_lock where
  "new_lock = \<lparr>read_cnt = 0, write_cnt = 0, is_wrtiting = False\<rparr>"

datatype notify = NotifyNone | NotifyOneWriter | NotifyAllReaders

text \<open>The predicate of a wait, and what follows it when it holds; the flag tells whether it did.\<close>

definition LockRead_test :: "rw_lock \<Rightarrow> rw_lock \<times> bool" where
  "LockRead_test l = (if write_cnt l = 0 then (l\<lparr>read_cnt := read_cnt l + 1\<rparr>, True) else (l, False))"

definition LockWrite_test :: "rw_lock \<Rightarrow> rw_lock \<times> bool" where
  "LockWrite_test l =
     (if read_cnt l = 0 \<and> \<not> is_wrtiting l then (l\<lparr>is_wrtiting := True\<rparr>, True) else (l, False))"

definition LockRead :: "rw_lock \<Rightarrow> rw_lock \<times> bool" where
  "LockRead l = LockRead_test l"

definition LockWrite :: "rw_lock \<Rightarrow> rw_lock \<times> bool" where
  "LockWrite l = LockWrite_test (l\<lparr>write_cnt := write_cnt l + 1\<rparr>)"

definition UnlockRead :: "rw_lock \<Rightarrow> rw_lock \<times> notify" where
  "UnlockRead l =
     (let l = l\<lparr>read_cnt := read_cnt l - 1\<rparr> in
      (l, if read_cnt l = 0 \<and> write_cnt l > 0 then NotifyOneWriter else NotifyNone))"

definition UnlockWrite :: "rw_lock \<Rightarrow> rw_lock \<times> notify" where
  "UnlockWrite l =
     (let l = l\<lparr>write_cnt := write_cnt l - 1\<rparr>;
          n = (if write_cnt l = 0 then NotifyAllReaders else NotifyOneWriter) in
      (l\<lparr>is_wrtiting := False\<rparr>, n))"

section \<open>Threads that use the lock\<close>

text \<open>
  Where a thread is: outside, asleep on a condition variable, woken and about to test its predicate
  again, or inside its section (between the constructor and the destructor of its guard).
\<close>

datatype pc = Idle | RSleep | RWoken | Reading | WSleep | WWoken | Writing

record lock_sys =
  lk :: rw_lock
  pcs :: "pc list"

fun wake_reader :: "pc \<Rightarrow> pc" where
  "wake_reader RSleep = RWoken"
| "wake_reader p = p"

inductive notified :: "notify \<Rightarrow> pc list \<Rightarrow> pc list \<Rightarrow> bool" where
  notified_none: "notified NotifyNone ps ps"
| notified_one: "j < length ps \<Longrightarrow> ps ! j = WSleep \<Longrightarrow> notified NotifyOneWriter ps (ps[j := WWoken])"
| notified_nobody: "WSleep \<notin> set ps \<Longrightarrow> notified NotifyOneWriter ps ps"
| notified_all: "notified NotifyAllReaders ps (map wake_reader ps)"

inductive lock_step :: "lock_sys \<Rightarrow> lock_sys \<Rightarrow> bool" where
  enter_read: "i < length ps \<Longrightarrow> ps ! i = Idle \<Longrightarrow> LockRead l = (l', ok) \<Longrightarrow>
    lock_step \<lparr>lk = l, pcs = ps\<rparr> \<lparr>lk = l', pcs = ps[i := if ok then Reading else RSleep]\<rparr>"
| retry_read: "i < length ps \<Longrightarrow> ps ! i = RWoken \<Longrightarrow> LockRead_test l = (l', ok) \<Longrightarrow>
    lock_step \<lparr>lk = l, pcs = ps\<rparr> \<lparr>lk = l', pcs = ps[i := if ok then Reading else RSleep]\<rparr>"
| leave_read: "i < length ps \<Longrightarrow> ps ! i = Reading \<Longrightarrow> UnlockRead l = (l', n) \<Longrightarrow>
    notified n (ps[i := Idle]) ps' \<Longrightarrow> lock_step \<lparr>lk = l, pcs = ps\<rparr> \<lparr>lk = l', pcs = ps'\<rparr>"
| enter_write: "i < length ps \<Longrightarrow> ps ! i = Idle \<Longrightarrow> LockWrite l = (l', ok) \<Longrightarrow>
    lock_step \<lparr>lk = l, pcs = ps\<rparr> \<lparr>lk = l', pcs = ps[i := if ok then Writing else WSleep]\<rparr>"
| retry_write: "i < length ps \<Longrightarrow> ps ! i = WWoken \<Longrightarrow> LockWrite_test l = (l', ok) \<Longrightarrow>
    lock_step \<lparr>lk = l, pcs = ps\<rparr> \<lparr>lk = l', pcs = ps[i := if ok then Writing else WSleep]\<rparr>"
| leave_write: "i < length ps \<Longrightarrow> ps ! i = Writing \<Longrightarrow> UnlockWrite l = (l', n) \<Longrightarrow>
    notified n (ps[i := Idle]) ps' \<Longrightarrow> lock_step \<lparr>lk = l, pcs = ps\<rparr> \<lparr>lk = l', pcs = ps'\<rparr>"
| spurious_read: "i < length ps \<Longrightarrow> ps ! i = RSleep \<Longrightarrow>
    lock_step \<lparr>lk = l, pcs = ps\<rparr> \<lparr>lk = l, pcs = ps[i := RWoken]\<rparr>"
| spurious_write: "i < length ps \<Longrightarrow> ps ! i = WSleep \<Longrightarrow>
    lock_step \<lparr>lk = l, pcs = ps\<rparr> \<lparr>lk = l, pcs = ps[i := WWoken]\<rparr>"

definition lock_init :: "nat \<Rightarrow> lock_sys \<Rightarrow> bool" where
  "lock_init n s \<longleftrightarrow> n < 2 ^ 64 \<and> s = \<lparr>lk = new_lock, pcs = replicate n Idle\<rparr>"

section \<open>The invariant\<close>

definition readers :: "pc list \<Rightarrow> nat" where
  "readers ps = count_list ps Reading"

definition owners :: "pc list \<Rightarrow> nat" where
  "owners ps = count_list ps Writing"

definition writers :: "pc list \<Rightarrow> nat" where
  "writers ps = count_list ps WSleep + count_list ps WWoken + count_list ps Writing"

lemmas count_defs = readers_def owners_def writers_def

text \<open>
  The counters count, at most one thread writes and then nobody reads, a reader sleeps only while a
  writer is in, and when the lock is free for a writer one of the writers is awake.
\<close>

definition lock_inv :: "nat \<Rightarrow> lock_sys \<Rightarrow> bool" where
  "lock_inv n s \<longleftrightarrow> n < 2 ^ 64 \<and> length (pcs s) = n
     \<and> unat (read_cnt (lk s)) = readers (pcs s)
     \<and> unat (write_cnt (lk s)) = writers (pcs s)
     \<and> owners (pcs s) = (if is_wrtiting (lk s) then 1 else 0)
     \<and> (is_wrtiting (lk s) \<longrightarrow> readers (pcs s) = 0)
     \<and> (RSleep \<in> set (pcs s) \<longrightarrow> 0 < writers (pcs s))
     \<and> (readers (pcs s) = 0 \<longrightarrow> owners (pcs s) = 0 \<longrightarrow> 0 < writers (pcs s) \<longrightarrow> WWoken \<in> set (pcs s))"

text \<open>How one thread's move and a notification change the counts.\<close>

lemma count_update:
  "i < length ps \<Longrightarrow> ps ! i = p \<Longrightarrow> q \<noteq> p \<Longrightarrow>
    Suc (count_list (ps[i := q]) p) = count_list ps p \<and> count_list (ps[i := q]) q = Suc (count_list ps q)"
proof (induction ps arbitrary: i)
  case (Cons a ps)
  then show ?case by (cases i) auto
qed simp

lemma count_update_other:
  "i < length ps \<Longrightarrow> ps ! i = p \<Longrightarrow> r \<noteq> p \<Longrightarrow> r \<noteq> q \<Longrightarrow> count_list (ps[i := q]) r = count_list ps r"
proof (induction ps arbitrary: i)
  case (Cons a ps)
  then show ?case by (cases i) auto
qed simp

lemma count_wake_reader:
  "count_list (map wake_reader ps) RSleep = 0"
  "count_list (map wake_reader ps) RWoken = count_list ps RSleep + count_list ps RWoken"
  "r \<noteq> RSleep \<Longrightarrow> r \<noteq> RWoken \<Longrightarrow> count_list (map wake_reader ps) r = count_list ps r"
proof (induction ps)
  case (Cons a ps)
  case 1 from Cons show ?case by (cases a) auto
  case 2 from Cons show ?case by (cases a) auto
  case 3 from 3 Cons show ?case by (cases a) auto
qed simp_all

lemma in_set_count: "x \<in> set xs \<longleftrightarrow> 0 < count_list xs x"
  using count_list_0_iff [of xs x] by auto

lemma count_pc_le:
  "count_list ps Idle + count_list ps RSleep + count_list ps RWoken + count_list ps Reading
   + count_list ps WSleep + count_list ps WWoken + count_list ps Writing = length ps"
proof (induction ps)
  case (Cons a ps)
  then show ?case by (cases a) auto
qed simp

lemma notified_length: "notified n ps ps' \<Longrightarrow> length ps' = length ps"
  by (induction rule: notified.induct) auto

lemma count_move:
  assumes "i < length ps" and "ps ! i = p" and "q \<noteq> p"
  shows "count_list (ps[i := q]) r
      = (if r = p then count_list ps p - 1 else if r = q then count_list ps q + 1 else count_list ps r)"
    and "0 < count_list ps p"
  using count_update [OF assms] count_update_other [OF assms(1,2), of r q] by auto

lemma size_t_step:
  "unat (x :: size_t) < 2 ^ 64 - 1 \<Longrightarrow> unat (x + 1) = unat x + 1"
  "0 < unat (x :: size_t) \<Longrightarrow> unat (x - 1) = unat x - 1"
  "(x :: size_t) = 0 \<longleftrightarrow> unat x = 0"
  "0 < (x :: size_t) \<longleftrightarrow> 0 < unat x"
proof -
  show "unat (x + 1) = unat x + 1" if "unat x < 2 ^ 64 - 1"
    using that by (simp add: unat_word_ariths)
  show "unat (x - 1) = unat x - 1" if "0 < unat x"
    using that by (intro unat_minus_one) auto
qed (simp_all add: unat_eq_0 word_less_nat_alt)

lemma notified_writer:
  assumes "notified NotifyOneWriter ps ps'"
  obtains "count_list ps WSleep = 0" "ps' = ps"
    | "0 < count_list ps WSleep" "count_list ps' WSleep = count_list ps WSleep - 1"
      "count_list ps' WWoken = count_list ps WWoken + 1"
      "\<And>r. r \<noteq> WSleep \<Longrightarrow> r \<noteq> WWoken \<Longrightarrow> count_list ps' r = count_list ps r"
  using assms
proof (cases rule: notified.cases)
  case (notified_one j)
  with count_move [of j ps WSleep WWoken] that(2) show ?thesis by simp
next
  case notified_nobody
  with that(1) show ?thesis by (simp add: count_list_0_iff)
qed

inductive_cases notified_NoneE: "notified NotifyNone ps ps'"
inductive_cases notified_AllE: "notified NotifyAllReaders ps ps'"

definition counts_inv :: "nat \<Rightarrow> rw_lock \<Rightarrow> (pc \<Rightarrow> nat) \<Rightarrow> bool" where
  "counts_inv n l c \<longleftrightarrow> n < 2 ^ 64
     \<and> c Idle + c RSleep + c RWoken + c Reading + c WSleep + c WWoken + c Writing = n
     \<and> unat (read_cnt l) = c Reading \<and> unat (write_cnt l) = c WSleep + c WWoken + c Writing
     \<and> c Writing = (if is_wrtiting l then 1 else 0) \<and> (is_wrtiting l \<longrightarrow> c Reading = 0)
     \<and> (0 < c RSleep \<longrightarrow> 0 < c WSleep + c WWoken + c Writing)
     \<and> (c Reading = 0 \<longrightarrow> c Writing = 0 \<longrightarrow> 0 < c WSleep \<longrightarrow> 0 < c WWoken)"

lemma lock_inv_counts: "lock_inv n s \<longleftrightarrow> counts_inv n (lk s) (count_list (pcs s))"
  using count_pc_le [of "pcs s"]
  by (auto simp: lock_inv_def counts_inv_def count_defs in_set_count)

lemmas lock_op_defs = LockRead_def LockRead_test_def LockWrite_def LockWrite_test_def
  UnlockRead_def UnlockWrite_def Let_def

lemma inv_read_test:
  assumes inv: "counts_inv n l (count_list ps)" and i: "i < length ps" "ps ! i \<in> {Idle, RWoken}"
    and r: "LockRead_test l = (l', ok)"
  shows "counts_inv n l' (count_list (ps[i := if ok then Reading else RSleep]))"
proof -
  obtain p where p: "ps ! i = p" "p = Idle \<or> p = RWoken" using i(2) by blast
  note move = count_move [OF i(1) p(1)]
  from inv r p(2) move(2) [of Reading] show ?thesis
    by (auto simp: LockRead_test_def counts_inv_def move(1) size_t_step split: if_splits)
qed

lemma inv_write_test:
  assumes inv: "counts_inv n l (count_list ps)" and i: "i < length ps" "ps ! i = WWoken"
    and r: "LockWrite_test l = (l', ok)"
  shows "counts_inv n l' (count_list (ps[i := if ok then Writing else WSleep]))"
proof -
  note move = count_move [OF i]
  from inv r move(2) [of Writing] show ?thesis
    by (auto simp: LockWrite_test_def counts_inv_def move(1) size_t_step split: if_splits)
qed

text \<open>A writer that has announced itself is in the position of one that was woken.\<close>

lemma inv_write_enter:
  assumes inv: "counts_inv n l (count_list ps)" and i: "i < length ps" "ps ! i = Idle"
  shows "counts_inv n (l\<lparr>write_cnt := write_cnt l + 1\<rparr>) (count_list (ps[i := WWoken]))"
proof -
  note move = count_move [OF i]
  from inv move(2) [of WWoken] show ?thesis
    by (auto simp: counts_inv_def move(1) size_t_step)
qed

lemma inv_unlock_read:
  assumes inv: "counts_inv n l (count_list ps)" and i: "i < length ps" "ps ! i = Reading"
    and r: "UnlockRead l = (l', k)" and k: "notified k (ps[i := Idle]) ps'"
  shows "counts_inv n l' (count_list ps')"
proof -
  note move = count_move [OF i, of Idle]
  from inv move(2) have w: "unat (write_cnt l) = count_list ps WSleep + count_list ps WWoken"
    and u: "unat (read_cnt l - 1) = count_list ps Reading - 1"
    by (auto simp: counts_inv_def size_t_step(2) split: if_splits)
  show ?thesis
  proof (cases k)
    case NotifyNone
    with k have "ps' = ps[i := Idle]" by (auto elim: notified_NoneE)
    with inv r NotifyNone move(2) w u show ?thesis
      by (auto simp: UnlockRead_def Let_def counts_inv_def move(1) size_t_step split: if_splits)
  next
    case NotifyOneWriter
    from k [unfolded NotifyOneWriter] show ?thesis
      by (cases rule: notified_writer)
        (use inv r NotifyOneWriter move(2) w u in
          \<open>auto simp: UnlockRead_def Let_def counts_inv_def move(1) size_t_step split: if_splits\<close>)
  next
    case NotifyAllReaders
    with r show ?thesis by (simp add: UnlockRead_def Let_def split: if_splits)
  qed
qed

lemma inv_unlock_write:
  assumes inv: "counts_inv n l (count_list ps)" and i: "i < length ps" "ps ! i = Writing"
    and r: "UnlockWrite l = (l', k)" and k: "notified k (ps[i := Idle]) ps'"
  shows "counts_inv n l' (count_list ps')"
proof -
  have move: "count_list (ps[i := Idle]) Writing = 0" "count_list (ps[i := Idle]) Idle = count_list ps Idle + 1"
    "\<And>r. r \<noteq> Writing \<Longrightarrow> r \<noteq> Idle \<Longrightarrow> count_list (ps[i := Idle]) r = count_list ps r"
    and w: "count_list ps Writing = 1" "count_list ps Reading = 0" "unat (read_cnt l) = 0" "n < 2 ^ 64"
      "unat (write_cnt l - 1) = count_list ps WSleep + count_list ps WWoken"
      "count_list ps Idle + count_list ps RSleep + count_list ps RWoken + count_list ps WSleep
       + count_list ps WWoken + 1 = n"
    using inv count_move [OF i, of Idle] by (auto simp: counts_inv_def size_t_step(2) split: if_splits)
  have l': "read_cnt l' = read_cnt l" "write_cnt l' = write_cnt l - 1" "\<not> is_wrtiting l'"
    and k': "k = (if write_cnt l - 1 = 0 then NotifyAllReaders else NotifyOneWriter)"
    using r by (auto simp: UnlockWrite_def Let_def)
  show ?thesis
  proof (cases "write_cnt l - 1 = 0")
    case True
    with k k' have "ps' = map wake_reader (ps[i := Idle])" by (auto elim: notified_AllE)
    moreover have "count_list ps WSleep + count_list ps WWoken = 0" using True w(5) by (simp add: size_t_step)
    ultimately show ?thesis using w l' move by (simp add: counts_inv_def count_wake_reader)
  next
    case False
    then have "0 < count_list ps WSleep + count_list ps WWoken" using w(5) by (simp add: size_t_step)
    moreover from False k k' have "notified NotifyOneWriter (ps[i := Idle]) ps'" by simp
    then show ?thesis
      by (cases rule: notified_writer) (use calculation w l' move in \<open>simp_all add: counts_inv_def\<close>)
  qed
qed

lemma inv_spurious:
  assumes inv: "counts_inv n l (count_list ps)" and i: "i < length ps"
    and p: "ps ! i = RSleep \<and> q = RWoken \<or> ps ! i = WSleep \<and> q = WWoken"
  shows "counts_inv n l (count_list (ps[i := q]))"
proof -
  obtain p where p': "ps ! i = p" "p = RSleep \<and> q = RWoken \<or> p = WSleep \<and> q = WWoken" using p by blast
  then have "q \<noteq> p" by auto
  from count_move [OF i p'(1) this] inv p'(2) show ?thesis
    by (auto simp: counts_inv_def split: if_splits)
qed

lemma lock_inv_step:
  assumes "lock_inv n s" and "lock_step s s'"
  shows "lock_inv n s'"
  using assms(2,1) unfolding lock_inv_counts
proof (induction rule: lock_step.induct)
  case (enter_write i ps l l' ok)
  with inv_write_test [OF inv_write_enter, of n l ps i i l' ok] show ?case by (simp add: LockWrite_def)
next
  case (enter_read i ps l l' ok)
  with inv_read_test [of n l ps i l' ok] show ?case by (simp add: LockRead_def)
next
  case (retry_read i ps l l' ok)
  with inv_read_test [of n l ps i l' ok] show ?case by simp
next
  case (retry_write i ps l l' ok)
  with inv_write_test [of n l ps i l' ok] show ?case by simp
qed (auto intro: inv_unlock_read inv_unlock_write inv_spurious)

interpretation rw: invariant_system "lock_init n" lock_step "lock_inv n" for n
proof
  show "lock_inv n s" if "lock_init n s" for s
    using that count_list_0_iff [of "replicate n Idle"]
    by (auto simp: lock_init_def new_lock_def lock_inv_def count_defs count_list_0_iff)
qed (rule lock_inv_step)

section \<open>What the lock promises\<close>

definition holding :: "lock_sys \<Rightarrow> pc \<Rightarrow> nat set" where
  "holding s p = {i. i < length (pcs s) \<and> pcs s ! i = p}"

lemma card_holding: "card (holding s p) = count_list (pcs s) p"
proof -
  have "card {i. i < length ps \<and> ps ! i = p} = count_list ps p" for ps
    using length_filter_conv_card [of "(=) p" ps] by (simp add: count_list_eq_length_filter eq_commute [of p])
  then show ?thesis by (simp add: holding_def)
qed

lemma finite_holding [simp]: "finite (holding s p)"
  by (simp add: holding_def)

lemma holding_empty: "holding s p = {} \<longleftrightarrow> count_list (pcs s) p = 0"
  using card_holding [of s p] by auto

lemma holding_iff: "holding s p = {} \<longleftrightarrow> p \<notin> set (pcs s)"
  by (auto simp: holding_def in_set_conv_nth)

text \<open>
  C16. Exclusion and exact counters. In every reachable state of any number of threads (fewer than
  \<open>2 ^ 64\<close>) at most one thread is in its write section and then none is in its read section;
  \<^verbatim>\<open>read_cnt_\<close> is the number of threads that read, \<^verbatim>\<open>write_cnt_\<close> the number of threads between
  their call of \<^verbatim>\<open>LockWrite\<close> and their \<^verbatim>\<open>UnlockWrite\<close>, and \<^verbatim>\<open>is_wrtiting_\<close> tells whether one is
  writing: no counter ever wraps.
\<close>

theorem rw_lock_exclusion:
  assumes "reach (lock_init n) lock_step s"
  shows "card (holding s Writing) \<le> 1 \<and> (holding s Writing \<noteq> {} \<longrightarrow> holding s Reading = {})
    \<and> unat (read_cnt (lk s)) = card (holding s Reading)
    \<and> unat (write_cnt (lk s)) = card (holding s WSleep) + card (holding s WWoken) + card (holding s Writing)
    \<and> is_wrtiting (lk s) = (holding s Writing \<noteq> {})"
  using rw.inv_reach [OF assms] unfolding lock_inv_counts counts_inv_def holding_empty card_holding
  by (auto split: if_splits)

lemma holding_pair:
  "holding \<lparr>lk = l, pcs = [a, b]\<rparr> p = (if a = p then {0} else {}) \<union> (if b = p then {1} else {})"
proof -
  have "{i. i < 2 \<and> [a, b] ! i = p} = {i. (i = 0 \<and> a = p) \<or> (i = 1 \<and> b = p)}"
    by (intro Collect_cong) (auto simp: less_2_cases_iff)
  then show ?thesis by (auto simp: holding_def numeral_2_eq_2)
qed

lemma two_threads: "lock_init 2 \<lparr>lk = new_lock, pcs = [Idle, Idle]\<rparr>"
proof -
  have "replicate 2 Idle = [Idle, Idle]" by (simp add: numeral_2_eq_2)
  then show ?thesis by (simp add: lock_init_def)
qed

lemma two_threads_steps:
  fixes l defines "l \<equiv> \<lparr>read_cnt = 0, write_cnt = 1, is_wrtiting = True\<rparr>"
  shows "lock_step \<lparr>lk = new_lock, pcs = [Idle, Idle]\<rparr> \<lparr>lk = l, pcs = [Writing, Idle]\<rparr>"
    and "lock_step \<lparr>lk = l, pcs = [Writing, Idle]\<rparr> \<lparr>lk = l, pcs = [Writing, RSleep]\<rparr>"
proof -
  have "lock_step \<lparr>lk = new_lock, pcs = [Idle, Idle]\<rparr> \<lparr>lk = l, pcs = [Idle, Idle][0 := if True then Writing else WSleep]\<rparr>"
    by (rule enter_write) (simp_all add: LockWrite_def LockWrite_test_def new_lock_def l_def)
  moreover have "lock_step \<lparr>lk = l, pcs = [Writing, Idle]\<rparr> \<lparr>lk = l, pcs = [Writing, Idle][1 := if False then Reading else RSleep]\<rparr>"
    by (rule enter_read) (simp_all add: LockRead_def LockRead_test_def l_def)
  ultimately show "lock_step \<lparr>lk = new_lock, pcs = [Idle, Idle]\<rparr> \<lparr>lk = l, pcs = [Writing, Idle]\<rparr>"
    "lock_step \<lparr>lk = l, pcs = [Writing, Idle]\<rparr> \<lparr>lk = l, pcs = [Writing, RSleep]\<rparr>" by simp_all
qed

lemma two_threads_run:
  "reach (lock_init 2) lock_step \<lparr>lk = \<lparr>read_cnt = 0, write_cnt = 1, is_wrtiting = True\<rparr>, pcs = [Writing, RSleep]\<rparr>"
  using reach_init [of "lock_init 2" _ lock_step, OF two_threads] two_threads_steps by (auto intro: reach_step)

theorem rw_lock_exclusion_witness:
  "holding \<lparr>lk = \<lparr>read_cnt = 0, write_cnt = 1, is_wrtiting = True\<rparr>, pcs = [Writing, RSleep]\<rparr> Reading = {}"
  using rw_lock_exclusion [OF two_threads_run] by simp

text \<open>The steps that take a thread forward: release, or a test of a woken thread that succeeds.\<close>

definition pending_work :: "lock_sys \<Rightarrow> nat" where
  "pending_work s = 2 * (count_list (pcs s) RSleep + count_list (pcs s) RWoken + count_list (pcs s) WSleep
     + count_list (pcs s) WWoken) + count_list (pcs s) Reading + count_list (pcs s) Writing"

lemma notified_work:
  assumes "notified k ps ps'"
  shows "pending_work \<lparr>lk = l, pcs = ps'\<rparr> = pending_work \<lparr>lk = l', pcs = ps\<rparr>"
  using assms
proof (cases rule: notified.cases)
  case (notified_one j)
  with count_move [of j ps WSleep WWoken] show ?thesis by (simp add: pending_work_def)
qed (simp_all add: pending_work_def count_wake_reader)

lemma notified_exists: "\<exists>ps'. notified k ps ps'"
proof (cases k)
  case NotifyOneWriter
  then show ?thesis
    by (cases "WSleep \<in> set ps") (metis in_set_conv_nth notified_one, auto intro: notified_nobody)
qed (auto intro: notified.intros)

text \<open>A thread that holds the lock can leave it.\<close>

lemma leave_progress:
  assumes "p \<in> set ps" and "p = Reading \<or> p = Writing"
  shows "\<exists>s'. lock_step \<lparr>lk = l, pcs = ps\<rparr> s' \<and> pending_work s' < pending_work \<lparr>lk = l, pcs = ps\<rparr>"
proof -
  from assms(1) [unfolded in_set_conv_nth] obtain i where i: "i < length ps" "ps ! i = p" by blast
  obtain l' k where k: "(if p = Reading then UnlockRead l else UnlockWrite l) = (l', k)" by fastforce
  obtain ps' where ps': "notified k (ps[i := Idle]) ps'" using notified_exists by blast
  have "lock_step \<lparr>lk = l, pcs = ps\<rparr> \<lparr>lk = l', pcs = ps'\<rparr>"
    using i k ps' assms(2) by (auto intro: leave_read leave_write)
  moreover have "pending_work \<lparr>lk = l', pcs = ps'\<rparr> < pending_work \<lparr>lk = l, pcs = ps\<rparr>"
    using notified_work [OF ps', of l' l] count_move [OF i, of Idle] assms(2)
    by (auto simp: pending_work_def)
  ultimately show ?thesis by blast
qed

lemma lock_progress:
  assumes inv: "lock_inv n s" and w: "0 < pending_work s"
  shows "\<exists>s'. lock_step s s' \<and> pending_work s' < pending_work s"
proof -
  obtain l ps where s: "s = \<lparr>lk = l, pcs = ps\<rparr>" by (cases s)
  show ?thesis
  proof (cases "Reading \<in> set ps \<or> Writing \<in> set ps")
    case True
    then show ?thesis unfolding s by (blast intro: leave_progress)
  next
    case False
    with inv have free: "read_cnt l = 0" "\<not> is_wrtiting l"
      and sleepers: "RSleep \<in> set ps \<longrightarrow> WWoken \<in> set ps" "WSleep \<in> set ps \<longrightarrow> WWoken \<in> set ps"
      and cnt: "write_cnt l = 0 \<longleftrightarrow> WSleep \<notin> set ps \<and> WWoken \<notin> set ps"
      by (auto simp: s lock_inv_counts counts_inv_def in_set_count size_t_step split: if_splits)
    show ?thesis
    proof (cases "WWoken \<in> set ps")
      case True
      then obtain i where i: "i < length ps" "ps ! i = WWoken" by (auto simp: in_set_conv_nth)
      have "lock_step s \<lparr>lk = l\<lparr>is_wrtiting := True\<rparr>, pcs = ps[i := if True then Writing else WSleep]\<rparr>"
        unfolding s by (rule retry_write) (use i free in \<open>simp_all add: LockWrite_test_def\<close>)
      moreover have "pending_work \<lparr>lk = l\<lparr>is_wrtiting := True\<rparr>, pcs = ps[i := Writing]\<rparr> < pending_work s"
        using count_move [OF i, of Writing] by (simp add: s pending_work_def)
      ultimately show ?thesis by (auto simp: s)
    next
      case no_writer: False
      with False sleepers w have "RWoken \<in> set ps"
        by (auto simp: s pending_work_def in_set_count)
      then obtain i where i: "i < length ps" "ps ! i = RWoken" by (auto simp: in_set_conv_nth)
      have "lock_step s \<lparr>lk = l\<lparr>read_cnt := read_cnt l + 1\<rparr>, pcs = ps[i := if True then Reading else RSleep]\<rparr>"
        unfolding s by (rule retry_read) (use i cnt sleepers no_writer in \<open>simp_all add: LockRead_test_def\<close>)
      moreover have "pending_work \<lparr>lk = l\<lparr>read_cnt := read_cnt l + 1\<rparr>, pcs = ps[i := Reading]\<rparr> < pending_work s"
        using count_move [OF i, of Reading] by (simp add: s pending_work_def)
      ultimately show ?thesis by (auto simp: s)
    qed
  qed
qed



lemma nth_notified:
  "notified k ps ps' \<Longrightarrow> p = Reading \<or> p = Writing \<Longrightarrow> j < length ps \<Longrightarrow> ps' ! j = p \<longleftrightarrow> ps ! j = p"
proof (induction rule: notified.induct)
  case (notified_all ps)
  then show ?case by (cases "ps ! j") auto
qed (auto simp: nth_list_update)

lemma holding_update:
  "i < length ps \<Longrightarrow> holding \<lparr>lk = l, pcs = ps[i := q]\<rparr> p
    = (if q = p then insert i (holding \<lparr>lk = l', pcs = ps\<rparr> p) else holding \<lparr>lk = l', pcs = ps\<rparr> p - {i})"
  by (auto simp: holding_def nth_list_update split: if_splits)

lemma holding_shrinks:
  "j \<in> holding \<lparr>lk = l', pcs = ps[i := q]\<rparr> p \<Longrightarrow> i < length ps \<Longrightarrow> q \<noteq> p \<Longrightarrow> j \<in> holding \<lparr>lk = l, pcs = ps\<rparr> p"
  by (auto simp: holding_def nth_list_update split: if_splits)

lemma holding_notified:
  assumes "notified k ps ps'" and "p = Reading \<or> p = Writing"
  shows "holding \<lparr>lk = l, pcs = ps'\<rparr> p = holding \<lparr>lk = l', pcs = ps\<rparr> p"
  using nth_notified [OF assms] notified_length [OF assms(1)] by (auto simp: holding_def)

lemma not_holding: "i < length ps \<Longrightarrow> ps ! i \<noteq> p \<Longrightarrow> i \<notin> holding \<lparr>lk = l, pcs = ps\<rparr> p"
  by (simp add: holding_def)

lemma nth_waiting:
  "notified k ps ps' \<Longrightarrow> j < length ps \<Longrightarrow> ps' ! j \<in> {WSleep, WWoken} \<longleftrightarrow> ps ! j \<in> {WSleep, WWoken}"
proof (induction rule: notified.induct)
  case (notified_all ps)
  then show ?case by (cases "ps ! j") auto
qed (auto simp: nth_list_update)

lemma holding_waiting:
  assumes "notified k ps ps'"
  shows "holding \<lparr>lk = l, pcs = ps'\<rparr> WSleep \<union> holding \<lparr>lk = l, pcs = ps'\<rparr> WWoken
    = holding \<lparr>lk = l', pcs = ps\<rparr> WSleep \<union> holding \<lparr>lk = l', pcs = ps\<rparr> WWoken"
proof -
  have "holding \<lparr>lk = x, pcs = qs\<rparr> WSleep \<union> holding \<lparr>lk = x, pcs = qs\<rparr> WWoken = {j. j < length qs \<and> qs ! j \<in> {WSleep, WWoken}}"
    for x qs by (auto simp: holding_def)
  moreover have "{j. j < length ps' \<and> ps' ! j \<in> {WSleep, WWoken}} = {j. j < length ps \<and> ps ! j \<in> {WSleep, WWoken}}"
    using nth_waiting [OF assms] notified_length [OF assms] by (intro Collect_cong) auto
  ultimately show ?thesis by simp
qed

text \<open>
  The abstract lock, which prefers writers: who reads, who has asked to write, and who writes. A thread starts to read
  when nobody writes or has asked to, and to write when nobody reads or writes; it leaves when it is in.
\<close>

inductive abs_lock_step :: "nat set \<times> nat set \<times> nat set \<Rightarrow> nat set \<times> nat set \<times> nat set \<Rightarrow> bool" where
  abs_get_read: "i \<notin> R \<Longrightarrow> abs_lock_step (R, {}, {}) (insert i R, {}, {})"
| abs_put_read: "i \<in> R \<Longrightarrow> abs_lock_step (R, Q, W) (R - {i}, Q, W)"
| abs_ask_write: "i \<notin> R \<union> Q \<union> W \<Longrightarrow> abs_lock_step (R, Q, W) (R, insert i Q, W)"
| abs_get_write: "abs_lock_step ({}, Q, {}) ({}, Q - {i}, {i})"
| abs_put_write: "i \<in> W \<Longrightarrow> abs_lock_step (R, Q, W) (R, Q, W - {i})"

definition abs_lock :: "lock_sys \<Rightarrow> nat set \<times> nat set \<times> nat set" where
  "abs_lock s = (holding s Reading, holding s WSleep \<union> holding s WWoken, holding s Writing)"

lemma abs_lock_update:
  assumes "i < length ps"
  shows "abs_lock \<lparr>lk = l', pcs = ps[i := q]\<rparr> = (case abs_lock \<lparr>lk = l, pcs = ps\<rparr> of (R, Q, W) \<Rightarrow>
    (if q = Reading then insert i R else R - {i}, if q \<in> {WSleep, WWoken} then insert i Q else Q - {i},
     if q = Writing then insert i W else W - {i}))"
  by (auto simp: abs_lock_def holding_update [OF assms, of l' _ _ l] split: if_splits)

lemma abs_lock_mem:
  assumes "i < length ps" and "abs_lock \<lparr>lk = l, pcs = ps\<rparr> = (R, Q, W)"
  shows "i \<in> R \<longleftrightarrow> ps ! i = Reading" and "i \<in> Q \<longleftrightarrow> ps ! i \<in> {WSleep, WWoken}" and "i \<in> W \<longleftrightarrow> ps ! i = Writing"
  using assms by (auto simp: abs_lock_def holding_def)

text \<open>What the counters say of the abstract state.\<close>

lemma abs_lock_counters:
  assumes "lock_inv n s" and "abs_lock s = (R, Q, W)"
  shows "write_cnt (lk s) = 0 \<Longrightarrow> Q = {} \<and> W = {}" and "read_cnt (lk s) = 0 \<Longrightarrow> R = {}" and "\<not> is_wrtiting (lk s) \<Longrightarrow> W = {}"
proof -
  have c: "unat (read_cnt (lk s)) = count_list (pcs s) Reading" "is_wrtiting (lk s) = (count_list (pcs s) Writing \<noteq> 0)"
    "unat (write_cnt (lk s)) = count_list (pcs s) WSleep + count_list (pcs s) WWoken + count_list (pcs s) Writing"
    using assms(1) unfolding lock_inv_counts counts_inv_def by auto
  have a: "R = holding s Reading" "Q = holding s WSleep \<union> holding s WWoken" "W = holding s Writing"
    using assms(2) by (simp_all add: abs_lock_def)
  show "write_cnt (lk s) = 0 \<Longrightarrow> Q = {} \<and> W = {}" using c(3) by (simp add: a holding_empty)
  show "read_cnt (lk s) = 0 \<Longrightarrow> R = {}" using c(1) by (simp add: a holding_empty)
  show "\<not> is_wrtiting (lk s) \<Longrightarrow> W = {}" using c(2) by (simp add: a holding_empty)
qed

lemma abs_try_read:
  assumes inv: "lock_inv n \<lparr>lk = l, pcs = ps\<rparr>" and i: "i < length ps" "ps ! i \<in> {Idle, RWoken}"
    and r: "LockRead_test l = (l', ok)"
  defines "s' \<equiv> \<lparr>lk = l', pcs = ps[i := if ok then Reading else RSleep]\<rparr>"
  shows "abs_lock s' = abs_lock \<lparr>lk = l, pcs = ps\<rparr> \<or> abs_lock_step (abs_lock \<lparr>lk = l, pcs = ps\<rparr>) (abs_lock s')"
proof -
  obtain R Q W where a: "abs_lock \<lparr>lk = l, pcs = ps\<rparr> = (R, Q, W)" using prod_cases3 by blast
  have "i \<notin> R \<union> Q \<union> W" using abs_lock_mem [OF i(1) a] i(2) by auto
  moreover have "ok \<Longrightarrow> Q = {} \<and> W = {}" using abs_lock_counters(1) [OF inv a] r by (simp add: LockRead_test_def split: if_splits)
  ultimately show ?thesis
    by (cases ok) (auto simp: s'_def a abs_lock_update [OF i(1), of l' _ l] intro: abs_get_read)
qed

lemma abs_try_write:
  assumes a: "abs_lock \<lparr>lk = l, pcs = ps\<rparr> = (R, Q, W)" and i: "i < length ps"
    and free: "read_cnt l = 0 \<Longrightarrow> \<not> is_wrtiting l \<Longrightarrow> R = {} \<and> W = {}"
    and p: "ps ! i \<in> {Idle, WWoken}" and r: "LockWrite_test l = (l', ok)"
  defines "s' \<equiv> \<lparr>lk = l', pcs = ps[i := if ok then Writing else WSleep]\<rparr>"
  shows "abs_lock s' = (R, Q, W) \<or> abs_lock_step (R, Q, W) (abs_lock s')"
proof (cases ok)
  case True
  with r free have "R = {}" "W = {}" by (auto simp: LockWrite_test_def split: if_splits)
  with True show ?thesis by (auto simp: s'_def abs_lock_update [OF i, of l' _ l] a intro: abs_get_write)
next
  case False
  show ?thesis
  proof (cases "i \<in> Q")
    case False
    then have "i \<notin> R \<union> Q \<union> W" using abs_lock_mem [OF i a] p by auto
    with \<open>\<not> ok\<close> abs_ask_write [OF this] show ?thesis by (simp add: s'_def abs_lock_update [OF i, of l' _ l] a)
  next
    case True
    then have "insert i Q = Q" "R - {i} = R" "W - {i} = W" using abs_lock_mem [OF i a] p by auto
    with \<open>\<not> ok\<close> show ?thesis by (simp add: s'_def abs_lock_update [OF i, of l' _ l] a)
  qed
qed

lemma abs_leave:
  assumes i: "i < length ps" "ps ! i = p" "p = Reading \<or> p = Writing" and k: "notified k (ps[i := Idle]) ps'"
  shows "abs_lock_step (abs_lock \<lparr>lk = l, pcs = ps\<rparr>) (abs_lock \<lparr>lk = l', pcs = ps'\<rparr>)"
proof -
  obtain R Q W where a: "abs_lock \<lparr>lk = l, pcs = ps\<rparr> = (R, Q, W)" using prod_cases3 by blast
  have "abs_lock \<lparr>lk = l', pcs = ps'\<rparr> = abs_lock \<lparr>lk = l, pcs = ps[i := Idle]\<rparr>"
    unfolding abs_lock_def using holding_notified [OF k, of _ l' l] holding_waiting [OF k, of l' l] by simp
  also have "\<dots> = (R - {i}, Q - {i}, W - {i})" by (simp add: abs_lock_update [OF i(1), of l _ l] a)
  finally show ?thesis using i(3) abs_lock_mem [OF i(1) a] i(2)
    by (auto simp: a intro: abs_put_read abs_put_write)
qed

lemma abs_lock_simulation:
  assumes inv: "lock_inv n s" and "lock_step s s'"
  shows "abs_lock s' = abs_lock s \<or> abs_lock_step (abs_lock s) (abs_lock s')"
  using assms(2)
proof (cases rule: lock_step.cases)
  case (enter_read i ps l l' ok)
  with inv abs_try_read [of n l ps i l' ok] show ?thesis by (simp add: LockRead_def)
next
  case (retry_read i ps l l' ok)
  with inv abs_try_read [of n l ps i l' ok] show ?thesis by simp
next
  case (enter_write i ps l l' ok)
  obtain R Q W where a: "abs_lock s = (R, Q, W)" using prod_cases3 by blast
  let ?l = "l\<lparr>write_cnt := write_cnt l + 1\<rparr>"
  have "abs_lock \<lparr>lk = ?l, pcs = ps\<rparr> = (R, Q, W)" using a enter_write(1) by (simp add: abs_lock_def holding_def)
  from abs_try_write [OF this, of i l' ok] enter_write abs_lock_counters(2,3) [OF inv a] a show ?thesis by (simp add: LockWrite_def)
next
  case (retry_write i ps l l' ok)
  obtain R Q W where a: "abs_lock s = (R, Q, W)" using prod_cases3 by blast
  with abs_try_write [of l ps R Q W i l' ok] retry_write abs_lock_counters(2,3) [OF inv a] show ?thesis by simp
next
  case (spurious_read i ps l)
  then show ?thesis by (auto simp: abs_lock_def holding_update [of i ps l _ _ l] not_holding)
next
  case (spurious_write i ps l)
  then have "i \<in> holding \<lparr>lk = l, pcs = ps\<rparr> WSleep" by (simp add: holding_def)
  with spurious_write show ?thesis by (auto simp: abs_lock_def holding_update [of i ps l _ _ l] not_holding)
qed (auto intro: abs_leave)

interpretation rw_abs: simulation "lock_init n" lock_step "lock_inv n" abs_lock "\<lambda>a. a = ({}, {}, {})" abs_lock_step for n
proof
  show "abs_lock s = ({}, {}, {})" if "lock_init n s" for s
    using that by (auto simp: lock_init_def abs_lock_def holding_def)
qed (rule abs_lock_simulation)

text \<open>
  C17. Refinement. Through the sets of threads that read, that have asked to write and that write, every run of the
  condition-variable implementation, whatever its length, its threads and its spurious wake-ups, is step by step
  a run of the abstract lock that prefers writers: it begins with nobody in, and what is left of the run
  after the steps that the abstract lock does not see is a sequence of its steps.
\<close>

theorem rw_lock_refines:
  assumes "lock_init n s" and "successively lock_step (s # ss)"
  shows "abs_lock s = ({}, {}, {}) \<and> successively abs_lock_step (remdups_adj (map abs_lock (s # ss)))"
  using rw_abs.abs_init [OF assms(1)] rw_abs.abs_run [OF rw.inv_init [OF assms(1)] assms(2)] ..

theorem rw_lock_refines_witness:
  "successively abs_lock_step [({}, {}, {}), ({}, {}, {0})]"
proof -
  let ?l = "\<lparr>read_cnt = 0, write_cnt = 1, is_wrtiting = True\<rparr>"
  have "successively lock_step [\<lparr>lk = new_lock, pcs = [Idle, Idle]\<rparr>, \<lparr>lk = ?l, pcs = [Writing, Idle]\<rparr>, \<lparr>lk = ?l, pcs = [Writing, RSleep]\<rparr>]"
    using two_threads_steps by simp
  from rw_lock_refines [OF two_threads this] show ?thesis by (simp add: abs_lock_def holding_pair)
qed

text \<open>
  Writer preference. As long as a writer waits or writes, no step lets another thread start to
  read: the set of readers only shrinks.
\<close>

theorem rw_lock_writer_preference:
  assumes "reach (lock_init n) lock_step s" and "lock_step s s'"
    and "{WSleep, WWoken, Writing} \<inter> set (pcs s) \<noteq> {}"
  shows "holding s' Reading \<subseteq> holding s Reading"
proof -
  have "write_cnt (lk s) \<noteq> 0"
    using rw.inv_reach [OF assms(1)] assms(3)
    by (auto simp: lock_inv_counts counts_inv_def in_set_count size_t_step split: if_splits)
  with assms(2) show ?thesis
  proof (cases rule: lock_step.cases)
    case (leave_read i ps l l' k ps')
    with holding_notified [of k "ps[i := Idle]" ps' Reading l' l] show ?thesis
      by (simp add: holding_update [of i ps l _ _ l])
  next
    case (leave_write i ps l l' k ps')
    with holding_notified [of k "ps[i := Idle]" ps' Reading l' l] show ?thesis
      by (auto simp: holding_update [of i ps l _ _ l])
  qed (auto simp: LockRead_def LockRead_test_def dest: holding_shrinks split: if_splits)
qed

theorem rw_lock_writer_preference_witness:
  "holding \<lparr>lk = \<lparr>read_cnt = 0, write_cnt = 1, is_wrtiting = True\<rparr>, pcs = [Writing, RWoken]\<rparr> Reading \<subseteq> {}"
proof -
  let ?l = "\<lparr>read_cnt = 0, write_cnt = 1, is_wrtiting = True\<rparr>"
  have "lock_step \<lparr>lk = ?l, pcs = [Writing, RSleep]\<rparr> \<lparr>lk = ?l, pcs = [Writing, RSleep][1 := RWoken]\<rparr>"
    by (rule spurious_read) simp_all
  from rw_lock_writer_preference [OF two_threads_run this] show ?thesis by (simp add: holding_pair)
qed

end
