(* ===== verification/Blade_Common.thy ===== *)
theory Blade_Common
  imports Blade_Prelude
begin

text \<open>
  blmesh/common.h and blmesh/id.cc: the field and message type codes, the 40-byte message header,
  the names that the protocol reserves, the ports, and the message identifiers.
\<close>

section \<open>Field and message types\<close>

datatype field_type =
    FT_None | FT_Byte | FT_I32 | FT_I64 | FT_F64 | FT_String | FT_BladeName

fun field_type_code :: "field_type \<Rightarrow> u16" where
  "field_type_code FT_None = 0x0000"
| "field_type_code FT_Byte = 0x0002"
| "field_type_code FT_I32 = 0x0012"
| "field_type_code FT_I64 = 0x0013"
| "field_type_code FT_F64 = 0x0021"
| "field_type_code FT_String = 0x00A0"
| "field_type_code FT_BladeName = 0x00A1"

lemma field_type_code_inj [simp]: "field_type_code a = field_type_code b \<longleftrightarrow> a = b"
  by (cases a; cases b) simp_all

definition kBTRequest :: u32 where "kBTRequest = 0x00"
definition kBTResponse :: u32 where "kBTResponse = 0x01"
definition kBTRegister :: u32 where "kBTRegister = 0x10"
definition kBTDeregister :: u32 where "kBTDeregister = 0x11"
definition kBTKeepAlive :: u32 where "kBTKeepAlive = 0x20"
definition kBTQuery :: u32 where "kBTQuery = 0xA0"
definition kBTAnswer :: u32 where "kBTAnswer = 0xA1"

lemmas blade_type_defs = kBTRequest_def kBTResponse_def kBTRegister_def kBTDeregister_def
  kBTKeepAlive_def kBTQuery_def kBTAnswer_def

section \<open>The message header\<close>

definition kBladeMagicNumber :: u32 where "kBladeMagicNumber = 0x01E0ADB1"

text \<open>
  \<^verbatim>\<open>extra\<close> is an array of four words. The trailing zero-length array \<^verbatim>\<open>service_name\<close> takes no
  space, so \<^verbatim>\<open>sizeof(RawBladeHeader)\<close> is 40.
\<close>

record raw_blade_header =
  magic_number :: i32
  hdr_id :: u32
  hdr_trace_id :: u32
  hdr_type :: u32
  payload_length :: u32
  content_offset :: u32
  extra :: "u32 \<times> u32 \<times> u32 \<times> u32"

definition default_header :: raw_blade_header where
  "default_header = \<lparr>magic_number = kBladeMagicNumber, hdr_id = 0, hdr_trace_id = 0, hdr_type = 0,
     payload_length = 0, content_offset = 0, extra = (0, 0, 0, 0)\<rparr>"

definition sizeof_header :: nat where "sizeof_header = 40"

section \<open>Reserved names and ports\<close>

named_theorems protocol_names \<open>definitions of the reserved names\<close>

definition kKartosServiceName :: string where [protocol_names]: "kKartosServiceName = ''#KARTOS''"
definition kLokiServiceName :: string where [protocol_names]: "kLokiServiceName = ''#LOKI''"
definition kWatchdogServiceName :: string where [protocol_names]: "kWatchdogServiceName = ''#WD''"
definition kIceServiceName :: string where [protocol_names]: "kIceServiceName = ''#ICE''"
definition kIceRegisterServiceName :: string where
  [protocol_names]: "kIceRegisterServiceName = ''#ICE_SR''"
definition kCallerServiceName :: string where [protocol_names]: "kCallerServiceName = ''#ANY_CALL''"
definition kRequestService :: string where [protocol_names]: "kRequestService = ''#CALL_NAME''"
definition kResponseService :: string where [protocol_names]: "kResponseService = ''#RESP_NAME''"
definition kRegisterIp :: string where [protocol_names]: "kRegisterIp = ''#REG_IP''"
definition kRegisterPort :: string where [protocol_names]: "kRegisterPort = ''#REG_PORT''"
definition kIceOk :: string where [protocol_names]: "kIceOk = ''#ICE_OK''"
definition kIceFailed :: string where [protocol_names]: "kIceFailed = ''#ICE_FAIL''"
definition kQuery :: string where [protocol_names]: "kQuery = ''#QUERY''"
definition kAnswerIp :: string where [protocol_names]: "kAnswerIp = ''#ANS_IP''"
definition kAnswerPort :: string where [protocol_names]: "kAnswerPort = ''#ANS_PORT''"
definition kNoAnswer :: string where [protocol_names]: "kNoAnswer = ''#NO_ANS''"
definition kNoService :: string where [protocol_names]: "kNoService = ''#NO_SRV''"
definition kChaosReport :: string where [protocol_names]: "kChaosReport = ''#REPORT''"
definition kChaosSrvQuery :: string where
  [protocol_names]: "kChaosSrvQuery = ''#CHAOS_SERVICE_QUERIES''"
definition kChaosSrvError :: string where
  [protocol_names]: "kChaosSrvError = ''#CHAOS_SERVICE_ERRORS''"
definition kChaosSrvShutdown :: string where
  [protocol_names]: "kChaosSrvShutdown = ''#CHAOS_SERVICE_SHUTDOWNS''"
definition kChaosSrvAvgBytes :: string where
  [protocol_names]: "kChaosSrvAvgBytes = ''#CHAOS_SERVICE_AVGBYTES''"
definition kChaosMostQuery :: string where
  [protocol_names]: "kChaosMostQuery = ''#CHAOS_MOST_QUERIES''"
definition kChaosMostError :: string where
  [protocol_names]: "kChaosMostError = ''#CHAOS_MOST_ERRORS''"
definition kChaosMostShutdown :: string where
  [protocol_names]: "kChaosMostShutdown = ''#CHAOS_MOST_SHUTDOWNS''"
definition kChaosAvaSrv :: string where [protocol_names]: "kChaosAvaSrv = ''#CHAOS_AVA_SERVICE''"
definition kChaosAvaSrvN :: string where [protocol_names]: "kChaosAvaSrvN = ''#CHAOS_AVA_SRV_NUMS''"
definition kChaosReportType :: string where [protocol_names]: "kChaosReportType = ''#CHAOS_RT''"
definition kChaosName :: string where [protocol_names]: "kChaosName = ''#CHAOS_NAME''"
definition kChaosVal :: string where [protocol_names]: "kChaosVal = ''#CHAOS_VAL''"
definition kChaosOk :: string where [protocol_names]: "kChaosOk = ''#CHAOS_OK''"

definition kZeroByte :: blade_byte where "kZeroByte = 0"

definition kKartosPort :: port where "kKartosPort = 13520"
definition kLokiPort :: port where "kLokiPort = 13521"
definition kIcePort :: port where "kIcePort = 13522"
definition kChaosPort :: port where "kChaosPort = 13523"

lemmas port_defs = kKartosPort_def kLokiPort_def kIcePort_def kChaosPort_def

section \<open>Message identifiers\<close>

text \<open>
  \<^verbatim>\<open>id::Generate\<close>: \<open>t\<close> is the value of \<^verbatim>\<open>time(nullptr)\<close>, \<open>d\<close> the number drawn from
  \<^verbatim>\<open>uniform_int_distribution<int>(0, 256)\<close>, whose bounds are both inclusive. The shifted time is
  truncated to 32 bits, and the addition is modulo \<open>2 ^ 32\<close>.
\<close>

definition Generate :: "nat \<Rightarrow> nat \<Rightarrow> u32" where
  "Generate t d = word_of_nat (t * 2 ^ 8) + word_of_nat d"

definition draw_ok :: "nat \<Rightarrow> bool" where
  "draw_ok d = (d \<le> 256)"

lemma unat_Generate: "unat (Generate t d) = (t * 256 + d) mod 2 ^ 32"
proof -
  have "Generate t d = word_of_nat (t * 256 + d)" by (simp add: Generate_def)
  then show ?thesis by (simp only: unat_of_nat) simp
qed

lemma Generate_value:
  assumes "t < 2 ^ 24" and "draw_ok d"
  shows "unat (Generate t d) = (if d = 256 then ((t + 1) mod 2 ^ 24) * 256 else t * 256 + d)"
proof (cases "d = 256")
  case True
  have "(t * 256 + 256) mod 2 ^ 32 = ((t + 1) * 256) mod (2 ^ 24 * 256)"
    by (simp only: distrib_right) simp
  then show ?thesis using True by (simp only: unat_Generate mult_mod_left [symmetric] refl if_True)
next
  case False
  with assms have "d < 256" by (simp add: draw_ok_def)
  with assms have "t * 256 + d < 2 ^ 32" by simp
  with False show ?thesis by (simp add: unat_Generate)
qed

text \<open>
  Identifiers and time. Within one window of \<open>2 ^ 24\<close> seconds, two identifiers whose draws
  are below 256 are equal only if second and draw are equal; the extra value 256 that the
  distribution also yields is exactly the first identifier of the next second.
\<close>

theorem Generate_unique_up_to_256:
  assumes "t < 2 ^ 24" and "t' < 2 ^ 24" and "d < 256" and "d' < 256"
  shows "(Generate t d = Generate t' d' \<longleftrightarrow> t = t' \<and> d = d')
    \<and> Generate t 256 = Generate (t + 1) 0"
proof -
  have v: "unat (Generate t d) = t * 256 + d" "unat (Generate t' d') = t' * 256 + d'"
    using assms Generate_value [of t d] Generate_value [of t' d'] by (auto simp: draw_ok_def)
  have split: "(a * 256 + x) div 256 = a \<and> (a * 256 + x) mod 256 = x" if "x < 256" for a x :: nat
    using that by simp
  have "Generate t d = Generate t' d' \<longleftrightarrow> t = t' \<and> d = d'"
    using v split [OF assms(3), of t] split [OF assms(4), of t'] by metis
  moreover have "Generate t 256 = Generate (t + 1) 0"
    by (simp add: Generate_def algebra_simps)
  ultimately show ?thesis by blast
qed

theorem Generate_unique_up_to_256_witness:
  "(Generate 1000 7 = Generate 1000 8 \<longleftrightarrow> (1000::nat) = 1000 \<and> (7::nat) = 8)
    \<and> Generate 1000 256 = Generate (1000 + 1) 0"
  by (rule Generate_unique_up_to_256) simp_all

end
