(* ===== verification/Blade_Object.thy ===== *)
theory Blade_Object
  imports Blade_Common
begin

text \<open>
  blade/blade_object.h and blade/blade_object.cc: the message object, its typed fields, its
  constructors for the seven message types, iteration, and the size bookkeeping of the header.
  (\<^verbatim>\<open>BladeObject::Dsl\<close> is in the theory \<open>Blade_Dsl\<close>.)

  The class keeps one map from names to types and one map per type. The abstract view of an object
  is the finite map \<open>field_map\<close> from names to tagged values; every operation is shown to refine
  the obvious operation on it.
\<close>

section \<open>State\<close>

datatype field_value =
    VByte blade_byte | VI32 i32 | VI64 i64 | VF64 f64 | VString string

fun field_type_of :: "field_value \<Rightarrow> field_type" where
  "field_type_of (VByte _) = FT_Byte"
| "field_type_of (VI32 _) = FT_I32"
| "field_type_of (VI64 _) = FT_I64"
| "field_type_of (VF64 _) = FT_F64"
| "field_type_of (VString _) = FT_String"

record blade_object =
  bo_header :: raw_blade_header
  bo_service_name :: string
  bo_name :: "field_type storage"
  member_byte :: "blade_byte storage"
  member_i32 :: "i32 storage"
  member_i64 :: "i64 storage"
  member_f64 :: "f64 storage"
  member_string :: "string storage"

definition new_object :: blade_object where \<comment> \<open>\<^verbatim>\<open>std::make_unique<BladeObject>()\<close>\<close>
  "new_object = \<lparr>bo_header = default_header, bo_service_name = '''', bo_name = [], member_byte = [],
     member_i32 = [], member_i64 = [], member_f64 = [], member_string = []\<rparr>"

section \<open>Fields\<close>

definition GetFieldType :: "blade_object \<Rightarrow> string \<Rightarrow> field_type" where
  "GetFieldType self name =
     (case map_of (bo_name self) name of Some t \<Rightarrow> t | None \<Rightarrow> FT_None)"

definition Contains :: "blade_object \<Rightarrow> string \<Rightarrow> bool" where
  "Contains self name = (map_of (bo_name self) name \<noteq> None)"

definition HasService :: "blade_object \<Rightarrow> bool" where
  "HasService self = (\<not> Contains self kNoService)"

definition AddByte :: "string \<Rightarrow> blade_byte \<Rightarrow> blade_object \<Rightarrow> bool \<times> blade_object" where
  "AddByte key val self =
     (if Contains self key then (False, self)
      else (True, self\<lparr>bo_name := kv_emplace key FT_Byte (bo_name self),
                       member_byte := kv_emplace key val (member_byte self)\<rparr>))"

definition AddI32 :: "string \<Rightarrow> i32 \<Rightarrow> blade_object \<Rightarrow> bool \<times> blade_object" where
  "AddI32 key val self =
     (if Contains self key then (False, self)
      else (True, self\<lparr>bo_name := kv_emplace key FT_I32 (bo_name self),
                       member_i32 := kv_emplace key val (member_i32 self)\<rparr>))"

definition AddI64 :: "string \<Rightarrow> i64 \<Rightarrow> blade_object \<Rightarrow> bool \<times> blade_object" where
  "AddI64 key val self =
     (if Contains self key then (False, self)
      else (True, self\<lparr>bo_name := kv_emplace key FT_I64 (bo_name self),
                       member_i64 := kv_emplace key val (member_i64 self)\<rparr>))"

definition AddF64 :: "string \<Rightarrow> f64 \<Rightarrow> blade_object \<Rightarrow> bool \<times> blade_object" where
  "AddF64 key val self =
     (if Contains self key then (False, self)
      else (True, self\<lparr>bo_name := kv_emplace key FT_F64 (bo_name self),
                       member_f64 := kv_emplace key val (member_f64 self)\<rparr>))"

definition AddString :: "string \<Rightarrow> string \<Rightarrow> blade_object \<Rightarrow> bool \<times> blade_object" where
  "AddString key val self =
     (if Contains self key then (False, self)
      else (True, self\<lparr>bo_name := kv_emplace key FT_String (bo_name self),
                       member_string := kv_emplace key val (member_string self)\<rparr>))"

definition RemoveField :: "string \<Rightarrow> blade_object \<Rightarrow> (bool \<times> blade_object) result" where
  "RemoveField key self =
     (if \<not> Contains self key then Inr (False, self)
      else and_then
        (case GetFieldType self key of
           FT_Byte \<Rightarrow> Inr (self\<lparr>member_byte := kv_erase key (member_byte self)\<rparr>)
         | FT_I32 \<Rightarrow> Inr (self\<lparr>member_i32 := kv_erase key (member_i32 self)\<rparr>)
         | FT_I64 \<Rightarrow> Inr (self\<lparr>member_i64 := kv_erase key (member_i64 self)\<rparr>)
         | FT_F64 \<Rightarrow> Inr (self\<lparr>member_f64 := kv_erase key (member_f64 self)\<rparr>)
         | FT_String \<Rightarrow> Inr (self\<lparr>member_string := kv_erase key (member_string self)\<rparr>)
         | _ \<Rightarrow> Inl UnreachableCode)
        (\<lambda>self. Inr (True, self\<lparr>bo_name := kv_erase key (bo_name self)\<rparr>)))"

definition GetString :: "blade_object \<Rightarrow> string \<Rightarrow> string result" where
  "GetString self key =
     (if GetFieldType self key \<noteq> FT_String then Inl NoSuchFieldException
      else kv_at (member_string self) key)"

definition GetByte :: "blade_object \<Rightarrow> string \<Rightarrow> blade_byte result" where
  "GetByte self key =
     (if GetFieldType self key \<noteq> FT_Byte then Inl NoSuchFieldException
      else kv_at (member_byte self) key)"

definition GetI32 :: "blade_object \<Rightarrow> string \<Rightarrow> i32 result" where
  "GetI32 self key =
     (if GetFieldType self key \<noteq> FT_I32 then Inl NoSuchFieldException
      else kv_at (member_i32 self) key)"

definition GetI64 :: "blade_object \<Rightarrow> string \<Rightarrow> i64 result" where
  "GetI64 self key =
     (if GetFieldType self key \<noteq> FT_I64 then Inl NoSuchFieldException
      else kv_at (member_i64 self) key)"

definition GetF64 :: "blade_object \<Rightarrow> string \<Rightarrow> f64 result" where
  "GetF64 self key =
     (if GetFieldType self key \<noteq> FT_F64 then Inl NoSuchFieldException
      else kv_at (member_f64 self) key)"

section \<open>Header accessors\<close>

definition GetId :: "blade_object \<Rightarrow> u32" where "GetId self = hdr_id (bo_header self)"
definition GetTraceId :: "blade_object \<Rightarrow> u32" where "GetTraceId self = hdr_trace_id (bo_header self)"
definition GetType :: "blade_object \<Rightarrow> u32" where "GetType self = hdr_type (bo_header self)"
definition GetPayloadLength :: "blade_object \<Rightarrow> u32" where
  "GetPayloadLength self = payload_length (bo_header self)"
definition GetContentOffset :: "blade_object \<Rightarrow> u32" where
  "GetContentOffset self = content_offset (bo_header self)"
definition GetServiceName :: "blade_object \<Rightarrow> string" where "GetServiceName self = bo_service_name self"

definition SetId :: "u32 \<Rightarrow> blade_object \<Rightarrow> blade_object" where
  "SetId i self = self\<lparr>bo_header := (bo_header self)\<lparr>hdr_id := i\<rparr>\<rparr>"
definition SetTraceId :: "u32 \<Rightarrow> blade_object \<Rightarrow> blade_object" where
  "SetTraceId i self = self\<lparr>bo_header := (bo_header self)\<lparr>hdr_trace_id := i\<rparr>\<rparr>"
definition SetType :: "u32 \<Rightarrow> blade_object \<Rightarrow> blade_object" where
  "SetType t self = self\<lparr>bo_header := (bo_header self)\<lparr>hdr_type := t\<rparr>\<rparr>"
definition SetServiceName :: "string \<Rightarrow> blade_object \<Rightarrow> blade_object" where
  "SetServiceName s self = self\<lparr>bo_service_name := s\<rparr>"
definition SetPayloadLength :: "u32 \<Rightarrow> blade_object \<Rightarrow> blade_object" where
  "SetPayloadLength n self = self\<lparr>bo_header := (bo_header self)\<lparr>payload_length := n\<rparr>\<rparr>"
definition SetContentOffset :: "u32 \<Rightarrow> blade_object \<Rightarrow> blade_object" where
  "SetContentOffset n self = self\<lparr>bo_header := (bo_header self)\<lparr>content_offset := n\<rparr>\<rparr>"
definition SetRawHeader :: "raw_blade_header \<Rightarrow> blade_object \<Rightarrow> blade_object" where
  "SetRawHeader h self = self\<lparr>bo_header := h\<rparr>"

definition Clone :: "blade_object \<Rightarrow> blade_object" where "Clone self = self"

lemmas accessor_defs = GetId_def GetTraceId_def GetType_def GetPayloadLength_def
  GetContentOffset_def GetServiceName_def SetId_def SetTraceId_def SetType_def SetServiceName_def
  SetPayloadLength_def SetContentOffset_def SetRawHeader_def Clone_def

section \<open>Constructors of messages\<close>

text \<open>
  \<open>gid\<close> is the value returned by \<^verbatim>\<open>id::Generate()\<close>. The overloads that take a trace id have
  the suffix \<open>_traced\<close>.
\<close>

definition NewRequest :: "u32 \<Rightarrow> string \<Rightarrow> string \<Rightarrow> blade_object" where
  "NewRequest gid service_name call_name =
     (let ret = new_object;
          ret = SetType kBTRequest ret;
          ret = SetServiceName service_name ret;
          ret = snd (AddString kRequestService call_name ret);
          ret = SetId gid ret
      in SetTraceId (GetTraceId ret) ret)"

definition NewRequest_traced :: "u32 \<Rightarrow> string \<Rightarrow> u32 \<Rightarrow> string \<Rightarrow> blade_object" where
  "NewRequest_traced gid service_name trace call_name =
     SetTraceId trace (NewRequest gid service_name call_name)"

definition NewResponse :: "u32 \<Rightarrow> string \<Rightarrow> string \<Rightarrow> blade_object" where
  "NewResponse gid service_name call_name =
     (let ret = new_object;
          ret = SetType kBTResponse ret;
          ret = SetServiceName service_name ret;
          ret = snd (AddString kResponseService call_name ret)
      in SetId gid ret)"

definition NewResponse_traced :: "u32 \<Rightarrow> string \<Rightarrow> u32 \<Rightarrow> string \<Rightarrow> blade_object" where
  "NewResponse_traced gid service_name trace call_name =
     SetTraceId trace (NewResponse gid service_name call_name)"

definition NewRegister :: "u32 \<Rightarrow> string \<Rightarrow> string \<Rightarrow> port \<Rightarrow> blade_object" where
  "NewRegister gid service_name ip prt =
     (let ret = new_object;
          ret = SetType kBTRegister ret;
          ret = SetId gid ret;
          ret = SetServiceName service_name ret;
          ret = snd (AddString kRegisterIp ip ret);
          ret = snd (AddI32 kRegisterPort (ucast prt) ret)
      in snd (AddString kRequestService kIceRegisterServiceName ret))"

definition NewRegister_traced :: "u32 \<Rightarrow> string \<Rightarrow> u32 \<Rightarrow> string \<Rightarrow> port \<Rightarrow> blade_object" where
  "NewRegister_traced gid service_name trace ip prt =
     SetTraceId trace (NewRegister gid service_name ip prt)"

definition NewDeregister :: "u32 \<Rightarrow> string \<Rightarrow> string \<Rightarrow> blade_object" where
  "NewDeregister gid service_name ip =
     (let ret = new_object;
          ret = SetType kBTDeregister ret;
          ret = SetId gid ret;
          ret = SetServiceName service_name ret;
          ret = snd (AddString kRegisterIp ip ret)
      in snd (AddString kRequestService kIceRegisterServiceName ret))"

definition NewDeregister_traced :: "u32 \<Rightarrow> string \<Rightarrow> u32 \<Rightarrow> string \<Rightarrow> blade_object" where
  "NewDeregister_traced gid service_name trace ip =
     SetTraceId trace (NewDeregister gid service_name ip)"

definition NewKeepAlive :: "u32 \<Rightarrow> string \<Rightarrow> blade_object" where
  "NewKeepAlive gid service_name =
     (let ret = new_object;
          ret = SetType kBTKeepAlive ret;
          ret = SetId gid ret
      in SetServiceName service_name ret)"

definition NewKeepAlive_traced :: "u32 \<Rightarrow> string \<Rightarrow> u32 \<Rightarrow> blade_object" where
  "NewKeepAlive_traced gid service_name trace = SetTraceId trace (NewKeepAlive gid service_name)"

definition NewQuery :: "u32 \<Rightarrow> string \<Rightarrow> string \<Rightarrow> blade_object" where
  "NewQuery gid service_name query_name =
     (let ret = new_object;
          ret = SetType kBTQuery ret;
          ret = SetId gid ret;
          ret = SetServiceName service_name ret;
          ret = snd (AddString kRequestService kIceServiceName ret)
      in snd (AddString kQuery query_name ret))"

definition NewQuery_traced :: "u32 \<Rightarrow> string \<Rightarrow> u32 \<Rightarrow> string \<Rightarrow> blade_object" where
  "NewQuery_traced gid service_name trace query_name =
     SetTraceId trace (NewQuery gid service_name query_name)"

definition NewAnswer_none :: "u32 \<Rightarrow> string \<Rightarrow> blade_object" where
  "NewAnswer_none gid service_name =
     (let ret = new_object;
          ret = SetType kBTAnswer ret;
          ret = SetId gid ret;
          ret = SetServiceName service_name ret
      in snd (AddByte kNoAnswer 0 ret))"

definition NewAnswer_none_traced :: "u32 \<Rightarrow> string \<Rightarrow> u32 \<Rightarrow> blade_object" where
  "NewAnswer_none_traced gid service_name trace =
     SetTraceId trace (NewAnswer_none gid service_name)"

definition NewAnswer :: "u32 \<Rightarrow> string \<Rightarrow> string \<Rightarrow> string \<Rightarrow> blade_object" where
  "NewAnswer gid service_name query_name ip =
     (let ret = new_object;
          ret = SetType kBTAnswer ret;
          ret = SetId gid ret;
          ret = SetServiceName service_name ret
      in snd (AddString kAnswerIp ip ret))"

definition NewAnswer_traced :: "u32 \<Rightarrow> string \<Rightarrow> u32 \<Rightarrow> string \<Rightarrow> string \<Rightarrow> blade_object" where
  "NewAnswer_traced gid service_name trace query_name ip =
     SetTraceId trace (NewAnswer gid service_name query_name ip)"

lemmas traced_defs = NewRequest_traced_def NewResponse_traced_def NewRegister_traced_def
  NewDeregister_traced_def NewKeepAlive_traced_def NewQuery_traced_def NewAnswer_none_traced_def
  NewAnswer_traced_def

lemmas message_defs = NewRequest_def NewResponse_def NewRegister_def NewDeregister_def
  NewKeepAlive_def NewQuery_def NewAnswer_none_def NewAnswer_def traced_defs Let_def

section \<open>Iteration\<close>

text \<open>
  The callback receives the name and the typed value (the \<^verbatim>\<open>FieldType\<close> and the \<^verbatim>\<open>void *\<close> of the
  source) and returns an \<^verbatim>\<open>int\<close>; the state it captures by reference is threaded through, and an
  exception it throws leaves the iteration. A callback result of 0 stops the iteration over the
  current map only; the maps of the following types are still visited.
\<close>

type_synonym 's iterate_func = "'s \<Rightarrow> string \<Rightarrow> field_value \<Rightarrow> ('s \<times> i32) result"

fun iter_type :: "'s iterate_func \<Rightarrow> (string \<times> field_value) list \<Rightarrow> 's \<times> i32 \<Rightarrow> ('s \<times> i32) result"
where
  "iter_type f [] (s, ret) = Inr (s, ret)"
| "iter_type f ((name, v) # members) (s, ret) =
     and_then (f s name v) (\<lambda>(s', this_ret).
       if this_ret = 0 then Inr (s', ret) else iter_type f members (s', ret + this_ret))"

definition byte_fields :: "blade_object \<Rightarrow> (string \<times> field_value) list" where
  "byte_fields self = map (\<lambda>(k, v). (k, VByte v)) (member_byte self)"
definition i32_fields :: "blade_object \<Rightarrow> (string \<times> field_value) list" where
  "i32_fields self = map (\<lambda>(k, v). (k, VI32 v)) (member_i32 self)"
definition i64_fields :: "blade_object \<Rightarrow> (string \<times> field_value) list" where
  "i64_fields self = map (\<lambda>(k, v). (k, VI64 v)) (member_i64 self)"
definition f64_fields :: "blade_object \<Rightarrow> (string \<times> field_value) list" where
  "f64_fields self = map (\<lambda>(k, v). (k, VF64 v)) (member_f64 self)"
definition string_fields :: "blade_object \<Rightarrow> (string \<times> field_value) list" where
  "string_fields self = map (\<lambda>(k, v). (k, VString v)) (member_string self)"

lemmas typed_fields_defs = byte_fields_def i32_fields_def i64_fields_def f64_fields_def
  string_fields_def

definition Iterate :: "'s iterate_func \<Rightarrow> blade_object \<Rightarrow> 's \<Rightarrow> ('s \<times> i32) result" where
  "Iterate f self s =
     and_then (iter_type f (byte_fields self) (s, 0)) (\<lambda>r.
     and_then (iter_type f (i32_fields self) r) (\<lambda>r.
     and_then (iter_type f (i64_fields self) r) (\<lambda>r.
     and_then (iter_type f (f64_fields self) r) (\<lambda>r.
     iter_type f (string_fields self) r))))"

section \<open>Size bookkeeping\<close>

text \<open>The callback of \<^verbatim>\<open>UpdateHeaderField\<close>: the space of one field, as size\_t, returned as int.\<close>

fun field_value_size :: "field_value \<Rightarrow> nat" where
  "field_value_size (VByte _) = 1"
| "field_value_size (VI32 _) = 4"
| "field_value_size (VI64 _) = 8"
| "field_value_size (VF64 _) = 8"
| "field_value_size (VString s) = 4 + length s"

definition field_space :: "string \<Rightarrow> field_value \<Rightarrow> nat" where
  "field_space name v = (2 * 2 + 4 + length name) + field_value_size v"

definition UpdateHeaderField :: "blade_object \<Rightarrow> blade_object" where
  "UpdateHeaderField self =
     (case Iterate (\<lambda>(_::unit) name v. Inr ((), word_of_nat (field_space name v))) self () of
        Inl _ \<Rightarrow> self
      | Inr (_, len) \<Rightarrow>
          self\<lparr>bo_header := (bo_header self)\<lparr>
            payload_length := len + 4 + word_of_nat (length (bo_service_name self)),
            content_offset := word_of_nat (sizeof_header + 4 + length (bo_service_name self))\<rparr>\<rparr>)"

definition GetEncodedSize :: "blade_object \<Rightarrow> blade_object \<times> nat" where
  "GetEncodedSize self =
     (let self = UpdateHeaderField self
      in (self, sizeof_header + unat (payload_length (bo_header self))))"

section \<open>Well-formed objects and their abstract view\<close>

definition members :: "blade_object \<Rightarrow> (string \<times> field_value) list" where
  "members self = byte_fields self @ i32_fields self @ i64_fields self @ f64_fields self
     @ string_fields self"

definition obj_wf :: "blade_object \<Rightarrow> bool" where
  "obj_wf self \<longleftrightarrow> kv_wf (bo_name self) \<and> kv_wf (members self)
     \<and> set (bo_name self) = (\<lambda>(k, v). (k, field_type_of v)) ` set (members self)"

definition field_map :: "blade_object \<Rightarrow> string \<Rightarrow> field_value option" where
  "field_map self = map_of (members self)"

definition body_size :: "blade_object \<Rightarrow> nat" where
  "body_size self = 4 + length (bo_service_name self)
     + (\<Sum>(k, v) \<leftarrow> members self. field_space k v)"

definition obj_fits :: "blade_object \<Rightarrow> bool" where \<comment> \<open>no \<^verbatim>\<open>int\<close> overflow in the bookkeeping\<close>
  "obj_fits self \<longleftrightarrow> body_size self + sizeof_header < 2 ^ 31"

definition obj_equiv :: "blade_object \<Rightarrow> blade_object \<Rightarrow> bool" where
  \<comment> \<open>equal but for the iteration order of the maps\<close>
  "obj_equiv a b \<longleftrightarrow> bo_header a = bo_header b \<and> bo_service_name a = bo_service_name b
     \<and> mset (members a) = mset (members b)"

section \<open>Laws of the fields\<close>

lemma map_of_tagged: "map_of (map (\<lambda>(k, v). (k, tag v)) m) k = map_option tag (map_of m k)"
  by (induction m) auto

lemma fields_lookup:
  "field_map self k =
     (case map_of (member_byte self) k of Some v \<Rightarrow> Some (VByte v) | None \<Rightarrow>
      (case map_of (member_i32 self) k of Some v \<Rightarrow> Some (VI32 v) | None \<Rightarrow>
      (case map_of (member_i64 self) k of Some v \<Rightarrow> Some (VI64 v) | None \<Rightarrow>
      (case map_of (member_f64 self) k of Some v \<Rightarrow> Some (VF64 v) | None \<Rightarrow>
      map_option VString (map_of (member_string self) k)))))"
  by (auto simp: field_map_def members_def typed_fields_defs map_add_def map_of_tagged
      split: option.splits)

lemma name_lookup:
  assumes "obj_wf self"
  shows "map_of (bo_name self) k = map_option field_type_of (field_map self k)"
proof (cases "field_map self k")
  case None
  then have "k \<notin> fst ` set (bo_name self)"
    using assms by (force simp: obj_wf_def field_map_def map_of_None_iff_fst)
  with None show ?thesis by (simp add: map_of_None_iff_fst)
next
  case (Some v)
  then have "(k, field_type_of v) \<in> set (bo_name self)"
    using assms by (force simp: obj_wf_def field_map_def dest: map_of_SomeD)
  with Some assms show ?thesis by (simp add: obj_wf_def kv_wf_map_of)
qed

lemma Contains_iff: "obj_wf self \<Longrightarrow> Contains self k \<longleftrightarrow> field_map self k \<noteq> None"
  by (simp add: Contains_def name_lookup)

lemma GetFieldType_fields:
  "obj_wf self \<Longrightarrow> GetFieldType self k =
     (case field_map self k of None \<Rightarrow> FT_None | Some v \<Rightarrow> field_type_of v)"
  by (simp add: GetFieldType_def name_lookup split: option.splits)

lemma Contains_GetFieldType: "obj_wf self \<Longrightarrow> GetFieldType self k = FT_None \<longleftrightarrow> \<not> Contains self k"
  by (cases "field_map self k"; cases "the (field_map self k)")
    (simp_all add: GetFieldType_fields Contains_iff)

lemma new_object_wf [simp]: "obj_wf new_object"
  by (simp add: obj_wf_def new_object_def members_def typed_fields_defs)

lemma fields_new_object [simp]: "field_map new_object = Map.empty"
  by (simp add: field_map_def new_object_def members_def typed_fields_defs)

text \<open>What the five \<^verbatim>\<open>Add\<close> operations have in common: one new entry in both maps.\<close>

lemma obj_wf_added:
  assumes wf: "obj_wf self" and new: "\<not> Contains self k"
    and names: "bo_name self' = kv_emplace k (field_type_of v) (bo_name self)"
    and mem: "mset (members self') = add_mset (k, v) (mset (members self))"
  shows "obj_wf self'" and "field_map self' = (field_map self)(k \<mapsto> v)"
proof -
  have none: "map_of (bo_name self) k = None" "map_of (members self) k = None"
    using new name_lookup [OF wf, of k] by (simp_all add: Contains_def field_map_def)
  have "set (members self') = insert (k, v) (set (members self))"
    using mem by (metis set_mset_add_mset_insert set_mset_mset)
  moreover have "set (bo_name self') = insert (k, field_type_of v) (set (bo_name self))"
    using names none(1) by (simp add: kv_emplace_def)
  ultimately show "obj_wf self'"
    using wf names none kv_wf_mset_add(1) [OF _ none(2) mem]
    by (auto simp: obj_wf_def)
  show "field_map self' = (field_map self)(k \<mapsto> v)"
    using wf none kv_wf_mset_add(2) [OF _ none(2) mem] by (simp add: obj_wf_def field_map_def)
qed

lemma absent_everywhere:
  assumes "obj_wf self" and "\<not> Contains self k"
  shows "map_of (member_byte self) k = None" "map_of (member_i32 self) k = None"
    "map_of (member_i64 self) k = None" "map_of (member_f64 self) k = None"
    "map_of (member_string self) k = None"
  using assms Contains_iff [of self k] fields_lookup [of self k]
  by (auto split: option.splits)

lemmas add_defs = AddByte_def AddI32_def AddI64_def AddF64_def AddString_def

lemma members_added:
  assumes "obj_wf self" and "\<not> Contains self k"
  shows "mset (members (snd (AddByte k b self))) = add_mset (k, VByte b) (mset (members self))"
    and "mset (members (snd (AddI32 k i self))) = add_mset (k, VI32 i) (mset (members self))"
    and "mset (members (snd (AddI64 k l self))) = add_mset (k, VI64 l) (mset (members self))"
    and "mset (members (snd (AddF64 k f self))) = add_mset (k, VF64 f) (mset (members self))"
    and "mset (members (snd (AddString k s self))) = add_mset (k, VString s) (mset (members self))"
  using assms absent_everywhere [OF assms]
  by (simp_all add: add_defs members_def typed_fields_defs kv_emplace_def)

text \<open>
  The contract that the five typed accessors share. The lemmas of the locale are the laws a
  client of \<^verbatim>\<open>BladeObject\<close> uses.
\<close>

locale typed_field =
  fixes ty :: field_type
    and inj :: "'v \<Rightarrow> field_value"
    and member :: "blade_object \<Rightarrow> 'v storage"
    and add :: "string \<Rightarrow> 'v \<Rightarrow> blade_object \<Rightarrow> bool \<times> blade_object"
    and get :: "blade_object \<Rightarrow> string \<Rightarrow> 'v result"
  assumes inj_eq: "inj v = inj w \<longleftrightarrow> v = w"
    and type_iff: "field_type_of x = ty \<longleftrightarrow> (\<exists>v. x = inj v)"
    and type_proper: "ty \<noteq> FT_None"
    and member_iff: "(k, inj v) \<in> set (members self) \<longleftrightarrow> (k, v) \<in> set (member self)"
    and add_refused: "Contains self k \<Longrightarrow> add k v self = (False, self)"
    and add_flag: "\<not> Contains self k \<Longrightarrow> fst (add k v self)"
    and add_names: "\<not> Contains self k \<Longrightarrow>
      bo_name (snd (add k v self)) = kv_emplace k (field_type_of (inj v)) (bo_name self)"
    and add_members: "obj_wf self \<Longrightarrow> \<not> Contains self k \<Longrightarrow>
      mset (members (snd (add k v self))) = add_mset (k, inj v) (mset (members self))"
    and get_eq: "get self k =
      (if GetFieldType self k \<noteq> ty then Inl NoSuchFieldException else kv_at (member self) k)"
begin

lemma fst_add: "fst (add k v self) \<longleftrightarrow> \<not> Contains self k"
  using add_refused add_flag by (cases "Contains self k") auto

lemma wf_add: "obj_wf self \<Longrightarrow> obj_wf (snd (add k v self))"
  using add_refused obj_wf_added(1) [OF _ _ add_names add_members]
  by (cases "Contains self k") auto

lemma fields_add:
  "obj_wf self \<Longrightarrow> field_map (snd (add k v self)) =
     (if field_map self k = None then (field_map self)(k \<mapsto> inj v) else field_map self)"
  using add_refused obj_wf_added(2) [OF _ _ add_names add_members]
  by (cases "Contains self k") (auto simp: Contains_iff)

lemma add_refines:
  assumes "obj_wf self"
  shows "\<exists>self'. add k v self = (field_map self k = None, self') \<and> obj_wf self'
    \<and> field_map self' = (if field_map self k = None then (field_map self)(k \<mapsto> inj v) else field_map self)"
  using assms wf_add [OF assms, of k v] fields_add [OF assms, of k v] fst_add [of k v self]
  by (cases "add k v self") (simp add: Contains_iff)

lemma get_Inr_iff:
  assumes wf: "obj_wf self"
  shows "get self k = Inr v \<longleftrightarrow> field_map self k = Some (inj v)"
proof -
  have kv: "map_of (members self) k = Some x \<longleftrightarrow> (k, x) \<in> set (members self)" for x
    using wf by (simp add: obj_wf_def kv_wf_def)
  have mem: "map_of (member self) k = Some w" if "(k, inj w) \<in> set (members self)" for w
  proof -
    from that have "(k, w) \<in> set (member self)" by (simp add: member_iff)
    then obtain w' where w': "map_of (member self) k = Some w'" by (metis weak_map_of_SomeI)
    then have "(k, inj w') \<in> set (members self)" by (simp add: member_iff map_of_SomeD)
    with that kv have "inj w' = inj w" by (metis option.inject)
    with w' show ?thesis by (simp add: inj_eq)
  qed
  show ?thesis
  proof
    assume "get self k = Inr v"
    then have "(k, v) \<in> set (member self)"
      by (auto simp: get_eq kv_at_Inr_iff dest: map_of_SomeD split: if_splits)
    then show "field_map self k = Some (inj v)" by (simp add: field_map_def kv member_iff)
  next
    assume f: "field_map self k = Some (inj v)"
    then have "GetFieldType self k = ty" using wf type_iff by (auto simp: GetFieldType_fields)
    moreover have "map_of (member self) k = Some v" using f by (simp add: mem field_map_def kv)
    ultimately show "get self k = Inr v" by (simp add: get_eq kv_at_Inr_iff)
  qed
qed

lemma get_Inl_iff:
  assumes wf: "obj_wf self"
  shows "get self k = Inl e \<longleftrightarrow> e = NoSuchFieldException \<and> (\<forall>v. field_map self k \<noteq> Some (inj v))"
proof (cases "\<exists>v. field_map self k = Some (inj v)")
  case True
  then obtain v where "get self k = Inr v" using get_Inr_iff [OF wf] by blast
  with True show ?thesis by auto
next
  case False
  then have "GetFieldType self k \<noteq> ty"
    using wf type_iff type_proper by (auto simp: GetFieldType_fields split: option.splits)
  with False show ?thesis by (auto simp: get_eq)
qed

lemma get_add_same: "obj_wf self \<Longrightarrow> \<not> Contains self k \<Longrightarrow> get (snd (add k v self)) k = Inr v"
  by (simp add: get_Inr_iff wf_add fields_add Contains_iff)

lemma get_add_other:
  assumes "obj_wf self" and "k' \<noteq> k"
  shows "get (snd (add k v self)) k' = get self k'"
proof (cases "get self k'")
  case (Inl e)
  moreover from Inl assms have "get (snd (add k v self)) k' = Inl e"
    by (simp add: get_Inl_iff wf_add fields_add)
  ultimately show ?thesis by simp
next
  case (Inr w)
  moreover from Inr assms have "get (snd (add k v self)) k' = Inr w"
    by (simp add: get_Inr_iff wf_add fields_add)
  ultimately show ?thesis by simp
qed

end

lemma tagged_type_iff:
  "field_type_of x = FT_Byte \<longleftrightarrow> (\<exists>v. x = VByte v)" "field_type_of x = FT_I32 \<longleftrightarrow> (\<exists>v. x = VI32 v)"
  "field_type_of x = FT_I64 \<longleftrightarrow> (\<exists>v. x = VI64 v)" "field_type_of x = FT_F64 \<longleftrightarrow> (\<exists>v. x = VF64 v)"
  "field_type_of x = FT_String \<longleftrightarrow> (\<exists>v. x = VString v)"
  by (cases x; simp)+

lemma tagged_member_iff:
  "(k, VByte b) \<in> set (members self) \<longleftrightarrow> (k, b) \<in> set (member_byte self)"
  "(k, VI32 i) \<in> set (members self) \<longleftrightarrow> (k, i) \<in> set (member_i32 self)"
  "(k, VI64 l) \<in> set (members self) \<longleftrightarrow> (k, l) \<in> set (member_i64 self)"
  "(k, VF64 f) \<in> set (members self) \<longleftrightarrow> (k, f) \<in> set (member_f64 self)"
  "(k, VString s) \<in> set (members self) \<longleftrightarrow> (k, s) \<in> set (member_string self)"
  by (force simp: members_def typed_fields_defs)+

interpretation byte_field: typed_field FT_Byte VByte member_byte AddByte GetByte
  by unfold_locales
    (simp_all add: tagged_type_iff tagged_member_iff members_added GetByte_def, simp_all add: AddByte_def)

interpretation i32_field: typed_field FT_I32 VI32 member_i32 AddI32 GetI32
  by unfold_locales
    (simp_all add: tagged_type_iff tagged_member_iff members_added GetI32_def, simp_all add: AddI32_def)

interpretation i64_field: typed_field FT_I64 VI64 member_i64 AddI64 GetI64
  by unfold_locales
    (simp_all add: tagged_type_iff tagged_member_iff members_added GetI64_def, simp_all add: AddI64_def)

interpretation f64_field: typed_field FT_F64 VF64 member_f64 AddF64 GetF64
  by unfold_locales
    (simp_all add: tagged_type_iff tagged_member_iff members_added GetF64_def, simp_all add: AddF64_def)

interpretation string_field: typed_field FT_String VString member_string AddString GetString
  by unfold_locales
    (simp_all add: tagged_type_iff tagged_member_iff members_added GetString_def,
      simp_all add: AddString_def)

section \<open>Frame laws\<close>

named_theorems obj_frame \<open>what the header accessors leave alone\<close>

lemma members_setters [obj_frame, simp]:
  "members (SetId i self) = members self" "members (SetTraceId i self) = members self"
  "members (SetType i self) = members self" "members (SetServiceName n self) = members self"
  "members (SetPayloadLength i self) = members self" "members (SetContentOffset i self) = members self"
  "members (SetRawHeader h self) = members self" "members (Clone self) = members self"
  by (simp_all add: members_def typed_fields_defs accessor_defs)

lemma names_setters [obj_frame, simp]:
  "bo_name (SetId i self) = bo_name self" "bo_name (SetTraceId i self) = bo_name self"
  "bo_name (SetType i self) = bo_name self" "bo_name (SetServiceName n self) = bo_name self"
  "bo_name (SetPayloadLength i self) = bo_name self" "bo_name (SetContentOffset i self) = bo_name self"
  "bo_name (SetRawHeader h self) = bo_name self" "bo_name (Clone self) = bo_name self"
  by (simp_all add: accessor_defs)

lemma fields_setters [obj_frame, simp]:
  "field_map (SetId i self) = field_map self" "field_map (SetTraceId i self) = field_map self"
  "field_map (SetType i self) = field_map self" "field_map (SetServiceName n self) = field_map self"
  "field_map (SetPayloadLength i self) = field_map self" "field_map (SetContentOffset i self) = field_map self"
  "field_map (SetRawHeader h self) = field_map self" "field_map (Clone self) = field_map self"
  by (simp_all add: field_map_def)

lemma wf_setters [obj_frame, simp]:
  "obj_wf (SetId i self) = obj_wf self" "obj_wf (SetTraceId i self) = obj_wf self"
  "obj_wf (SetType i self) = obj_wf self" "obj_wf (SetServiceName n self) = obj_wf self"
  "obj_wf (SetPayloadLength i self) = obj_wf self" "obj_wf (SetContentOffset i self) = obj_wf self"
  "obj_wf (SetRawHeader h self) = obj_wf self" "obj_wf (Clone self) = obj_wf self"
  by (simp_all add: obj_wf_def)

lemma header_adds [obj_frame, simp]:
  "bo_header (snd (AddByte k b self)) = bo_header self" "bo_header (snd (AddI32 k i self)) = bo_header self"
  "bo_header (snd (AddI64 k l self)) = bo_header self" "bo_header (snd (AddF64 k f self)) = bo_header self"
  "bo_header (snd (AddString k s self)) = bo_header self"
  by (simp_all add: add_defs)

lemma service_name_adds [obj_frame, simp]:
  "bo_service_name (snd (AddByte k b self)) = bo_service_name self"
  "bo_service_name (snd (AddI32 k i self)) = bo_service_name self"
  "bo_service_name (snd (AddI64 k l self)) = bo_service_name self"
  "bo_service_name (snd (AddF64 k f self)) = bo_service_name self"
  "bo_service_name (snd (AddString k s self)) = bo_service_name self"
  by (simp_all add: add_defs)

lemmas wf_adds [simp] = byte_field.wf_add i32_field.wf_add i64_field.wf_add f64_field.wf_add
  string_field.wf_add

lemmas fields_adds = byte_field.fields_add i32_field.fields_add i64_field.fields_add
  f64_field.fields_add string_field.fields_add

lemmas fst_adds = byte_field.fst_add i32_field.fst_add i64_field.fst_add f64_field.fst_add
  string_field.fst_add

lemmas getter_iffs = byte_field.get_Inr_iff byte_field.get_Inl_iff i32_field.get_Inr_iff
  i32_field.get_Inl_iff i64_field.get_Inr_iff i64_field.get_Inl_iff f64_field.get_Inr_iff
  f64_field.get_Inl_iff string_field.get_Inr_iff string_field.get_Inl_iff

lemmas add_refines_all = byte_field.add_refines i32_field.add_refines i64_field.add_refines
  f64_field.add_refines string_field.add_refines

section \<open>Removal\<close>

lemma kv_erase_filter: "kv_erase k m = filter (\<lambda>(k', _). k' \<noteq> k) m"
  by (auto simp: kv_erase_def AList.delete_eq intro: filter_cong)

lemma filter_tagged:
  "filter (\<lambda>(k', _). k' \<noteq> k) (map (\<lambda>(k, v). (k, tag v)) m)
     = map (\<lambda>(k, v). (k, tag v)) (kv_erase k m)"
  by (induction m) (auto simp: kv_erase_filter)

lemma kv_erase_absent: "map_of m k = None \<Longrightarrow> kv_erase k m = m"
  by (force simp: kv_erase_filter map_of_None_iff_fst filter_id_conv)

lemma obj_wf_filtered:
  assumes wf: "obj_wf self" and names: "bo_name self' = kv_erase k (bo_name self)"
    and mem: "members self' = filter (\<lambda>(k', _). k' \<noteq> k) (members self)"
  shows "obj_wf self'" and "field_map self' = (field_map self)(k := None)"
proof -
  have m: "members self' = kv_erase k (members self)" using mem by (simp add: kv_erase_filter)
  have "kv_wf (members self')" "kv_wf (bo_name self')"
    using wf names m by (simp_all add: obj_wf_def kv.inv_erase)
  moreover have "set (bo_name self') = (\<lambda>(k, v). (k, field_type_of v)) ` set (members self')"
    using wf names mem by (force simp: obj_wf_def kv_erase_filter)
  ultimately show "obj_wf self'" by (simp add: obj_wf_def)
  show "field_map self' = (field_map self)(k := None)"
    using m by (simp add: field_map_def kv.lookup_erase)
qed

lemma fields_exclusive:
  assumes "obj_wf self" and "field_map self k = Some v"
  shows "field_type_of v \<noteq> FT_Byte \<Longrightarrow> map_of (member_byte self) k = None"
    "field_type_of v \<noteq> FT_I32 \<Longrightarrow> map_of (member_i32 self) k = None"
    "field_type_of v \<noteq> FT_I64 \<Longrightarrow> map_of (member_i64 self) k = None"
    "field_type_of v \<noteq> FT_F64 \<Longrightarrow> map_of (member_f64 self) k = None"
    "field_type_of v \<noteq> FT_String \<Longrightarrow> map_of (member_string self) k = None"
proof -
  have "w = v" if "(k, w) \<in> set (members self)" for w
    using assms that by (simp add: field_map_def obj_wf_def kv_wf_map_of)
  then show "field_type_of v \<noteq> FT_Byte \<Longrightarrow> map_of (member_byte self) k = None"
    "field_type_of v \<noteq> FT_I32 \<Longrightarrow> map_of (member_i32 self) k = None"
    "field_type_of v \<noteq> FT_I64 \<Longrightarrow> map_of (member_i64 self) k = None"
    "field_type_of v \<noteq> FT_F64 \<Longrightarrow> map_of (member_f64 self) k = None"
    "field_type_of v \<noteq> FT_String \<Longrightarrow> map_of (member_string self) k = None"
    by (metis tagged_member_iff field_type_of.simps map_of_SomeD not_None_eq)+
qed

lemma RemoveField_correct:
  assumes wf: "obj_wf self"
  shows "\<exists>self'. RemoveField k self = Inr (field_map self k \<noteq> None, self') \<and> obj_wf self'
    \<and> field_map self' = (field_map self)(k := None)
    \<and> bo_header self' = bo_header self \<and> bo_service_name self' = bo_service_name self"
proof (cases "field_map self k")
  case None
  then show ?thesis using wf by (auto simp: RemoveField_def Contains_iff fun_upd_idem)
next
  case (Some v)
  then obtain self' where r: "RemoveField k self = Inr (True, self')"
    and names: "bo_name self' = kv_erase k (bo_name self)"
    and mem: "members self' = filter (\<lambda>(k', _). k' \<noteq> k) (members self)"
    and frame: "bo_header self' = bo_header self" "bo_service_name self' = bo_service_name self"
    using wf fields_exclusive [OF wf Some]
    by (cases v) (simp_all add: RemoveField_def Contains_iff GetFieldType_fields members_def
        typed_fields_defs filter_tagged kv_erase_absent)
  from obj_wf_filtered [OF wf names mem] r frame Some show ?thesis by auto
qed

section \<open>The object refines a finite map of tagged values\<close>

datatype field_cmd = AddField string field_value | DropField string

fun field_exec :: "field_cmd \<Rightarrow> blade_object \<Rightarrow> (bool \<times> blade_object) result" where
  "field_exec (AddField k (VByte v)) self = Inr (AddByte k v self)"
| "field_exec (AddField k (VI32 v)) self = Inr (AddI32 k v self)"
| "field_exec (AddField k (VI64 v)) self = Inr (AddI64 k v self)"
| "field_exec (AddField k (VF64 v)) self = Inr (AddF64 k v self)"
| "field_exec (AddField k (VString v)) self = Inr (AddString k v self)"
| "field_exec (DropField k) self = RemoveField k self"

fun field_exec_all :: "field_cmd list \<Rightarrow> blade_object \<Rightarrow> (bool list \<times> blade_object) result" where
  "field_exec_all [] self = Inr ([], self)"
| "field_exec_all (c # cs) self =
     and_then (field_exec c self) (\<lambda>(b, self).
     and_then (field_exec_all cs self) (\<lambda>(bs, self). Inr (b # bs, self)))"

fun field_spec :: "field_cmd \<Rightarrow> (string \<Rightarrow> field_value option) \<Rightarrow> bool \<times> (string \<Rightarrow> field_value option)"
where
  "field_spec (AddField k v) m = (if m k = None then (True, m(k \<mapsto> v)) else (False, m))"
| "field_spec (DropField k) m = (m k \<noteq> None, m(k := None))"

fun field_spec_all ::
  "field_cmd list \<Rightarrow> (string \<Rightarrow> field_value option) \<Rightarrow> bool list \<times> (string \<Rightarrow> field_value option)"
where
  "field_spec_all [] m = ([], m)"
| "field_spec_all (c # cs) m =
     (let (b, m) = field_spec c m; (bs, m) = field_spec_all cs m in (b # bs, m))"

lemma field_exec_refines:
  assumes "obj_wf self"
  shows "\<exists>self'. field_exec c self = Inr (fst (field_spec c (field_map self)), self') \<and> obj_wf self'
    \<and> field_map self' = snd (field_spec c (field_map self))"
proof (cases c)
  case (AddField k v)
  have "\<exists>self'. field_exec c self = Inr (field_map self k = None, self') \<and> obj_wf self'
      \<and> field_map self' = (if field_map self k = None then (field_map self)(k \<mapsto> v) else field_map self)"
    by (cases v) (simp_all only: AddField field_exec.simps sum.inject add_refines_all [OF assms])
  with AddField show ?thesis by auto
next
  case (DropField k)
  with RemoveField_correct [OF assms, of k] show ?thesis by auto
qed

lemma field_exec_all_refines:
  "obj_wf self \<Longrightarrow> \<exists>self'. field_exec_all cs self = Inr (fst (field_spec_all cs (field_map self)), self')
    \<and> obj_wf self' \<and> field_map self' = snd (field_spec_all cs (field_map self))"
proof (induction cs arbitrary: self)
  case Nil
  then show ?case by simp
next
  case (Cons c cs)
  from field_exec_refines [OF Cons.prems, of c] obtain self1 where
    "field_exec c self = Inr (fst (field_spec c (field_map self)), self1)" "obj_wf self1"
    "field_map self1 = snd (field_spec c (field_map self))" by blast
  with Cons.IH [of self1] show ?case by (auto simp: split_beta Let_def)
qed

text \<open>
  C19. Any sequence of the typed \<^verbatim>\<open>Add\<close> operations and \<^verbatim>\<open>RemoveField\<close> on a new object runs without an
  exception, answers what the same sequence on a finite map of tagged values answers (a name is
  taken by its first \<^verbatim>\<open>Add\<close>, whatever the types), and leaves an object that is well-formed and whose
  abstract view is that map.
\<close>

theorem fields_refine_map:
  "\<exists>self. field_exec_all cs new_object = Inr (fst (field_spec_all cs Map.empty), self)
    \<and> obj_wf self \<and> field_map self = snd (field_spec_all cs Map.empty)"
  using field_exec_all_refines [OF new_object_wf, of cs] by simp

text \<open>
  On a well-formed object each typed getter returns the value of the field when the field is
  there with that type, and throws \<^verbatim>\<open>NoSuchFieldException\<close> in every other case; the \<^verbatim>\<open>at\<close> of the
  underlying map never throws.
\<close>

theorem getters_read_fields:
  assumes "obj_wf self"
  shows "GetByte self k = (case field_map self k of Some (VByte v) \<Rightarrow> Inr v | _ \<Rightarrow> Inl NoSuchFieldException)
    \<and> GetI32 self k = (case field_map self k of Some (VI32 v) \<Rightarrow> Inr v | _ \<Rightarrow> Inl NoSuchFieldException)
    \<and> GetI64 self k = (case field_map self k of Some (VI64 v) \<Rightarrow> Inr v | _ \<Rightarrow> Inl NoSuchFieldException)
    \<and> GetF64 self k = (case field_map self k of Some (VF64 v) \<Rightarrow> Inr v | _ \<Rightarrow> Inl NoSuchFieldException)
    \<and> GetString self k =
      (case field_map self k of Some (VString v) \<Rightarrow> Inr v | _ \<Rightarrow> Inl NoSuchFieldException)"
  using assms by (simp add: getter_iffs split: option.splits field_value.splits)

theorem getters_read_fields_witness:
  "obj_wf (snd (AddI32 ''n'' 7 new_object)) \<and> GetI32 (snd (AddI32 ''n'' 7 new_object)) ''n'' = Inr 7
    \<and> GetString (snd (AddI32 ''n'' 7 new_object)) ''n'' = Inl NoSuchFieldException"
  using getters_read_fields [of "snd (AddI32 ''n'' 7 new_object)" "''n''"] by (simp add: fields_adds)

section \<open>The header bookkeeping is exact\<close>

lemma iter_type_sum:
  assumes "\<And>k v. (k, v) \<in> set ms \<Longrightarrow> (word_of_nat (sz k v) :: i32) \<noteq> 0"
  shows "iter_type (\<lambda>(_::unit) k v. Inr ((), word_of_nat (sz k v))) ms ((), r)
    = Inr ((), r + word_of_nat (\<Sum>(k, v) \<leftarrow> ms. sz k v))"
  using assms
proof (induction ms arbitrary: r)
  case Nil
  then show ?case by simp
next
  case (Cons m ms)
  then show ?case by (cases m) (simp add: algebra_simps)
qed

lemma Iterate_sum:
  assumes "\<And>k v. (k, v) \<in> set (members self) \<Longrightarrow> (word_of_nat (sz k v) :: i32) \<noteq> 0"
  shows "Iterate (\<lambda>(_::unit) k v. Inr ((), word_of_nat (sz k v))) self ()
    = Inr ((), word_of_nat (\<Sum>(k, v) \<leftarrow> members self. sz k v))"
  using assms by (simp add: Iterate_def iter_type_sum members_def algebra_simps)

lemma member_space_bound:
  assumes "(k, v) \<in> set (members self)"
  shows "field_space k v \<le> body_size self"
proof -
  have "field_space k v \<le> (\<Sum>(k, v) \<leftarrow> members self. field_space k v)"
    using assms by (intro member_le_sum_list) (simp_all, force)
  then show ?thesis by (simp add: body_size_def)
qed

lemma field_space_pos: "8 < field_space k v"
  by (cases v) (simp_all add: field_space_def)

lemma UpdateHeaderField_eq:
  assumes "obj_fits self"
  shows "UpdateHeaderField self = self\<lparr>bo_header := (bo_header self)\<lparr>
      payload_length := word_of_nat (body_size self),
      content_offset := word_of_nat (sizeof_header + 4 + length (bo_service_name self))\<rparr>\<rparr>"
proof -
  have "(word_of_nat (field_space k v) :: i32) \<noteq> 0" if "(k, v) \<in> set (members self)" for k v
    using member_space_bound [OF that] field_space_pos [of k v] assms
    by (intro word_of_nat_neq_0) (simp_all add: obj_fits_def)
  from Iterate_sum [of self field_space, OF this] show ?thesis
    by (simp add: UpdateHeaderField_def body_size_def algebra_simps)
qed

lemma members_update_header [simp]:
  "members (self\<lparr>bo_header := h\<rparr>) = members self"
  "obj_wf (self\<lparr>bo_header := h\<rparr>) = obj_wf self"
  "field_map (self\<lparr>bo_header := h\<rparr>) = field_map self"
  by (simp_all add: members_def typed_fields_defs obj_wf_def field_map_def)

text \<open>
  When the encoded object stays below \<open>2 ^ 31\<close> bytes, \<^verbatim>\<open>UpdateHeaderField\<close> stores the exact
  number of body bytes (service name and every field, whatever the iteration order) in the
  payload length and the size of header and service name in the content offset, and
  \<^verbatim>\<open>GetEncodedSize\<close> is the exact size of the message; nothing else changes.
\<close>

theorem GetEncodedSize_exact:
  assumes "obj_fits self"
  shows "snd (GetEncodedSize self) = 40 + body_size self
    \<and> unat (GetPayloadLength (fst (GetEncodedSize self))) = body_size self
    \<and> unat (GetContentOffset (fst (GetEncodedSize self))) = 44 + length (bo_service_name self)
    \<and> members (fst (GetEncodedSize self)) = members self
    \<and> bo_service_name (fst (GetEncodedSize self)) = bo_service_name self
    \<and> GetType (fst (GetEncodedSize self)) = GetType self
    \<and> GetTraceId (fst (GetEncodedSize self)) = GetTraceId self"
proof -
  have "body_size self < 2 ^ 32" "44 + length (bo_service_name self) < 2 ^ 32"
    using assms by (simp_all add: obj_fits_def body_size_def sizeof_header_def)
  then have "unat (word_of_nat (body_size self) :: u32) = body_size self"
    "unat (word_of_nat (44 + length (bo_service_name self)) :: u32) = 44 + length (bo_service_name self)"
    by (intro unat_of_nat_small; simp)+
  with assms show ?thesis
    by (simp add: GetEncodedSize_def UpdateHeaderField_eq sizeof_header_def accessor_defs del: of_nat_add)
qed

theorem GetEncodedSize_exact_witness:
  "obj_fits (NewKeepAlive 1 ''svc'') \<and> snd (GetEncodedSize (NewKeepAlive 1 ''svc'')) = 47"
proof -
  have b: "body_size (NewKeepAlive 1 ''svc'') = 7"
    by (simp add: body_size_def message_defs new_object_def accessor_defs members_def typed_fields_defs)
  then have "obj_fits (NewKeepAlive 1 ''svc'')" by (simp add: obj_fits_def sizeof_header_def)
  with GetEncodedSize_exact [OF this] b show ?thesis by simp
qed

section \<open>What the constructors build\<close>

lemmas constructor_simps = message_defs accessor_defs fields_adds protocol_names

lemma constructors_wf [simp]:
  "obj_wf (NewRequest g s c)" "obj_wf (NewResponse g s c)" "obj_wf (NewRegister g s i p)"
  "obj_wf (NewDeregister g s i)" "obj_wf (NewKeepAlive g s)" "obj_wf (NewQuery g s q)"
  "obj_wf (NewAnswer_none g s)" "obj_wf (NewAnswer g s q i)"
  "obj_wf (NewRequest_traced g s t c)" "obj_wf (NewResponse_traced g s t c)"
  "obj_wf (NewRegister_traced g s t i p)" "obj_wf (NewDeregister_traced g s t i)"
  "obj_wf (NewKeepAlive_traced g s t)" "obj_wf (NewQuery_traced g s t q)"
  "obj_wf (NewAnswer_none_traced g s t)" "obj_wf (NewAnswer_traced g s t q i)"
  by (simp_all add: message_defs)

lemma constructor_fields [simp]:
  "field_map (NewRequest g s c) = [kRequestService \<mapsto> VString c]"
  "field_map (NewResponse g s c) = [kResponseService \<mapsto> VString c]"
  "field_map (NewRegister g s i p) = [kRegisterIp \<mapsto> VString i, kRegisterPort \<mapsto> VI32 (ucast p),
     kRequestService \<mapsto> VString kIceRegisterServiceName]"
  "field_map (NewDeregister g s i) =
     [kRegisterIp \<mapsto> VString i, kRequestService \<mapsto> VString kIceRegisterServiceName]"
  "field_map (NewKeepAlive g s) = Map.empty"
  "field_map (NewQuery g s q) = [kRequestService \<mapsto> VString kIceServiceName, kQuery \<mapsto> VString q]"
  "field_map (NewAnswer_none g s) = [kNoAnswer \<mapsto> VByte 0]"
  "field_map (NewAnswer g s q i) = [kAnswerIp \<mapsto> VString i]"
  by (simp_all add: message_defs fields_adds) (simp_all add: protocol_names)

lemma constructor_headers [simp]:
  "bo_header (NewRequest g s c) = default_header\<lparr>hdr_type := kBTRequest, hdr_id := g\<rparr>"
  "bo_header (NewResponse g s c) = default_header\<lparr>hdr_type := kBTResponse, hdr_id := g\<rparr>"
  "bo_header (NewRegister g s i p) = default_header\<lparr>hdr_type := kBTRegister, hdr_id := g\<rparr>"
  "bo_header (NewDeregister g s i) = default_header\<lparr>hdr_type := kBTDeregister, hdr_id := g\<rparr>"
  "bo_header (NewKeepAlive g s) = default_header\<lparr>hdr_type := kBTKeepAlive, hdr_id := g\<rparr>"
  "bo_header (NewQuery g s q) = default_header\<lparr>hdr_type := kBTQuery, hdr_id := g\<rparr>"
  "bo_header (NewAnswer_none g s) = default_header\<lparr>hdr_type := kBTAnswer, hdr_id := g\<rparr>"
  "bo_header (NewAnswer g s q i) = default_header\<lparr>hdr_type := kBTAnswer, hdr_id := g\<rparr>"
  by (simp_all add: message_defs add_defs accessor_defs new_object_def Contains_def default_header_def)

lemma constructor_sizes [simp]:
  "body_size (NewRequest g s c) = 26 + length s + length c" "body_size (NewResponse g s c) = 26 + length s + length c"
  "body_size (NewRegister g s i p) = 73 + length s + length i" "body_size (NewDeregister g s i) = 52 + length s + length i"
  "body_size (NewKeepAlive g s) = 4 + length s" "body_size (NewQuery g s q) = 48 + length s + length q"
  "body_size (NewAnswer_none g s) = 20 + length s" "body_size (NewAnswer g s q i) = 23 + length s + length i"
  "body_size (NewRequest_traced g s t c) = 26 + length s + length c"
  "body_size (NewResponse_traced g s t c) = 26 + length s + length c"
  "body_size (NewAnswer_traced g s t q i) = 23 + length s + length i"
  by (simp_all add: body_size_def message_defs new_object_def accessor_defs members_def typed_fields_defs
      AddString_def AddI32_def AddByte_def Contains_def kv_emplace_def field_space_def protocol_names)

lemma members_fields:
  assumes "obj_wf self"
  shows "field_map self k = Some (VByte b) \<longleftrightarrow> (k, b) \<in> set (member_byte self)"
    and "field_map self k = Some (VI32 w) \<longleftrightarrow> (k, w) \<in> set (member_i32 self)"
proof -
  have "kv_wf (members self)" using assms by (simp add: obj_wf_def)
  then have "field_map self k = Some v \<longleftrightarrow> (k, v) \<in> set (members self)" for v
    by (simp add: field_map_def kv_wf_def)
  then show "field_map self k = Some (VByte b) \<longleftrightarrow> (k, b) \<in> set (member_byte self)"
    "field_map self k = Some (VI32 w) \<longleftrightarrow> (k, w) \<in> set (member_i32 self)"
    by (auto simp: members_def typed_fields_defs)
qed

lemma body_size_adds:
  "body_size (snd (AddByte k b self)) \<le> body_size self + 9 + length k"
  "body_size (snd (AddI32 k i self)) \<le> body_size self + 12 + length k"
  "body_size (snd (AddString k s self)) \<le> body_size self + 12 + length k + length s"
  by (simp_all add: body_size_def AddByte_def AddI32_def AddString_def kv_emplace_def members_def typed_fields_defs field_space_def
      split: option.split)

lemma constructor_services [simp]:
  "bo_service_name (NewRequest g s c) = s" "bo_service_name (NewResponse g s c) = s"
  "bo_service_name (NewRegister g s i p) = s" "bo_service_name (NewDeregister g s i) = s"
  "bo_service_name (NewKeepAlive g s) = s" "bo_service_name (NewQuery g s q) = s"
  "bo_service_name (NewAnswer_none g s) = s" "bo_service_name (NewAnswer g s q i) = s"
  by (simp_all add: message_defs add_defs accessor_defs new_object_def Contains_def)

text \<open>
  Every message constructor yields a well-formed object whose trace id is the one it was given,
  and 0 for the overloads without one: the last step of \<^verbatim>\<open>NewRequest\<close> writes the trace id back to
  itself, so the fresh identifier never becomes the trace id.
\<close>

theorem constructors_trace_ids:
  "GetTraceId (NewRequest g s c) = 0 \<and> GetId (NewRequest g s c) = g
    \<and> GetTraceId (NewResponse g s c) = 0 \<and> GetTraceId (NewRegister g s i p) = 0
    \<and> GetTraceId (NewQuery g s q) = 0 \<and> GetTraceId (NewAnswer_none g s) = 0
    \<and> GetTraceId (NewRequest_traced g s t c) = t \<and> GetTraceId (NewResponse_traced g s t c) = t
    \<and> GetTraceId (NewRegister_traced g s t i p) = t \<and> GetTraceId (NewDeregister_traced g s t i) = t
    \<and> GetTraceId (NewKeepAlive_traced g s t) = t \<and> GetTraceId (NewQuery_traced g s t q) = t
    \<and> GetTraceId (NewAnswer_none_traced g s t) = t \<and> GetTraceId (NewAnswer_traced g s t q i) = t
    \<and> obj_wf (NewRequest_traced g s t c) \<and> obj_wf (NewRegister_traced g s t i p)"
  by (simp add: traced_defs GetTraceId_def GetId_def SetTraceId_def default_header_def)

end
