(* ===== verification/Std_Stream.thy ===== *)
theory Std_Stream
  imports Blade_Prelude
begin

text \<open>
  What the code uses of the C++ standard streams, in the classic locale: the state of an input
  stream over a string, the formatted extractions of words, characters and decimal integers,
  \<^verbatim>\<open>ignore\<close> and \<^verbatim>\<open>read\<close>, and the decimal output of integers.
\<close>

section \<open>Decimal output\<close>

definition digit_char :: "nat \<Rightarrow> char" where
  "digit_char d = char_of (48 + d)"

fun show_nat :: "nat \<Rightarrow> string" where
  "show_nat n = (if n < 10 then [digit_char n] else show_nat (n div 10) @ [digit_char (n mod 10)])"

declare show_nat.simps [simp del]

definition show_int :: "int \<Rightarrow> string" where
  "show_int i = (if i < 0 then CHR ''-'' # show_nat (nat (- i)) else show_nat (nat i))"

section \<open>Input streams\<close>

text \<open>
  The characters not read yet and the three state bits. No operation on a stream over a string sets
  \<^verbatim>\<open>badbit\<close>.
\<close>

record istream =
  st_rest :: string
  st_eof :: bool
  st_fail :: bool
  st_bad :: bool

definition stringstream :: "string \<Rightarrow> istream" where
  "stringstream s = \<lparr>st_rest = s, st_eof = False, st_fail = False, st_bad = False\<rparr>"

definition is_space :: "char \<Rightarrow> bool" where
  "is_space c \<longleftrightarrow> c \<in> {CHR '' '', CHR 0x09, CHR 0x0A, CHR 0x0B, CHR 0x0C, CHR 0x0D}"

definition is_digit :: "char \<Rightarrow> bool" where
  "is_digit c \<longleftrightarrow> 48 \<le> (of_char c :: nat) \<and> (of_char c :: nat) < 58"

definition digit_value :: "char \<Rightarrow> nat" where
  "digit_value c = of_char c - 48"

definition dec_value :: "string \<Rightarrow> nat" where
  "dec_value ds = foldl (\<lambda>n c. 10 * n + digit_value c) 0 ds"

text \<open>The sentry: a stream that is not good fails, and so does one with nothing but white space left.\<close>

definition sentry :: "bool \<Rightarrow> istream \<Rightarrow> bool \<times> istream" where
  "sentry noskip s =
     (if st_eof s \<or> st_fail s \<or> st_bad s then (False, s\<lparr>st_fail := True\<rparr>)
      else if noskip then (True, s)
      else let rest = dropWhile is_space (st_rest s) in
        if rest = [] then (False, s\<lparr>st_rest := [], st_eof := True, st_fail := True\<rparr>)
        else (True, s\<lparr>st_rest := rest\<rparr>))"

text \<open>The extractions \<^verbatim>\<open>ss >> x\<close>: \<open>None\<close> when the sentry failed and \<^verbatim>\<open>x\<close> is left as it was.\<close>

definition extract_string :: "istream \<Rightarrow> string option \<times> istream" where
  "extract_string s =
     (case sentry False s of
        (False, s) \<Rightarrow> (None, s)
      | (True, s) \<Rightarrow>
          let rest = dropWhile (\<lambda>c. \<not> is_space c) (st_rest s) in
          (Some (takeWhile (\<lambda>c. \<not> is_space c) (st_rest s)), s\<lparr>st_rest := rest, st_eof := (rest = [])\<rparr>))"

definition or_empty :: "string option \<Rightarrow> string" where \<comment> \<open>a \<^verbatim>\<open>std::string\<close> is empty when nothing was read into it\<close>
  "or_empty x = (case x of None \<Rightarrow> '''' | Some s \<Rightarrow> s)"

definition extract_char :: "istream \<Rightarrow> char option \<times> istream" where
  "extract_char s =
     (case sentry False s of
        (False, s) \<Rightarrow> (None, s)
      | (True, s) \<Rightarrow> (Some (hd (st_rest s)), s\<lparr>st_rest := tl (st_rest s)\<rparr>))"

text \<open>The characters of a decimal integer: an optional sign and digits.\<close>

definition scan_sign :: "string \<Rightarrow> bool \<times> string" where
  "scan_sign s = (case s of c # t \<Rightarrow> if c = CHR ''-'' then (True, t) else if c = CHR ''+'' then (False, t) else (False, s) | [] \<Rightarrow> (False, s))"

text \<open>
  \<open>conv\<close> maps the sign and the digits' value to the stored value and whether it was in range; no digits at
  all store 0 and fail.
\<close>

definition extract_number :: "(bool \<Rightarrow> nat \<Rightarrow> 'a::len word \<times> bool) \<Rightarrow> istream \<Rightarrow> 'a word option \<times> istream" where
  "extract_number conv s =
     (case sentry False s of
        (False, s) \<Rightarrow> (None, s)
      | (True, s) \<Rightarrow>
          let (neg, t) = scan_sign (st_rest s);
              ds = takeWhile is_digit t;
              rest = dropWhile is_digit t;
              (v, ok) = if ds = [] then (0, False) else conv neg (dec_value ds)
          in (Some v, s\<lparr>st_rest := rest, st_eof := (rest = []), st_fail := \<not> ok\<rparr>))"

text \<open>Unsigned: a minus sign negates modulo \<open>2 ^ n\<close>. Both saturate.\<close>

definition conv_unsigned :: "bool \<Rightarrow> nat \<Rightarrow> 'a::len word \<times> bool" where
  "conv_unsigned neg n =
     (if 2 ^ LENGTH('a) \<le> n then (- 1, False) else (if neg then - word_of_nat n else word_of_nat n, True))"

definition conv_signed :: "bool \<Rightarrow> nat \<Rightarrow> 'a::len word \<times> bool" where
  "conv_signed neg n =
     (let v = if neg then - int n else int n in
      if v < - (2 ^ (LENGTH('a) - 1)) then (word_of_int (- (2 ^ (LENGTH('a) - 1))), False)
      else if 2 ^ (LENGTH('a) - 1) \<le> v then (word_of_int (2 ^ (LENGTH('a) - 1) - 1), False)
      else (word_of_int v, True))"

definition extract_u32 :: "istream \<Rightarrow> u32 option \<times> istream" where
  "extract_u32 = extract_number conv_unsigned"

definition extract_i32 :: "istream \<Rightarrow> i32 option \<times> istream" where
  "extract_i32 = extract_number conv_signed"

definition extract_i64 :: "istream \<Rightarrow> i64 option \<times> istream" where
  "extract_i64 = extract_number conv_signed"

text \<open>
  Reading a \<^verbatim>\<open>double\<close>: the library's \<^verbatim>\<open>num_get\<close> is a parameter, which gives the value it stores, the number of
  characters it takes, and whether it succeeded.
\<close>

type_synonym num_get = "string \<Rightarrow> f64 \<times> nat \<times> bool"

definition extract_f64 :: "num_get \<Rightarrow> istream \<Rightarrow> f64 option \<times> istream" where
  "extract_f64 get s =
     (case sentry False s of
        (False, s) \<Rightarrow> (None, s)
      | (True, s) \<Rightarrow>
          let (v, n, ok) = get (st_rest s); rest = drop n (st_rest s) in
          (Some v, s\<lparr>st_rest := rest, st_eof := (rest = []), st_fail := \<not> ok\<rparr>))"

text \<open>The unformatted inputs.\<close>

definition ss_ignore :: "istream \<Rightarrow> istream" where
  "ss_ignore s =
     (case sentry True s of
        (False, s) \<Rightarrow> s
      | (True, s) \<Rightarrow> if st_rest s = [] then s\<lparr>st_eof := True\<rparr> else s\<lparr>st_rest := tl (st_rest s)\<rparr>)"

definition ss_read :: "nat \<Rightarrow> istream \<Rightarrow> string \<times> istream" where
  "ss_read n s =
     (case sentry True s of
        (False, s) \<Rightarrow> ([], s)
      | (True, s) \<Rightarrow>
          let short = length (st_rest s) < n in
          (take n (st_rest s), s\<lparr>st_rest := drop n (st_rest s), st_eof := short, st_fail := short\<rparr>))"

section \<open>Reading what was printed\<close>

lemma digit_char_facts:
  assumes "d < 10"
  shows "is_digit (digit_char d)" "digit_value (digit_char d) = d" "\<not> is_space (digit_char d)"
    "digit_char d \<noteq> CHR ''-''" "digit_char d \<noteq> CHR ''+''"
proof -
  have d: "d \<in> {0, 1, 2, 3, 4, 5, 6, 7, 8, 9}" using assms by auto
  then show "is_digit (digit_char d)" "digit_value (digit_char d) = d"
    using assms by (simp_all add: is_digit_def digit_value_def digit_char_def)
  show "\<not> is_space (digit_char d)" "digit_char d \<noteq> CHR ''-''" "digit_char d \<noteq> CHR ''+''"
    using d by (auto simp: is_space_def digit_char_def char_of_def bit_iff_odd)
qed

lemma dec_value_snoc: "dec_value (ds @ [c]) = 10 * dec_value ds + digit_value c"
  by (simp add: dec_value_def)

lemma show_nat_facts: "dec_value (show_nat n) = n \<and> list_all is_digit (show_nat n) \<and> show_nat n \<noteq> []
    \<and> (\<forall>c \<in> set (show_nat n). \<not> is_space c) \<and> hd (show_nat n) \<notin> {CHR ''-'', CHR ''+''}"
proof (induction n rule: show_nat.induct)
  case (1 n)
  show ?case
  proof (cases "n < 10")
    case True
    then show ?thesis using digit_char_facts [of n] by (simp add: show_nat.simps [of n] dec_value_def)
  next
    case False
    with 1 digit_char_facts [of "n mod 10"] show ?thesis
      by (simp add: show_nat.simps [of n] dec_value_snoc)
  qed
qed

text \<open>Input that ends here or goes on with a white space character.\<close>

definition ends_word :: "string \<Rightarrow> bool" where
  "ends_word rest \<longleftrightarrow> (case rest of [] \<Rightarrow> True | c # _ \<Rightarrow> is_space c)"

lemma space_not_digit: "is_space c \<Longrightarrow> \<not> is_digit c"
  by (auto simp: is_space_def is_digit_def)

lemma takeWhile_ends:
  assumes "list_all P xs" and "case rest of [] \<Rightarrow> True | c # _ \<Rightarrow> \<not> P c"
  shows "takeWhile P (xs @ rest) = xs" "dropWhile P (xs @ rest) = rest"
  using assms by (induction xs) (auto split: list.splits)

lemma ends_word_simps:
  assumes "ends_word rest"
  shows "list_all is_digit ds \<Longrightarrow> takeWhile is_digit (ds @ rest) = ds"
    "list_all is_digit ds \<Longrightarrow> dropWhile is_digit (ds @ rest) = rest"
    "\<forall>c \<in> set w. \<not> is_space c \<Longrightarrow> takeWhile (\<lambda>c. \<not> is_space c) (w @ rest) = w"
    "\<forall>c \<in> set w. \<not> is_space c \<Longrightarrow> dropWhile (\<lambda>c. \<not> is_space c) (w @ rest) = rest"
  using assms takeWhile_ends [of is_digit ds rest] takeWhile_ends [of "\<lambda>c. \<not> is_space c" w rest]
  by (auto simp: ends_word_def space_not_digit list_all_iff split: list.splits)

lemma sentry_ok:
  assumes "list_all is_space ws" and "\<not> is_space c"
  shows "sentry False (stringstream (ws @ c # r)) = (True, stringstream (c # r))"
proof -
  have "dropWhile is_space (ws @ c # r) = c # r" using assms by (induction ws) auto
  then show ?thesis by (simp add: sentry_def stringstream_def)
qed

lemma sentry_end:
  assumes "list_all is_space ws"
  shows "fst (sentry False (stringstream ws)) = False"
proof -
  have "dropWhile is_space ws = []" using assms by (induction ws) auto
  then show ?thesis by (simp add: sentry_def stringstream_def)
qed

lemma extract_string_ok:
  assumes "list_all is_space ws" and "w \<noteq> []" "\<forall>c \<in> set w. \<not> is_space c" and "is_space d"
  shows "extract_string (stringstream (ws @ w @ d # r)) = (Some w, stringstream (d # r))"
proof -
  obtain c w' where w: "w = c # w'" using assms(2) by (cases w) auto
  have "ends_word (d # r)" using assms(4) by (simp add: ends_word_def)
  note e = ends_word_simps(3,4) [OF this assms(3)]
  from sentry_ok [OF assms(1), of c "w' @ d # r"] assms(3,4) e show ?thesis
    by (simp add: extract_string_def w) (simp add: stringstream_def)
qed

lemma extract_string_end: "list_all is_space ws \<Longrightarrow> fst (extract_string (stringstream ws)) = None"
  using sentry_end [of ws] by (auto simp: extract_string_def split: prod.splits bool.splits)

lemma extract_char_ok:
  "list_all is_space ws \<Longrightarrow> \<not> is_space c \<Longrightarrow> extract_char (stringstream (ws @ c # r)) = (Some c, stringstream r)"
  using sentry_ok [of ws c r] by (simp add: extract_char_def stringstream_def)

text \<open>A sign and digits, as they are scanned.\<close>

lemma extract_number_ok:
  assumes "list_all is_space ws" and "is_space d" and "list_all is_digit ds" "ds \<noteq> []" "hd ds \<notin> {CHR ''-'', CHR ''+''}" "\<not> is_space (hd ds)"
    and "conv neg (dec_value ds) = (v, True)"
  shows "extract_number conv (stringstream (ws @ (if neg then [CHR ''-''] else []) @ ds @ d # r)) = (Some v, stringstream (d # r))"
proof -
  obtain c ds' where ds: "ds = c # ds'" using assms(4) by (cases ds) auto
  have "ends_word (d # r)" using assms(2) by (simp add: ends_word_def)
  note e = ends_word_simps(1,2) [OF this assms(3)]
  have scan: "scan_sign ((if neg then [CHR ''-''] else []) @ ds @ d # r) = (neg, ds @ d # r)"
    using assms(5) by (auto simp: scan_sign_def ds)
  have "sentry False (stringstream (ws @ (if neg then [CHR ''-''] else []) @ ds @ d # r))
      = (True, stringstream ((if neg then [CHR ''-''] else []) @ ds @ d # r))"
    using sentry_ok [OF assms(1), of "CHR ''-''" "ds @ d # r"] sentry_ok [OF assms(1), of c "ds' @ d # r"] assms(6)
    by (auto simp: ds is_space_def)
  moreover have "st_rest (stringstream x) = x" for x by (simp add: stringstream_def)
  ultimately show ?thesis using scan e assms(4,7) space_not_digit [OF assms(2)]
    by (simp add: extract_number_def Let_def del: append_assoc) (simp add: stringstream_def)
qed

lemma extract_u32_ok:
  assumes "list_all is_space ws" and "is_space d"
  shows "extract_u32 (stringstream (ws @ show_nat (unat v) @ d # r)) = (Some v, stringstream (d # r))"
proof -
  have "unat v < 2 ^ LENGTH(32)" by (rule unsigned_less)
  then have "conv_unsigned False (dec_value (show_nat (unat v))) = (v, True)"
    using show_nat_facts [of "unat v"] by (simp add: conv_unsigned_def)
  moreover note show_nat_facts [of "unat v"]
  ultimately show ?thesis
    using extract_number_ok [OF assms, of "show_nat (unat v)" conv_unsigned False v r] unfolding extract_u32_def by auto
qed

lemma extract_signed_ok:
  fixes v :: "'a::len word"
  assumes "list_all is_space ws" and "is_space d"
  shows "extract_number conv_signed (stringstream (ws @ show_int (sint v) @ d # r)) = (Some v, stringstream (d # r))"
proof -
  let ?n = "nat \<bar>sint v\<bar>" and ?neg = "sint v < 0"
  have "- (2 ^ (LENGTH('a) - 1)) \<le> sint v" "sint v < 2 ^ (LENGTH('a) - 1)"
    using sint_greater_eq [of v] sint_less [of v] by simp_all
  then have "conv_signed ?neg (dec_value (show_nat ?n)) = (v, True)"
    using show_nat_facts [of ?n] by (simp add: conv_signed_def Let_def)
  moreover have "show_int (sint v) = (if ?neg then [CHR ''-''] else []) @ show_nat ?n"
    by (simp add: show_int_def)
  moreover note show_nat_facts [of ?n]
  ultimately show ?thesis
    using extract_number_ok [OF assms, of "show_nat ?n" conv_signed ?neg v r] by auto
qed

lemmas extract_int_ok = extract_u32_ok extract_signed_ok [where 'a = 32, folded extract_i32_def] extract_signed_ok [where 'a = 64, folded extract_i64_def]

lemma read_ok: "ss_ignore (stringstream (d # r)) = stringstream r"
  "ss_read (length v) (stringstream (v @ r)) = (v, stringstream r)"
  by (simp_all add: ss_ignore_def ss_read_def sentry_def stringstream_def)

section \<open>No operation puts characters back\<close>

definition stream_shrinks :: "istream \<Rightarrow> istream \<Rightarrow> bool" where
  "stream_shrinks s s' \<longleftrightarrow> length (st_rest s') \<le> length (st_rest s) \<and> (st_bad s' \<longleftrightarrow> st_bad s) \<and> (st_fail s \<longrightarrow> st_fail s')"

lemma stream_shrinks_refl [intro, simp]: "stream_shrinks s s"
  by (simp add: stream_shrinks_def)

lemma stream_shrinks_trans: "stream_shrinks s s' \<Longrightarrow> stream_shrinks s' s'' \<Longrightarrow> stream_shrinks s s''"
  by (auto simp: stream_shrinks_def)

lemma sentry_cases:
  obtains (bad) s' where "sentry b s = (False, s')" "st_fail s'" "stream_shrinks s s'"
  | (ok) s' where "sentry b s = (True, s')" "\<not> st_eof s'" "\<not> st_fail s'" "\<not> st_bad s'" "stream_shrinks s s'"
      "b \<or> (\<exists>c r. st_rest s' = c # r \<and> \<not> is_space c)"
proof (cases "sentry b s")
  case (Pair ok s')
  have len: "length (dropWhile is_space (st_rest s)) \<le> length (st_rest s)" by (rule length_dropWhile_le)
  show thesis
  proof (cases ok)
    case True
    have "b \<or> (\<exists>c r. st_rest s' = c # r \<and> \<not> is_space c)"
    proof (cases "dropWhile is_space (st_rest s)")
      case Nil
      with Pair True show ?thesis by (auto simp: sentry_def Let_def split: if_splits)
    next
      case (Cons c r)
      then have "\<not> is_space c" by (metis dropWhile_eq_Cons_conv)
      with Cons Pair True show ?thesis by (auto simp: sentry_def Let_def split: if_splits)
    qed
    with True Pair len show thesis
      by (intro ok [of s']) (auto simp: sentry_def stream_shrinks_def Let_def split: if_splits)
  next
    case False
    with Pair len show thesis
      by (intro bad [of s']) (auto simp: sentry_def stream_shrinks_def Let_def split: if_splits)
  qed
qed

lemma extract_string_shrinks: "extract_string s = (x, s') \<Longrightarrow> stream_shrinks s s'"
proof -
  assume e: "extract_string s = (x, s')"
  have len: "length (dropWhile P xs) \<le> length xs" for P :: "char \<Rightarrow> bool" and xs by (rule length_dropWhile_le)
  show ?thesis
  proof (cases rule: sentry_cases [of False s])
    case (ok t)
    with e len [of "\<lambda>c. \<not> is_space c" "st_rest t"] show ?thesis
      by (auto simp: extract_string_def Let_def stream_shrinks_def)
  qed (use e in \<open>auto simp: extract_string_def\<close>)
qed

lemma extract_string_consumes:
  assumes "extract_string s = (Some w, s')"
  shows "length (st_rest s') < length (st_rest s)" "\<not> st_fail s'" "\<not> st_bad s'" "w \<noteq> []"
proof -
  from assms obtain t where t: "sentry False s = (True, t)" "\<not> st_fail t" "\<not> st_bad t" "stream_shrinks s t"
    by (cases rule: sentry_cases [of False s]) (auto simp: extract_string_def)
  then obtain c r where c: "st_rest t = c # r" "\<not> is_space c"
    by (cases rule: sentry_cases [of False s]) auto
  have "length (dropWhile (\<lambda>c. \<not> is_space c) r) \<le> length r" by (rule length_dropWhile_le)
  with assms t c show "length (st_rest s') < length (st_rest s)" "\<not> st_fail s'" "\<not> st_bad s'" "w \<noteq> []"
    by (auto simp: extract_string_def Let_def stream_shrinks_def)
qed

lemma extract_char_shrinks: "extract_char s = (x, s') \<Longrightarrow> stream_shrinks s s'"
  by (cases rule: sentry_cases [of False s]) (auto simp: extract_char_def stream_shrinks_def)

lemma extract_number_shrinks: "extract_number conv s = (x, s') \<Longrightarrow> stream_shrinks s s'"
proof -
  assume e: "extract_number conv s = (x, s')"
  have "length (dropWhile is_digit (snd (scan_sign xs))) \<le> length xs" for xs
  proof -
    have "length (snd (scan_sign xs)) \<le> length xs" by (auto simp: scan_sign_def split: list.splits)
    then show ?thesis using length_dropWhile_le [of is_digit "snd (scan_sign xs)"] by linarith
  qed
  note len = this
  show ?thesis
  proof (cases rule: sentry_cases [of False s])
    case (ok t)
    with e len [of "st_rest t"] show ?thesis
      by (auto simp: extract_number_def Let_def stream_shrinks_def split: prod.splits)
  qed (use e in \<open>auto simp: extract_number_def\<close>)
qed

lemma extract_f64_shrinks: "extract_f64 get s = (x, s') \<Longrightarrow> stream_shrinks s s'"
  by (cases rule: sentry_cases [of False s]) (auto simp: extract_f64_def stream_shrinks_def Let_def split: prod.splits)

lemma ss_ignore_shrinks: "stream_shrinks s (ss_ignore s)"
  by (cases rule: sentry_cases [of True s]) (auto simp: ss_ignore_def stream_shrinks_def)

lemma ss_read_shrinks: "ss_read n s = (v, s') \<Longrightarrow> stream_shrinks s s'"
  by (cases rule: sentry_cases [of True s]) (auto simp: ss_read_def stream_shrinks_def Let_def)

lemmas extract_shrinks = extract_string_shrinks extract_char_shrinks extract_number_shrinks
  extract_number_shrinks [where conv = conv_unsigned and 'a = 32, folded extract_u32_def]
  extract_number_shrinks [where conv = conv_signed and 'a = 32, folded extract_i32_def]
  extract_number_shrinks [where conv = conv_signed and 'a = 64, folded extract_i64_def]
  extract_f64_shrinks ss_read_shrinks

text \<open>What a failed number leaves behind: no digit where one is needed stores 0 and fails.\<close>

lemma extract_number_malformed:
  assumes "list_all is_space ws" and "\<not> is_space c" and "\<not> is_digit c" "c \<notin> {CHR ''-'', CHR ''+''}"
  shows "\<exists>s. extract_number conv (stringstream (ws @ c # r)) = (Some 0, s) \<and> st_fail s \<and> \<not> st_bad s"
proof -
  have "scan_sign (c # r) = (False, c # r)" using assms(4) by (simp add: scan_sign_def)
  then show ?thesis using sentry_ok [OF assms(1,2), of r] assms(3)
    by (simp add: extract_number_def stringstream_def)
qed

lemma extract_string_failed: "st_fail s \<Longrightarrow> fst (extract_string s) = None"
  by (simp add: extract_string_def sentry_def)

end
