(* ===== verification/Blade_Dsl.thy ===== *)
theory Blade_Dsl
  imports Blade_Object Std_Stream
begin

text \<open>
  blade/blade\_object.cc, \<^verbatim>\<open>Dsl\<close>: the interpreter of a small text language that fills in an object.
  Each strategy of \<^verbatim>\<open>strategy_map\<close> is one definition on the stream and the object; a variable that the
  extraction left as it was is an uninitialised one, except for the strings.
\<close>

section \<open>The strategies\<close>

type_synonym strategy = "istream \<Rightarrow> blade_object \<Rightarrow> (int \<times> istream \<times> blade_object) result"

definition used :: "'a option \<Rightarrow> 'a result" where
  "used x = (case x of None \<Rightarrow> Inl Uninitialised | Some v \<Rightarrow> Inr v)"

definition dsl_id :: strategy where
  "dsl_id ss self =
     (let (id', ss) = extract_u32 ss in
      if st_bad ss then Inr (1, ss, self)
      else and_then (used id') (\<lambda>id'. Inr (0, ss, SetId id' self)))"

definition dsl_trace_id :: strategy where
  "dsl_trace_id ss self =
     (let (trace_id, ss) = extract_u32 ss in
      if st_bad ss then Inr (1, ss, self)
      else and_then (used trace_id) (\<lambda>trace_id. Inr (0, ss, SetTraceId trace_id self)))"

definition dsl_type :: strategy where
  "dsl_type ss self =
     (let (type', ss) = extract_u32 ss in
      if st_bad ss then Inr (1, ss, self)
      else and_then (used type') (\<lambda>type'. Inr (0, ss, SetType type' self)))"

definition dsl_service_name :: strategy where
  "dsl_service_name ss self =
     (let (service_name, ss) = extract_string ss in
      if st_bad ss then Inr (1, ss, self)
      else Inr (0, ss, SetServiceName (or_empty service_name) self))"

text \<open>\<^verbatim>\<open>int8_t\<close> is a character type: one character is read, not a number.\<close>

definition dsl_byte :: strategy where
  "dsl_byte ss self =
     (let (name, ss) = extract_string ss; (byt, ss) = extract_char ss in
      if st_bad ss then Inr (1, ss, self)
      else and_then (used byt) (\<lambda>byt. Inr (0, ss, snd (AddByte (or_empty name) (of_char byt) self))))"

definition dsl_i32 :: strategy where
  "dsl_i32 ss self =
     (let (name, ss) = extract_string ss; (val, ss) = extract_i32 ss in
      if st_bad ss then Inr (1, ss, self)
      else and_then (used val) (\<lambda>val. Inr (0, ss, snd (AddI32 (or_empty name) val self))))"

definition dsl_i64 :: strategy where
  "dsl_i64 ss self =
     (let (name, ss) = extract_string ss; (val, ss) = extract_i64 ss in
      if st_bad ss then Inr (1, ss, self)
      else and_then (used val) (\<lambda>val. Inr (0, ss, snd (AddI64 (or_empty name) val self))))"

definition dsl_f64 :: "num_get \<Rightarrow> strategy" where
  "dsl_f64 get ss self =
     (let (name, ss) = extract_string ss; (val, ss) = extract_f64 get ss in
      if st_bad ss then Inr (1, ss, self)
      else and_then (used val) (\<lambda>val. Inr (0, ss, snd (AddF64 (or_empty name) val self))))"

text \<open>
  The buffer has \<^verbatim>\<open>length + 1\<close> bytes, a sum of 32 bits; the string added ends at its first null character.
\<close>

definition c_string :: "string \<Rightarrow> string" where
  "c_string s = takeWhile (\<lambda>c. c \<noteq> CHR 0x00) s"

definition dsl_string :: strategy where
  "dsl_string ss self =
     (let (name, ss) = extract_string ss; (len, ss) = extract_u32 ss in
      if st_bad ss then Inr (1, ss, self)
      else and_then (used len) (\<lambda>len.
        let size = unat (len + 1);
            ss = ss_ignore ss;
            (got, ss) = ss_read (unat len) ss
        in if size < length got \<or> size \<le> unat len then Inl OutOfBounds
           else if st_bad ss then Inr (1, ss, self)
           else Inr (0, ss, snd (AddString (or_empty name) (c_string got) self))))"

definition dsl_str :: strategy where
  "dsl_str ss self =
     (let (name, ss) = extract_string ss; (val, ss) = extract_string ss in
      if st_bad ss then Inr (1, ss, self)
      else Inr (0, ss, snd (AddString (or_empty name) (or_empty val) self)))"

definition dsl_remove :: strategy where
  "dsl_remove ss self =
     (let (name, ss) = extract_string ss in
      if st_bad ss then Inr (1, ss, self)
      else and_then (RemoveField (or_empty name) self) (\<lambda>(_, self). Inr (0, ss, self)))"

definition strategy_map :: "num_get \<Rightarrow> (string \<times> strategy) list" where
  "strategy_map get =
     [(''id'', dsl_id), (''trace_id'', dsl_trace_id), (''type'', dsl_type), (''service_name'', dsl_service_name),
      (''byte'', dsl_byte), (''i32'', dsl_i32), (''i64'', dsl_i64), (''f64'', dsl_f64 get),
      (''string'', dsl_string), (''str'', dsl_str), (''remove'', dsl_remove)]"

lemmas dsl_defs = dsl_id_def dsl_trace_id_def dsl_type_def dsl_service_name_def dsl_byte_def dsl_i32_def dsl_i64_def
  dsl_f64_def dsl_string_def dsl_str_def dsl_remove_def

section \<open>What a strategy can do\<close>

lemma used_iff: "used x = Inr v \<longleftrightarrow> x = Some v" "used x = Inl e \<longleftrightarrow> x = None \<and> e = Uninitialised"
  by (auto simp: used_def split: option.splits)

text \<open>The outcome of a strategy, from any stream without \<^verbatim>\<open>badbit\<close>.\<close>

definition outcome :: "istream \<Rightarrow> (int \<times> istream \<times> blade_object) result \<Rightarrow> bool" where
  "outcome ss r \<longleftrightarrow> (case r of
      Inr (c, ss', self') \<Rightarrow> stream_shrinks ss ss' \<and> c = 0 \<and> obj_wf self'
    | Inl e \<Rightarrow> e \<in> {Uninitialised, OutOfBounds})"

lemma outcome_simps [simp]:
  "outcome ss (Inr (c, ss', self')) \<longleftrightarrow> stream_shrinks ss ss' \<and> c = 0 \<and> obj_wf self'"
  "outcome ss (Inl e) \<longleftrightarrow> e \<in> {Uninitialised, OutOfBounds}"
  by (simp_all add: outcome_def)

lemma outcome_string:
  assumes "obj_wf self" and "\<not> st_bad ss"
  shows "outcome ss (dsl_string ss self)"
proof -
  obtain name s1 where 1: "extract_string ss = (name, s1)" by fastforce
  obtain len s2 where 2: "extract_u32 s1 = (len, s2)" by fastforce
  note s12 = extract_shrinks(1) [OF 1] extract_shrinks(4) [OF 2]
  then have s2: "stream_shrinks ss s2" "\<not> st_bad s2" using assms(2) by (auto simp: stream_shrinks_def)
  show ?thesis
  proof (cases len)
    case None
    with 1 2 s2 show ?thesis by (simp add: dsl_string_def used_def)
  next
    case (Some n)
    obtain got s3 where 3: "ss_read (unat n) (ss_ignore s2) = (got, s3)" by fastforce
    have "stream_shrinks s2 s3" using ss_ignore_shrinks extract_shrinks(8) [OF 3] stream_shrinks_trans by blast
    then have "stream_shrinks ss s3" "\<not> st_bad s3" using s2 stream_shrinks_trans by (auto simp: stream_shrinks_def)
    with 1 2 3 s2 Some assms(1) show ?thesis by (simp add: dsl_string_def used_def Let_def wf_adds)
  qed
qed

lemma outcome_reads:
  assumes "obj_wf self" and "\<not> st_bad ss"
  shows "outcome ss (dsl_id ss self)" "outcome ss (dsl_trace_id ss self)" "outcome ss (dsl_type ss self)"
    "outcome ss (dsl_service_name ss self)" "outcome ss (dsl_byte ss self)" "outcome ss (dsl_i32 ss self)"
    "outcome ss (dsl_i64 ss self)" "outcome ss (dsl_f64 get ss self)" "outcome ss (dsl_str ss self)"
  using assms
  by (auto simp: dsl_id_def dsl_trace_id_def dsl_type_def dsl_service_name_def dsl_byte_def dsl_i32_def dsl_i64_def
      dsl_f64_def dsl_str_def used_def stream_shrinks_def split: prod.splits option.splits dest!: extract_shrinks)

lemma outcome_remove:
  assumes "obj_wf self" and "\<not> st_bad ss"
  shows "outcome ss (dsl_remove ss self)"
proof -
  obtain name s1 where 1: "extract_string ss = (name, s1)" by fastforce
  obtain b self' where 2: "RemoveField (or_empty name) self = Inr (b, self')" "obj_wf self'"
    using RemoveField_correct [OF assms(1), of "or_empty name"] by auto
  from extract_shrinks(1) [OF 1] assms(2) have "stream_shrinks ss s1" "\<not> st_bad s1" by (auto simp: stream_shrinks_def)
  with 1 2 show ?thesis by (simp add: dsl_remove_def)
qed

lemmas outcomes = outcome_reads outcome_string outcome_remove

lemma strategy_outcome:
  assumes "map_of (strategy_map get) opr = Some f" and "obj_wf self" and "\<not> st_bad ss"
  shows "outcome ss (f ss self)"
  using assms(1) outcomes [OF assms(2,3)] by (auto simp: strategy_map_def split: if_splits)

section \<open>The interpreter\<close>

text \<open>
  \<^verbatim>\<open>Dsl\<close>. The loop ends because each turn reads an operation's name and no strategy puts a character back; the
  stream's \<^verbatim>\<open>badbit\<close> and the object play no role for that.
\<close>

lemma strategy_shrinks:
  assumes "map_of (strategy_map get) opr = Some f" and "f ss self = Inr (c, ss', self')"
  shows "length (st_rest ss') \<le> length (st_rest ss)"
proof -
  have string: "length (st_rest ss') \<le> length (st_rest ss)" if r: "dsl_string ss self = Inr (c, ss', self')"
  proof -
    obtain name s1 where 1: "extract_string ss = (name, s1)" by fastforce
    obtain len s2 where 2: "extract_u32 s1 = (len, s2)" by fastforce
    have s2: "stream_shrinks ss s2" using extract_shrinks(1) [OF 1] extract_shrinks(4) [OF 2] stream_shrinks_trans by blast
    show ?thesis
    proof (cases "st_bad s2 \<or> len = None")
      case True
      with r 1 2 s2 show ?thesis by (auto simp: dsl_string_def used_def stream_shrinks_def)
    next
      case False
      then obtain n where n: "len = Some n" by auto
      obtain got s3 where 3: "ss_read (unat n) (ss_ignore s2) = (got, s3)" by fastforce
      have "stream_shrinks s2 s3" using ss_ignore_shrinks extract_shrinks(8) [OF 3] stream_shrinks_trans by blast
      with s2 have "stream_shrinks ss s3" using stream_shrinks_trans by blast
      moreover have "ss' = s3" using r False n by (auto simp: dsl_string_def used_def 1 2 3 Let_def split: if_splits)
      ultimately show ?thesis by (simp add: stream_shrinks_def)
    qed
  qed
  from assms(1) have "f \<in> {dsl_id, dsl_trace_id, dsl_type, dsl_service_name, dsl_byte, dsl_i32, dsl_i64, dsl_f64 get,
      dsl_string, dsl_str, dsl_remove}"
    by (auto simp: strategy_map_def split: if_splits)
  then have "f = dsl_string \<or> stream_shrinks ss ss'" using assms(2)
    by (auto simp: dsl_id_def dsl_trace_id_def dsl_type_def dsl_service_name_def dsl_byte_def dsl_i32_def dsl_i64_def
        dsl_f64_def dsl_str_def dsl_remove_def and_then_iffs
        split: prod.splits if_splits dest!: extract_shrinks intro: stream_shrinks_trans)
  with string assms(2) show ?thesis by (auto simp: stream_shrinks_def)
qed

function dsl_loop :: "num_get \<Rightarrow> int \<Rightarrow> istream \<Rightarrow> blade_object \<Rightarrow> (int \<times> blade_object) result" where
  "dsl_loop get ret_code ss self =
     (case extract_string ss of
        (None, ss) \<Rightarrow> Inr (ret_code, self)
      | (Some opr_name, ss) \<Rightarrow>
          (case map_of (strategy_map get) opr_name of
             None \<Rightarrow> Inr (-1, self)
           | Some f \<Rightarrow>
               (case f ss self of
                  Inl e \<Rightarrow> Inl e
                | Inr (c, ss, self) \<Rightarrow> dsl_loop get (ret_code + c) ss self)))"
  by pat_completeness auto

termination dsl_loop
  by (relation "measure (\<lambda>(_, _, ss, _). length (st_rest ss))")
    (auto dest!: strategy_shrinks extract_string_consumes(1) [OF sym])

declare dsl_loop.simps [simp del]

definition Dsl :: "num_get \<Rightarrow> string \<Rightarrow> blade_object \<Rightarrow> (int \<times> blade_object) result" where
  "Dsl get str self = dsl_loop get 0 (stringstream str) self"

section \<open>The outcomes of a script\<close>

lemma dsl_loop_outcome:
  assumes "\<not> st_bad ss" and "obj_wf self"
  shows "case dsl_loop get ret_code ss self of
      Inr (r, self') \<Rightarrow> r \<in> {ret_code, -1} \<and> obj_wf self'
    | Inl e \<Rightarrow> e \<in> {Uninitialised, OutOfBounds}"
  using assms
proof (induction get ret_code ss self rule: dsl_loop.induct)
  case (1 get ret_code ss self)
  obtain x ss1 where x: "extract_string ss = (x, ss1)" by fastforce
  show ?case
  proof (cases "x = None \<or> map_of (strategy_map get) (the x) = None")
    case True
    with x 1(3) show ?thesis by (cases x) (auto simp: dsl_loop.simps [of get ret_code ss])
  next
    case False
    then obtain opr f where f: "x = Some opr" "map_of (strategy_map get) opr = Some f" by auto
    have "\<not> st_bad ss1" using extract_string_consumes(3) x f(1) by blast
    from strategy_outcome [OF f(2) 1(3) this] have out: "outcome ss1 (f ss1 self)" .
    show ?thesis
    proof (cases "f ss1 self")
      case (Inl e)
      with out x f show ?thesis by (simp add: dsl_loop.simps [of get ret_code ss])
    next
      case (Inr r)
      obtain c ss2 self2 where r: "r = (c, ss2, self2)" by (cases r)
      with out Inr \<open>\<not> st_bad ss1\<close> have c: "c = 0" "\<not> st_bad ss2" "obj_wf self2" by (simp_all add: stream_shrinks_def)
      have "case dsl_loop get (ret_code + c) ss2 self2 of
          Inr (r, self') \<Rightarrow> r \<in> {ret_code + c, -1} \<and> obj_wf self' | Inl e \<Rightarrow> e \<in> {Uninitialised, OutOfBounds}"
        by (rule 1(1) [OF x [symmetric] f Inr r [symmetric] refl c(2,3)])
      moreover have "dsl_loop get ret_code ss self = dsl_loop get (ret_code + c) ss2 self2"
        using x f Inr r by (simp add: dsl_loop.simps [of get ret_code ss])
      ultimately show ?thesis unfolding c(1) add_0_right by simp
    qed
  qed
qed

text \<open>
  C30. \<^verbatim>\<open>Dsl\<close> on any text. It ends, throws nothing and keeps the object well formed; it returns 0 or -1, never a positive number of
  failed commands, since \<^verbatim>\<open>ss.bad()\<close> is never true; what can go wrong is the use of an uninitialised variable
  or a write past a buffer.
\<close>

theorem Dsl_outcomes:
  assumes "obj_wf self"
  shows "case Dsl get str self of
      Inr (r, self') \<Rightarrow> r \<in> {0, -1} \<and> obj_wf self'
    | Inl e \<Rightarrow> e \<in> {Uninitialised, OutOfBounds}"
  unfolding Dsl_def using dsl_loop_outcome [where ss = "stringstream str" and get = get and ret_code = 0, OF _ assms] by (simp add: stringstream_def)

section \<open>Scripts\<close>

datatype dsl_command =
    CmdId u32 | CmdTraceId u32 | CmdType u32 | CmdServiceName string
  | CmdByte string char | CmdI32 string i32 | CmdI64 string i64 | CmdF64 string string
  | CmdString string string | CmdStr string string | CmdRemove string

definition is_word :: "string \<Rightarrow> bool" where
  "is_word w \<longleftrightarrow> w \<noteq> [] \<and> (\<forall>c \<in> set w. \<not> is_space c)"

text \<open>A literal that the library reads in full as a \<^verbatim>\<open>double\<close>, when a newline follows.\<close>

definition f64_literal :: "num_get \<Rightarrow> string \<Rightarrow> f64 \<Rightarrow> bool" where
  "f64_literal get t v \<longleftrightarrow> is_word t \<and> (\<forall>r. get (t @ CHR 0x0A # r) = (v, length t, True))"

fun command_ok :: "num_get \<Rightarrow> dsl_command \<Rightarrow> bool" where
  "command_ok get (CmdServiceName n) = is_word n"
| "command_ok get (CmdByte k c) = (is_word k \<and> \<not> is_space c)"
| "command_ok get (CmdI32 k v) = is_word k"
| "command_ok get (CmdI64 k v) = is_word k"
| "command_ok get (CmdF64 k t) = (is_word k \<and> f64_literal get t (fst (get (t @ [CHR 0x0A]))))"
| "command_ok get (CmdString k s) = (is_word k \<and> CHR 0x00 \<notin> set s \<and> length s < 2 ^ 32 - 1)"
| "command_ok get (CmdStr k s) = (is_word k \<and> is_word s)"
| "command_ok get (CmdRemove k) = is_word k"
| "command_ok get _ = True"

fun command_words :: "dsl_command \<Rightarrow> string" where
  "command_words (CmdId v) = ''id '' @ show_nat (unat v)"
| "command_words (CmdTraceId v) = ''trace_id '' @ show_nat (unat v)"
| "command_words (CmdType v) = ''type '' @ show_nat (unat v)"
| "command_words (CmdServiceName n) = ''service_name '' @ n"
| "command_words (CmdByte k c) = ''byte '' @ k @ '' '' @ [c]"
| "command_words (CmdI32 k v) = ''i32 '' @ k @ '' '' @ show_int (sint v)"
| "command_words (CmdI64 k v) = ''i64 '' @ k @ '' '' @ show_int (sint v)"
| "command_words (CmdF64 k t) = ''f64 '' @ k @ '' '' @ t"
| "command_words (CmdString k s) = ''string '' @ k @ '' '' @ show_nat (length s) @ '' '' @ s"
| "command_words (CmdStr k s) = ''str '' @ k @ '' '' @ s"
| "command_words (CmdRemove k) = ''remove '' @ k"

definition script :: "dsl_command list \<Rightarrow> string" where
  "script cs = concat (map (\<lambda>c. command_words c @ [CHR 0x0A]) cs)"

fun command_exec :: "num_get \<Rightarrow> dsl_command \<Rightarrow> blade_object \<Rightarrow> blade_object" where
  "command_exec get (CmdId v) self = SetId v self"
| "command_exec get (CmdTraceId v) self = SetTraceId v self"
| "command_exec get (CmdType v) self = SetType v self"
| "command_exec get (CmdServiceName n) self = SetServiceName n self"
| "command_exec get (CmdByte k c) self = snd (AddByte k (of_char c) self)"
| "command_exec get (CmdI32 k v) self = snd (AddI32 k v self)"
| "command_exec get (CmdI64 k v) self = snd (AddI64 k v self)"
| "command_exec get (CmdF64 k t) self = snd (AddF64 k (fst (get (t @ [CHR 0x0A]))) self)"
| "command_exec get (CmdString k s) self = snd (AddString k s self)"
| "command_exec get (CmdStr k s) self = snd (AddString k s self)"
| "command_exec get (CmdRemove k) self = (case RemoveField k self of Inr (_, self) \<Rightarrow> self | Inl _ \<Rightarrow> self)"

lemma spaces: "is_space (CHR '' '')" "is_space (CHR 0x0A)"
  by (simp_all add: is_space_def)

lemma read_word:
  assumes "is_word w"
  shows "extract_string (stringstream (CHR '' '' # w @ CHR '' '' # r)) = (Some w, stringstream (CHR '' '' # r))"
    "extract_string (stringstream (CHR '' '' # w @ CHR 0x0A # r)) = (Some w, stringstream (CHR 0x0A # r))"
  using extract_string_ok [of "'' ''" w "CHR '' ''" r] extract_string_ok [of "'' ''" w "CHR 0x0A" r] assms spaces
  by (simp_all add: is_word_def)

lemma read_number:
  "extract_u32 (stringstream (CHR '' '' # show_nat (unat v) @ CHR 0x0A # r)) = (Some v, stringstream (CHR 0x0A # r))"
  "extract_u32 (stringstream (CHR '' '' # show_nat (unat v) @ CHR '' '' # r)) = (Some v, stringstream (CHR '' '' # r))"
  "extract_i32 (stringstream (CHR '' '' # show_int (sint (w :: i32)) @ CHR 0x0A # r)) = (Some w, stringstream (CHR 0x0A # r))"
  "extract_i64 (stringstream (CHR '' '' # show_int (sint (x :: i64)) @ CHR 0x0A # r)) = (Some x, stringstream (CHR 0x0A # r))"
  using extract_int_ok(1) [of "'' ''" _ v r] extract_int_ok(2) [of "'' ''" "CHR 0x0A" w r] extract_int_ok(3) [of "'' ''" "CHR 0x0A" x r] spaces
  by simp_all

lemma read_f64:
  assumes "f64_literal get t v"
  shows "extract_f64 get (stringstream (CHR '' '' # t @ CHR 0x0A # r)) = (Some v, stringstream (CHR 0x0A # r))"
proof -
  obtain c t' where t: "t = c # t'" "\<not> is_space c" using assms by (cases t) (auto simp: f64_literal_def is_word_def)
  have "get (t @ CHR 0x0A # r) = (v, length t, True)" using assms by (simp add: f64_literal_def)
  with sentry_ok [of "'' ''" c "t' @ CHR 0x0A # r"] t spaces show ?thesis
    by (simp add: extract_f64_def) (simp add: stringstream_def)
qed

text \<open>The last word of the text, and a number that is not there.\<close>

lemma read_last_word:
  assumes "list_all is_space ws" and "is_word w"
  shows "\<exists>s. extract_string (stringstream (ws @ w)) = (Some w, s) \<and> st_eof s \<and> \<not> st_bad s"
proof -
  obtain c w' where w: "w = c # w'" "\<not> is_space c" using assms(2) by (cases w) (auto simp: is_word_def)
  have "takeWhile (\<lambda>c. \<not> is_space c) w = w" "dropWhile (\<lambda>c. \<not> is_space c) w = []"
    using assms(2) by (auto simp: is_word_def takeWhile_eq_all_conv dropWhile_eq_Nil_conv)
  with sentry_ok [OF assms(1) w(2), of w'] show ?thesis
    by (simp add: extract_string_def flip: w(1)) (simp add: stringstream_def)
qed

lemma extract_number_eof: "st_eof s \<Longrightarrow> extract_number conv s = (None, s\<lparr>st_fail := True\<rparr>)"
  by (simp add: extract_number_def sentry_def)

text \<open>One turn of the loop.\<close>

lemma not_bad [simp]: "\<not> st_bad (stringstream s)"
  by (simp add: stringstream_def)

lemma loop_turn:
  assumes "list_all is_space ws" and "is_word opr" and "map_of (strategy_map get) opr = Some f"
    and "f (stringstream (CHR '' '' # args)) self = Inr (0, ss, self')"
  shows "dsl_loop get c (stringstream (ws @ opr @ CHR '' '' # args)) self = dsl_loop get c ss self'"
  using extract_string_ok [OF assms(1), of opr "CHR '' ''" args] assms(2-4) spaces
  by (simp add: dsl_loop.simps [of get c "stringstream (ws @ opr @ CHR '' '' # args)"] is_word_def)

lemma dsl_f64_reads:
  assumes "is_word k" and "f64_literal get t v"
  shows "dsl_f64 get (stringstream (CHR '' '' # k @ CHR '' '' # t @ CHR 0x0A # r)) self
    = Inr (0, stringstream (CHR 0x0A # r), snd (AddF64 k v self))"
  by (simp add: dsl_f64_def read_word(1) [OF assms(1)] read_f64 [OF assms(2)] used_def or_empty_def)

lemma dsl_string_reads:
  assumes k: "is_word k" and small: "Suc (length s) < 2 ^ 32" and nul: "c_string s = s"
  shows "dsl_string (stringstream (CHR '' '' # k @ CHR '' '' # show_nat (length s) @ CHR '' '' # s @ CHR 0x0A # r)) self
    = Inr (0, stringstream (CHR 0x0A # r), snd (AddString k s self))"
proof -
  let ?n = "word_of_nat (length s) :: u32" and ?rest = "s @ CHR 0x0A # r"
  have l: "length s < 2 ^ LENGTH(32)" "Suc (length s) < 2 ^ LENGTH(32)" using small by simp_all
  have "?n + 1 = word_of_nat (Suc (length s))" by (simp only: of_nat_Suc add.commute)
  then have n: "unat ?n = length s" "unat (?n + 1) = Suc (length s)"
    using unat_of_nat_small [OF l(1)] unat_of_nat_small [OF l(2)] by (simp_all only:)
  have len: "extract_u32 (stringstream (CHR '' '' # show_nat (length s) @ CHR '' '' # ?rest)) = (Some ?n, stringstream (CHR '' '' # ?rest))"
    using read_number(2) [of ?n ?rest] unfolding n(1) .
  show ?thesis
    by (simp add: dsl_string_def read_word(1) [OF k] len used_def or_empty_def read_ok(1) n read_ok(2) [of s "CHR 0x0A # r"] nul)
qed

text \<open>The commands with a number.\<close>

lemma loop_command_number:
  assumes "command_ok get cmd" and "list_all is_space ws"
    and "(\<exists>v. cmd = CmdId v) \<or> (\<exists>v. cmd = CmdTraceId v) \<or> (\<exists>v. cmd = CmdType v) \<or> (\<exists>k v. cmd = CmdI32 k v) \<or> (\<exists>k v. cmd = CmdI64 k v)"
  shows "dsl_loop get c (stringstream (ws @ command_words cmd @ CHR 0x0A # r)) self
    = dsl_loop get c (stringstream (CHR 0x0A # r)) (command_exec get cmd self)"
proof -
  note turn = loop_turn [OF assms(2), where self = self and c = c]
  note eval = is_word_def is_space_def strategy_map_def used_def or_empty_def Let_def
  show ?thesis
  proof (cases cmd)
    case (CmdId v)
    with turn [of "''id''" get dsl_id "show_nat (unat v) @ CHR 0x0A # r"] show ?thesis
      by (simp add: eval dsl_id_def read_number)
  next
    case (CmdTraceId v)
    with turn [of "''trace_id''" get dsl_trace_id "show_nat (unat v) @ CHR 0x0A # r"] show ?thesis
      by (simp add: eval dsl_trace_id_def read_number)
  next
    case (CmdType v)
    with turn [of "''type''" get dsl_type "show_nat (unat v) @ CHR 0x0A # r"] show ?thesis
      by (simp add: eval dsl_type_def read_number)
  next
    case (CmdI32 k v)
    with assms(1) turn [of "''i32''" get dsl_i32 "k @ CHR '' '' # show_int (sint v) @ CHR 0x0A # r"]
      read_word(1) [of k "show_int (sint v) @ CHR 0x0A # r"] show ?thesis
      by (simp add: eval dsl_i32_def read_number)
  next
    case (CmdI64 k v)
    with assms(1) turn [of "''i64''" get dsl_i64 "k @ CHR '' '' # show_int (sint v) @ CHR 0x0A # r"]
      read_word(1) [of k "show_int (sint v) @ CHR 0x0A # r"] show ?thesis
      by (simp add: eval dsl_i64_def read_number)
  qed (use assms(3) in simp_all)
qed

lemma loop_command:
  assumes "command_ok get cmd" and "obj_wf self" and "list_all is_space ws"
  shows "dsl_loop get c (stringstream (ws @ command_words cmd @ CHR 0x0A # r)) self
    = dsl_loop get c (stringstream (CHR 0x0A # r)) (command_exec get cmd self)"
proof -
  note turn = loop_turn [OF assms(3), where self = self and c = c]
  note eval = is_word_def is_space_def strategy_map_def used_def or_empty_def Let_def
  show ?thesis
  proof (cases cmd)
    case (CmdByte k b)
    have "extract_char (stringstream (CHR '' '' # b # CHR 0x0A # r)) = (Some b, stringstream (CHR 0x0A # r))"
      using extract_char_ok [of "'' ''" b "CHR 0x0A # r"] assms(1) spaces by (simp add: CmdByte)
    with assms(1) turn [of "''byte''" get dsl_byte "k @ CHR '' '' # b # CHR 0x0A # r"] read_word [of k "b # CHR 0x0A # r"] show ?thesis
      by (simp add: CmdByte eval dsl_byte_def)
  next
    case (CmdF64 k t)
    with assms(1) have l: "is_word k" "f64_literal get t (fst (get (t @ [CHR 0x0A])))" by simp_all
    from turn [where f = "dsl_f64 get" and opr = "''f64''" and get = get, OF _ _ dsl_f64_reads [OF l]] CmdF64 show ?thesis
      by (simp add: eval)
  next
    case (CmdString k s)
    with assms(1) have l: "is_word k" "Suc (length s) < 2 ^ 32" "c_string s = s"
      by (auto simp: c_string_def takeWhile_eq_all_conv)
    from turn [where f = dsl_string and opr = "''string''" and get = get, OF _ _ dsl_string_reads [OF l]] CmdString show ?thesis
      by (simp add: eval)
  next
    case (CmdStr k s)
    with assms(1) turn [of "''str''" get dsl_str "k @ CHR '' '' # s @ CHR 0x0A # r"]
      read_word(1) [of k "s @ CHR 0x0A # r"] read_word(2) [of s r]
    show ?thesis by (simp add: eval dsl_str_def)
  next
    case (CmdRemove k)
    obtain b self' where "RemoveField k self = Inr (b, self')" using RemoveField_correct [OF assms(2), of k] by auto
    with assms(1) turn [of "''remove''" get dsl_remove "k @ CHR 0x0A # r"] read_word(2) [of k r] show ?thesis
      by (simp add: CmdRemove eval dsl_remove_def)
  next
    case (CmdServiceName n)
    with assms(1) turn [of "''service_name''" get dsl_service_name "n @ CHR 0x0A # r"] read_word(2) [of n r] show ?thesis
      by (simp add: eval dsl_service_name_def)
  qed (use assms loop_command_number in blast)+
qed

lemma command_exec_wf: "obj_wf self \<Longrightarrow> obj_wf (command_exec get cmd self)"
proof (cases cmd)
  case (CmdRemove k)
  assume "obj_wf self"
  from RemoveField_correct [OF this, of k] CmdRemove show ?thesis by auto
qed simp_all

lemma loop_script:
  assumes "\<forall>cmd \<in> set cs. command_ok get cmd" and "obj_wf self" and "list_all is_space ws"
  shows "\<exists>ws'. list_all is_space ws' \<and> dsl_loop get c (stringstream (ws @ script cs @ r)) self
    = dsl_loop get c (stringstream (ws' @ r)) (fold (command_exec get) cs self)"
  using assms
proof (induction cs arbitrary: self ws)
  case Nil
  then show ?case by (auto simp: script_def)
next
  case (Cons cmd cs)
  have "list_all is_space [CHR 0x0A]" by (simp add: spaces)
  with Cons.IH [of "command_exec get cmd self" "[CHR 0x0A]"] Cons.prems(1,2) command_exec_wf obtain ws' where
    ws': "list_all is_space ws'" "dsl_loop get c (stringstream (CHR 0x0A # script cs @ r)) (command_exec get cmd self)
      = dsl_loop get c (stringstream (ws' @ r)) (fold (command_exec get) cs (command_exec get cmd self))" by auto
  have "script (cmd # cs) = command_words cmd @ CHR 0x0A # script cs" by (simp add: script_def)
  with loop_command [of get cmd self ws c "script cs @ r"] Cons.prems ws' show ?case by auto
qed

lemma dsl_loop_end: "list_all is_space ws \<Longrightarrow> dsl_loop get c (stringstream ws) self = Inr (c, self)"
  using extract_string_end [of ws] by (auto simp: dsl_loop.simps [of get c "stringstream ws"] split: prod.splits)

text \<open>
  C27. \<^verbatim>\<open>Dsl\<close> reads back what is written in its language: the text of any list of commands (numbers
  in decimal, with a sign if needed, names and words without white space, counted strings without a null character) is run command by command
  on the object, and the result is 0.
\<close>

theorem Dsl_script:
  assumes "\<forall>cmd \<in> set cs. command_ok get cmd" and "obj_wf self"
  shows "Dsl get (script cs) self = Inr (0, fold (command_exec get) cs self)"
  using loop_script [OF assms, of "[]" 0 "[]"] dsl_loop_end by (auto simp: Dsl_def)

text \<open>
  What \<^verbatim>\<open>Dsl\<close> does not report. After any commands, an integer field whose value does not
  start with a digit or sign gets the value 0, everything behind it is silently ignored, and the result is 0, the value for
  success; a field or id whose value is missing is an uninitialised variable.
\<close>

theorem Dsl_malformed_unreported:
  assumes "\<forall>cmd \<in> set cs. command_ok get cmd" and "obj_wf self" and "is_word k"
    and "\<not> is_space x" and "\<not> is_digit x" and "x \<notin> {CHR ''-'', CHR ''+''}"
  shows "Dsl get (script cs @ ''i32 '' @ k @ CHR '' '' # x # r) self
      = Inr (0, snd (AddI32 k 0 (fold (command_exec get) cs self)))
    \<and> Dsl get (script cs @ ''i32 '' @ k) self = Inl Uninitialised \<and> Dsl get (script cs @ ''id'') self = Inl Uninitialised"
proof (intro conjI)
  let ?self = "fold (command_exec get) cs self"
  note run = loop_script [OF assms(1,2), of "[]" 0]
  obtain s where s: "extract_number conv_signed (stringstream (CHR '' '' # x # r)) = (Some (0 :: i32), s)" "st_fail s" "\<not> st_bad s"
    using extract_number_malformed [of "'' ''" x conv_signed r] assms(4-6) spaces by auto
  have "dsl_i32 (stringstream (CHR '' '' # k @ CHR '' '' # x # r)) ?self = Inr (0, s, snd (AddI32 k 0 ?self))"
    using s read_word(1) [OF assms(3), of "x # r"] by (simp add: dsl_i32_def extract_i32_def used_def or_empty_def)
  then have "dsl_loop get 0 (stringstream (ws @ ''i32'' @ CHR '' '' # k @ CHR '' '' # x # r)) ?self = Inr (0, snd (AddI32 k 0 ?self))"
    if "list_all is_space ws" for ws
    using that s(2) extract_string_failed [OF s(2)]
    by (subst loop_turn [where f = dsl_i32 and ss = s])
      (auto simp: is_word_def is_space_def strategy_map_def dsl_loop.simps [of get 0 s] split: prod.splits)
  with run [of "''i32 '' @ k @ CHR '' '' # x # r"]
  show "Dsl get (script cs @ ''i32 '' @ k @ CHR '' '' # x # r) self = Inr (0, snd (AddI32 k 0 ?self))"
    by (auto simp: Dsl_def)
  obtain t where t: "extract_string (stringstream (CHR '' '' # k)) = (Some k, t)" "st_eof t" "\<not> st_bad t"
    using read_last_word [of "'' ''" k] assms(3) spaces by auto
  have "dsl_i32 (stringstream (CHR '' '' # k)) ?self = Inl Uninitialised"
    using t by (simp add: dsl_i32_def extract_i32_def used_def extract_number_eof)
  then have "dsl_loop get 0 (stringstream (ws @ ''i32'' @ CHR '' '' # k)) ?self = Inl Uninitialised"
    if "list_all is_space ws" for ws
    using extract_string_ok [OF that, of "''i32''" "CHR '' ''" k] spaces
    by (subst dsl_loop.simps) (simp add: strategy_map_def is_space_def)
  with run [of "''i32 '' @ k"] show "Dsl get (script cs @ ''i32 '' @ k) self = Inl Uninitialised"
    by (auto simp: Dsl_def)
  have "dsl_loop get 0 (stringstream (ws @ ''id'')) ?self = Inl Uninitialised" if ws: "list_all is_space ws" for ws
  proof -
    have "is_word ''id''" by (simp add: is_word_def is_space_def)
    then obtain t where "extract_string (stringstream (ws @ ''id'')) = (Some ''id'', t)" "st_eof t" "\<not> st_bad t"
      using read_last_word [OF ws] by auto
    then show ?thesis
      by (subst dsl_loop.simps) (simp add: strategy_map_def dsl_id_def extract_u32_def used_def extract_number_eof)
  qed
  with run [of "''id''"] show "Dsl get (script cs @ ''id'') self = Inl Uninitialised" by (auto simp: Dsl_def)
qed

theorem Dsl_outcomes_witness:
  "case Dsl (\<lambda>_. (0, 0, False)) ''nonsense'' new_object of Inr (r, self') \<Rightarrow> r \<in> {0, -1} \<and> obj_wf self'
    | Inl e \<Rightarrow> e \<in> {Uninitialised, OutOfBounds}"
  by (rule Dsl_outcomes) simp

theorem Dsl_script_witness:
  "Dsl (\<lambda>_. (0, 0, False)) (''id 7'' @ [CHR 0x0A] @ ''i32 n -12'' @ [CHR 0x0A] @ ''string s 3 a b'' @ [CHR 0x0A]) new_object
    = Inr (0, snd (AddString ''s'' ''a b'' (snd (AddI32 ''n'' (- 12) (SetId 7 new_object)))))"
proof -
  let ?get = "\<lambda>_. (0, 0, False)"
  let ?cs = "[CmdId 7, CmdI32 ''n'' (- 12), CmdString ''s'' ''a b'']"
  have ok: "\<forall>cmd \<in> set ?cs. command_ok ?get cmd" by (simp add: is_word_def is_space_def)
  have "script ?cs = ''id 7'' @ [CHR 0x0A] @ ''i32 n -12'' @ [CHR 0x0A] @ ''string s 3 a b'' @ [CHR 0x0A]"
    by (simp add: script_def show_int_def show_nat.simps digit_char_def) (simp add: char_of_def bit_0)
  with Dsl_script [OF ok new_object_wf] show ?thesis by simp
qed

theorem Dsl_malformed_unreported_witness:
  "Dsl (\<lambda>_. (0, 0, False)) ''i32 n five'' new_object = Inr (0, snd (AddI32 ''n'' 0 new_object))
    \<and> Dsl (\<lambda>_. (0, 0, False)) ''i32 n'' new_object = Inl Uninitialised"
  using Dsl_malformed_unreported [of "[]" "\<lambda>_. (0, 0, False)" new_object "''n''" "CHR ''f''" "''ive''"]
  by (simp add: script_def is_word_def is_space_def is_digit_def)

end
