(* ===== verification/Count_Storage.thy ===== *)
theory Count_Storage
  imports Blade_Prelude
begin

text \<open>
  The counters that the \<^verbatim>\<open>DataManager\<close> of atreus and the one of chaos keep: four
  \<^verbatim>\<open>CountStorage<int>\<close> each, updated through \<^verbatim>\<open>operator[]\<close>, which starts a missing name at 0.
  A counter is a C++ \<^verbatim>\<open>int\<close>: leaving its range is the fault \<open>SignedOverflow\<close>.
\<close>

type_synonym counts = "int storage"

record data_manager =
  querys :: counts
  errors :: counts
  shutdowns :: counts
  bytes :: counts

definition new_dm :: data_manager where
  "new_dm = \<lparr>querys = [], errors = [], shutdowns = [], bytes = []\<rparr>"

definition count_of :: "counts \<Rightarrow> string \<Rightarrow> int" where
  "count_of m k = (case map_of m k of None \<Rightarrow> 0 | Some v \<Rightarrow> v)"

definition count_add :: "string \<Rightarrow> int \<Rightarrow> counts \<Rightarrow> counts result" where \<comment> \<open>\<^verbatim>\<open>m[k] += n\<close>\<close>
  "count_add k n m = and_then (int_add (count_of m k) n) (\<lambda>v. Inr (kv_modify 0 (\<lambda>_. v) k m))"

definition count_half :: "string \<Rightarrow> counts \<Rightarrow> counts" where \<comment> \<open>\<^verbatim>\<open>m[k] /= 2\<close>\<close>
  "count_half k m = kv_modify 0 int_half k m"

definition counts_ok :: "counts \<Rightarrow> bool" where
  "counts_ok m \<longleftrightarrow> kv_wf m \<and> (\<forall>k. int_range (count_of m k))"

definition dm_ok :: "data_manager \<Rightarrow> bool" where
  "dm_ok dm \<longleftrightarrow> counts_ok (querys dm) \<and> counts_ok (errors dm) \<and> counts_ok (shutdowns dm) \<and> counts_ok (bytes dm)"

lemma counts_ok_Nil [simp]: "counts_ok []"
  by (simp add: counts_ok_def count_of_def int_range_def)

lemma count_of_modify: "count_of (kv_modify 0 f k m) = (count_of m)(k := f (count_of m k))"
  by (auto simp: count_of_def map_of_modify fun_eq_iff split: option.splits)

lemma count_add_Inr: "count_add k n m = Inr m' \<longleftrightarrow>
    int_range (count_of m k + n) \<and> m' = kv_modify 0 (\<lambda>_. count_of m k + n) k m"
  by (auto simp: count_add_def int_add_def)

lemma count_add_Inl: "count_add k n m = Inl e \<longleftrightarrow> \<not> int_range (count_of m k + n) \<and> e = SignedOverflow"
  by (auto simp: count_add_def int_add_def)

lemma map_of_count_add:
  "count_add k n m = Inr m' \<Longrightarrow> map_of m' = (map_of m)(k \<mapsto> count_of m k + n)"
  by (auto simp: count_add_Inr map_of_modify)

lemma int_half_range: "int_range x \<Longrightarrow> int_range (int_half x)"
  by (auto simp: int_range_def int_half_def)

lemma counts_ok_half: "counts_ok m \<Longrightarrow> counts_ok (count_half k m)"
  by (auto simp: counts_ok_def count_half_def count_of_modify int_half_range)

text \<open>
  The contract of a counter: an update adds to one name only, and the one way to fail is the overflow
  of that name's counter. What a whole sequence of updates does follows once and for all.
\<close>

locale counter =
  fixes bump :: "string \<Rightarrow> int \<Rightarrow> 's \<Rightarrow> 's result"
    and value_of :: "'s \<Rightarrow> string \<Rightarrow> int"
    and inv :: "'s \<Rightarrow> bool"
  assumes bump_ok: "inv s \<Longrightarrow> int_range (value_of s k + n) \<Longrightarrow>
      \<exists>s'. bump k n s = Inr s' \<and> inv s' \<and> value_of s' = (value_of s)(k := value_of s k + n)"
    and bump_overflow: "\<not> int_range (value_of s k + n) \<Longrightarrow> bump k n s = Inl SignedOverflow"
begin

fun bumps :: "(string \<times> int) list \<Rightarrow> 's \<Rightarrow> 's result" where
  "bumps [] s = Inr s"
| "bumps ((k, n) # us) s = and_then (bump k n s) (bumps us)"

lemma bump_Inr: "inv s \<Longrightarrow> bump k n s = Inr s' \<Longrightarrow> inv s' \<and> value_of s' = (value_of s)(k := value_of s k + n)"
  using bump_ok [of s k n] bump_overflow [of s k n] by (cases "int_range (value_of s k + n)") auto

lemma bumps_total:
  "inv s \<Longrightarrow> bumps us s = Inr s' \<Longrightarrow>
    inv s' \<and> value_of s' k = value_of s k + (\<Sum>(n, x) \<leftarrow> us. if n = k then x else 0)"
proof (induction us arbitrary: s)
  case (Cons u us)
  obtain n x where u: "u = (n, x)" by (cases u)
  with Cons.prems(2) obtain s1 where s1: "bump n x s = Inr s1" "bumps us s1 = Inr s'"
    by (auto simp: and_then_Inr_iff)
  from bump_Inr [OF Cons.prems(1) s1(1)] Cons.IH [OF _ s1(2)] u show ?case by auto
qed simp

lemma bumps_ones:
  "inv s \<Longrightarrow> (\<And>k. 0 \<le> value_of s k \<and> value_of s k + int (length ks) < 2 ^ 31) \<Longrightarrow>
    \<exists>s'. bumps (map (\<lambda>k. (k, 1)) ks) s = Inr s' \<and> inv s' \<and> (\<forall>k. value_of s' k = value_of s k + int (count_list ks k))"
proof (induction ks arbitrary: s)
  case (Cons a ks)
  have "int_range (value_of s a + 1)" using Cons.prems(2) [of a] by (simp add: int_range_def)
  from bump_ok [OF Cons.prems(1) this] obtain s1 where
    s1: "bump a 1 s = Inr s1" "inv s1" "value_of s1 = (value_of s)(a := value_of s a + 1)" by blast
  have "0 \<le> value_of s1 k \<and> value_of s1 k + int (length ks) < 2 ^ 31" for k
    using Cons.prems(2) [of k] s1(3) by auto
  from Cons.IH [OF s1(2) this] obtain s' where "bumps (map (\<lambda>k. (k, 1)) ks) s1 = Inr s'" "inv s'"
    "\<forall>k. value_of s' k = value_of s1 k + int (count_list ks k)" by blast
  with s1 show ?case by auto
qed simp

end

lemma count_add_ok:
  "counts_ok m \<Longrightarrow> int_range (count_of m k + n) \<Longrightarrow>
    \<exists>m'. count_add k n m = Inr m' \<and> counts_ok m' \<and> count_of m' = (count_of m)(k := count_of m k + n)"
  by (auto simp: count_add_Inr count_of_modify counts_ok_def)

interpretation counts: counter count_add count_of counts_ok
  by unfold_locales (simp_all add: count_add_ok count_add_Inl)

end
