(* ===== verification/Atreus_Managers.thy ===== *)
theory Atreus_Managers
  imports Blade_Object Count_Storage
begin

text \<open>
  The two singletons of an atreus process: the registry of local services
  (atreus/util/service\_manager) and the counters it reports to chaos (atreus/util/data\_manager).

  Every public operation of the registry takes the lock of \<open>Blade_RWLock\<close>, so a critical section is
  one atomic function. \<^verbatim>\<open>Deregister\<close> and \<^verbatim>\<open>Query\<close> take it twice, with other threads free to run
  between the two sections: they are given both as the sequential composition and with an arbitrary
  list of sections in between.
\<close>

section \<open>The registry of local services\<close>

type_synonym services = "port storage"

definition AtreusSM_Register_UNSAFE :: "string \<Rightarrow> port \<Rightarrow> services \<Rightarrow> services" where
  "AtreusSM_Register_UNSAFE name prt services = kv_emplace name prt services"

definition AtreusSM_Contains_UNSAFE :: "string \<Rightarrow> services \<Rightarrow> bool" where
  "AtreusSM_Contains_UNSAFE name services = (map_of services name \<noteq> None)"

definition AtreusSM_Deregister_UNSAFE :: "string \<Rightarrow> services \<Rightarrow> services" where
  "AtreusSM_Deregister_UNSAFE name services =
     (if \<not> AtreusSM_Contains_UNSAFE name services then services else kv_erase name services)"

text \<open>\<^verbatim>\<open>services_[name]\<close> inserts port 0 for a name that is not there.\<close>

definition subscript :: "string \<Rightarrow> services \<Rightarrow> port \<times> services" where
  "subscript name services =
     (let services = kv_emplace name 0 services in (the (map_of services name), services))"

definition AtreusSM_Query_UNSAFE :: "string \<Rightarrow> services \<Rightarrow> port option \<times> services" where
  "AtreusSM_Query_UNSAFE name services =
     (if \<not> AtreusSM_Contains_UNSAFE name services then (None, services)
      else let (prt, services) = subscript name services in (Some prt, services))"

definition AtreusSM_GetSize :: "services \<Rightarrow> int" where
  "AtreusSM_GetSize services = to_int32 (int (length services))"

definition AtreusSM_Iterate_UNSAFE :: "('s \<Rightarrow> string \<Rightarrow> port \<Rightarrow> 's result) \<Rightarrow> services \<Rightarrow> 's \<Rightarrow> 's result" where
  "AtreusSM_Iterate_UNSAFE f services s = fold (\<lambda>(n, p) r. and_then r (\<lambda>s. f s n p)) services (Inr s)"

text \<open>
  The critical sections of the locked operations, and a run of them by any threads. \<^verbatim>\<open>Register\<close> and
  \<^verbatim>\<open>Contains\<close> are one section; \<^verbatim>\<open>Deregister\<close> is \<^verbatim>\<open>Contains\<close> and, if it held, an erase;
  \<^verbatim>\<open>Query\<close> is \<^verbatim>\<open>Contains\<close> and, if it held, a subscript.
\<close>

datatype sm_section = SecRegister string port | SecErase string | SecSubscript string

fun sm_exec :: "sm_section \<Rightarrow> services \<Rightarrow> services" where
  "sm_exec (SecRegister name prt) services = kv_emplace name prt services"
| "sm_exec (SecErase name) services = kv_erase name services"
| "sm_exec (SecSubscript name) services = snd (subscript name services)"

definition AtreusSM_Register :: "string \<Rightarrow> port \<Rightarrow> services \<Rightarrow> services" where
  "AtreusSM_Register name prt services = kv_emplace name prt services"

definition AtreusSM_Contains :: "string \<Rightarrow> services \<Rightarrow> bool" where
  "AtreusSM_Contains name services = (map_of services name \<noteq> None)"

definition AtreusSM_Deregister :: "sm_section list \<Rightarrow> string \<Rightarrow> services \<Rightarrow> services" where
  "AtreusSM_Deregister others name services =
     (if \<not> AtreusSM_Contains name services then services
      else kv_erase name (fold sm_exec others services))"

definition AtreusSM_Query :: "sm_section list \<Rightarrow> string \<Rightarrow> services \<Rightarrow> port option \<times> services" where
  "AtreusSM_Query others name services =
     (if \<not> AtreusSM_Contains name services then (None, services)
      else let (prt, services) = subscript name (fold sm_exec others services) in (Some prt, services))"

lemmas sm_defs = AtreusSM_Register_def AtreusSM_Contains_def AtreusSM_Deregister_def AtreusSM_Query_def
  AtreusSM_Register_UNSAFE_def AtreusSM_Contains_UNSAFE_def AtreusSM_Deregister_UNSAFE_def
  AtreusSM_Query_UNSAFE_def subscript_def Let_def

text \<open>What a client of a registry relies on; the locked and the unlocked operations provide it.\<close>

datatype 'v reg_cmd = CmdRegister string 'v | CmdDeregister string | CmdQuery string

fun reg_spec :: "'v reg_cmd \<Rightarrow> (string \<Rightarrow> 'v option) \<Rightarrow> (string \<Rightarrow> 'v option) \<times> 'v option" where
  "reg_spec (CmdRegister n v) m = (if m n = None then m(n \<mapsto> v) else m, None)"
| "reg_spec (CmdDeregister n) m = (m(n := None), None)"
| "reg_spec (CmdQuery n) m = (m, m n)"

fun run_cmds :: "('c \<Rightarrow> 's \<Rightarrow> 's \<times> 'r) \<Rightarrow> 'c list \<Rightarrow> 's \<Rightarrow> 's \<times> 'r list" where
  "run_cmds f [] s = (s, [])"
| "run_cmds f (c # cs) s = (let (s, r) = f c s; (s, rs) = run_cmds f cs s in (s, r # rs))"

fun reg_exec ::
  "(string \<Rightarrow> 'v \<Rightarrow> 's \<Rightarrow> 's) \<Rightarrow> (string \<Rightarrow> 's \<Rightarrow> 's) \<Rightarrow> (string \<Rightarrow> 's \<Rightarrow> 'v option \<times> 's)
   \<Rightarrow> 'v reg_cmd \<Rightarrow> 's \<Rightarrow> 's \<times> 'v option" where
  "reg_exec register deregister query (CmdRegister n v) s = (register n v s, None)"
| "reg_exec register deregister query (CmdDeregister n) s = (deregister n s, None)"
| "reg_exec register deregister query (CmdQuery n) s = (let (r, s) = query n s in (s, r))"

locale registry =
  fixes register :: "string \<Rightarrow> 'v \<Rightarrow> 's \<Rightarrow> 's"
    and deregister :: "string \<Rightarrow> 's \<Rightarrow> 's"
    and query :: "string \<Rightarrow> 's \<Rightarrow> 'v option \<times> 's"
    and view :: "'s \<Rightarrow> string \<Rightarrow> 'v option"
    and inv :: "'s \<Rightarrow> bool"
  assumes view_register: "view (register n v s) = (if view s n = None then (view s)(n \<mapsto> v) else view s)"
    and view_deregister: "view (deregister n s) = (view s)(n := None)"
    and query_view: "query n s = (view s n, s)"
    and inv_register: "inv s \<Longrightarrow> inv (register n v s)"
    and inv_deregister: "inv s \<Longrightarrow> inv (deregister n s)"
begin

lemma first_port_wins: "view s n = Some v \<Longrightarrow> fst (query n (register n w s)) = Some v"
  by (simp add: query_view view_register)

lemma register_then_query: "view s n = None \<Longrightarrow> fst (query n (register n v s)) = Some v"
  by (simp add: query_view view_register)

lemma deregister_then_query: "fst (query n (deregister n s)) = None"
  by (simp add: query_view view_deregister)

lemma others_untouched: "m \<noteq> n \<Longrightarrow> fst (query m (deregister n (register n v s))) = fst (query m s)"
  by (simp add: query_view view_register view_deregister)

lemma move_service: "fst (query n (register n v (deregister n s))) = Some v"
  by (simp add: query_view view_register view_deregister)

lemma commands_refine:
  "inv s \<Longrightarrow> case run_cmds (reg_exec register deregister query) cs s of (s', rs) \<Rightarrow>
    inv s' \<and> run_cmds reg_spec cs (view s) = (view s', rs)"
proof (induction cs arbitrary: s)
  case (Cons c cs)
  let ?s = "fst (reg_exec register deregister query c s)"
  have "inv ?s" and "reg_spec c (view s) = (view ?s, snd (reg_exec register deregister query c s))"
    using Cons.prems
    by (cases c; simp add: inv_register inv_deregister view_register view_deregister query_view)+
  with Cons.IH [of ?s] show ?case by (auto simp: Let_def split: prod.splits)
qed simp

end

lemma subscript_present: "map_of s n = Some p \<Longrightarrow> subscript n s = (p, s)"
  by (simp add: subscript_def kv_emplace_def)

interpretation locked_sm: registry AtreusSM_Register "AtreusSM_Deregister []" "AtreusSM_Query []" map_of kv_wf
proof
  fix n v s
  show "map_of (AtreusSM_Register n v s) = (if map_of s n = None then (map_of s)(n \<mapsto> v) else map_of s)"
    by (simp add: AtreusSM_Register_def map_of_emplace)
  show "map_of (AtreusSM_Deregister [] n s) = (map_of s)(n := None)"
    by (auto simp: AtreusSM_Deregister_def AtreusSM_Contains_def kv.lookup_erase)
  show "AtreusSM_Query [] n s = (map_of s n, s)"
    by (auto simp: AtreusSM_Query_def AtreusSM_Contains_def subscript_present)
qed (auto simp: AtreusSM_Register_def AtreusSM_Deregister_def)

interpretation unlocked_sm: registry AtreusSM_Register_UNSAFE AtreusSM_Deregister_UNSAFE AtreusSM_Query_UNSAFE map_of kv_wf
proof
  fix n v s
  show "map_of (AtreusSM_Register_UNSAFE n v s) = (if map_of s n = None then (map_of s)(n \<mapsto> v) else map_of s)"
    by (simp add: AtreusSM_Register_UNSAFE_def map_of_emplace)
  show "map_of (AtreusSM_Deregister_UNSAFE n s) = (map_of s)(n := None)"
    by (auto simp: AtreusSM_Deregister_UNSAFE_def AtreusSM_Contains_UNSAFE_def kv.lookup_erase)
  show "AtreusSM_Query_UNSAFE n s = (map_of s n, s)"
    by (auto simp: AtreusSM_Query_UNSAFE_def AtreusSM_Contains_UNSAFE_def subscript_present)
qed (auto simp: AtreusSM_Register_UNSAFE_def AtreusSM_Deregister_UNSAFE_def)

text \<open>
  C21. The local registry is a map in which the first registration of a name wins. Any sequence of
  \<^verbatim>\<open>Register\<close>, \<^verbatim>\<open>Deregister\<close> and \<^verbatim>\<open>Query\<close>, each run without interference, gives the
  answers and the final content of the specification on finite maps, and so do the unlocked variants
  that \<^verbatim>\<open>Watchdog\<close> uses; the containers stay well formed.
\<close>

theorem AtreusSM_refines_map:
  assumes "kv_wf s"
  shows "(case run_cmds (reg_exec AtreusSM_Register (AtreusSM_Deregister []) (AtreusSM_Query [])) cs s of
      (s', rs) \<Rightarrow> kv_wf s' \<and> run_cmds reg_spec cs (map_of s) = (map_of s', rs))
    \<and> (case run_cmds (reg_exec AtreusSM_Register_UNSAFE AtreusSM_Deregister_UNSAFE AtreusSM_Query_UNSAFE) cs s of
      (s', rs) \<Rightarrow> kv_wf s' \<and> run_cmds reg_spec cs (map_of s) = (map_of s', rs))"
  by (intro conjI locked_sm.commands_refine [OF assms] unlocked_sm.commands_refine [OF assms])

theorem AtreusSM_refines_map_witness:
  "snd (run_cmds (reg_exec AtreusSM_Register (AtreusSM_Deregister []) (AtreusSM_Query []))
     [CmdRegister ''a'' 80, CmdRegister ''a'' 81, CmdQuery ''a'', CmdDeregister ''a'', CmdQuery ''a''] [])
   = [None, None, Some 80, None, None]"
proof -
  let ?cs = "[CmdRegister ''a'' (80 :: port), CmdRegister ''a'' 81, CmdQuery ''a'', CmdDeregister ''a'', CmdQuery ''a'']"
  have "snd (run_cmds reg_spec ?cs (map_of [])) = [None, None, Some 80, None, None]" by simp
  with AtreusSM_refines_map [of "[]" ?cs] show ?thesis
    by (auto simp del: run_cmds.simps reg_spec.simps split: prod.splits)
qed

lemma sm_exec_keeps:
  "map_of s n = Some p \<Longrightarrow> SecErase n \<notin> set others \<Longrightarrow> map_of (fold sm_exec others s) n = Some p"
proof (induction others arbitrary: s)
  case (Cons c cs)
  then have "map_of (sm_exec c s) n = Some p"
    by (cases c) (auto simp: map_of_emplace kv.lookup_erase subscript_def Let_def)
  with Cons show ?case by simp
qed simp

lemma sm_exec_wf: "kv_wf s \<Longrightarrow> kv_wf (fold sm_exec others s)"
proof (induction others arbitrary: s)
  case (Cons c cs)
  then have "kv_wf (sm_exec c s)" by (cases c) (auto simp: subscript_def Let_def)
  with Cons show ?case by simp
qed simp

text \<open>
  \<^verbatim>\<open>Query\<close> is not one critical section. Sections of other threads that run between its
  \<^verbatim>\<open>Contains\<close> and its subscript are harmless as long as none erases the name; if the last of
  them does, \<^verbatim>\<open>Query\<close> does not report the absence: it gives port 0 and leaves the erased
  service registered at port 0.
\<close>

theorem AtreusSM_Query_race:
  assumes "kv_wf s" and "map_of s n = Some p"
  shows "(SecErase n \<notin> set others \<longrightarrow> AtreusSM_Query others n s = (Some p, fold sm_exec others s))
    \<and> (let (r, s') = AtreusSM_Query (others @ [SecErase n]) n s in
         r = Some 0 \<and> map_of s' = (map_of (fold sm_exec others s))(n \<mapsto> 0) \<and> kv_wf s')"
proof -
  have "AtreusSM_Query others n s = (Some p, fold sm_exec others s)" if "SecErase n \<notin> set others"
    using sm_exec_keeps [OF assms(2) that] assms(2)
    by (simp add: AtreusSM_Query_def AtreusSM_Contains_def subscript_present)
  moreover have "let (r, s') = AtreusSM_Query (others @ [SecErase n]) n s in
      r = Some 0 \<and> map_of s' = (map_of (fold sm_exec others s))(n \<mapsto> 0) \<and> kv_wf s'"
    using assms sm_exec_wf [OF assms(1), of others]
    by (auto simp: AtreusSM_Query_def AtreusSM_Contains_def subscript_def Let_def map_of_emplace kv.lookup_erase)
  ultimately show ?thesis by blast
qed

theorem AtreusSM_Query_race_witness:
  "fst (AtreusSM_Query [SecErase ''a''] ''a'' [(''a'', 80)]) = Some 0"
  using AtreusSM_Query_race [of "[(''a'', 80)]" "''a''" 80 "[]"] by (auto simp: kv_wf_def Let_def split: prod.splits)

section \<open>The counters\<close>

definition AtreusDM_DoQuery :: "string \<Rightarrow> data_manager \<Rightarrow> data_manager result" where
  "AtreusDM_DoQuery name dm = and_then (count_add name 1 (querys dm)) (\<lambda>m. Inr (dm\<lparr>querys := m\<rparr>))"

definition AtreusDM_DoError :: "string \<Rightarrow> data_manager \<Rightarrow> data_manager result" where
  "AtreusDM_DoError name dm = and_then (count_add name 1 (errors dm)) (\<lambda>m. Inr (dm\<lparr>errors := m\<rparr>))"

definition AtreusDM_DoShutdown :: "string \<Rightarrow> data_manager \<Rightarrow> data_manager result" where
  "AtreusDM_DoShutdown name dm = and_then (count_add name 1 (shutdowns dm)) (\<lambda>m. Inr (dm\<lparr>shutdowns := m\<rparr>))"

definition AtreusDM_DoBytes :: "string \<Rightarrow> int \<Rightarrow> data_manager \<Rightarrow> data_manager result" where
  "AtreusDM_DoBytes name n dm =
     and_then (count_add name n (bytes dm)) (\<lambda>m. Inr (dm\<lparr>bytes := count_half name m\<rparr>))"

text \<open>The common body of the four reports: a request with one \<^verbatim>\<open>I32\<close> field per counter.\<close>

definition add_counts :: "counts \<Rightarrow> blade_object \<Rightarrow> blade_object" where
  "add_counts m ret = fold (\<lambda>(k, v) ret. snd (AddI32 k (word_of_int v) ret)) m ret"

definition AtreusDM_QueryReport :: "u32 \<Rightarrow> data_manager \<Rightarrow> blade_object \<times> data_manager" where
  "AtreusDM_QueryReport gid dm =
     (let ret = NewRequest gid kWatchdogServiceName kChaosReport;
          ret = add_counts (querys dm) ret
      in (snd (AddI64 kChaosReportType 1 ret), dm\<lparr>querys := []\<rparr>))"

definition AtreusDM_ErrorReport :: "u32 \<Rightarrow> data_manager \<Rightarrow> blade_object \<times> data_manager" where
  "AtreusDM_ErrorReport gid dm =
     (let ret = NewRequest gid kWatchdogServiceName kChaosReport;
          ret = add_counts (errors dm) ret
      in (snd (AddI64 kChaosReportType 2 ret), dm\<lparr>errors := []\<rparr>))"

definition AtreusDM_ShutdownReport :: "u32 \<Rightarrow> data_manager \<Rightarrow> blade_object \<times> data_manager" where
  "AtreusDM_ShutdownReport gid dm =
     (let ret = NewRequest gid kWatchdogServiceName kChaosReport;
          ret = add_counts (shutdowns dm) ret
      in (snd (AddI64 kChaosReportType 3 ret), dm\<lparr>shutdowns := []\<rparr>))"

definition AtreusDM_BytesReport :: "u32 \<Rightarrow> data_manager \<Rightarrow> blade_object \<times> data_manager" where
  "AtreusDM_BytesReport gid dm =
     (let ret = NewRequest gid kWatchdogServiceName kChaosReport;
          ret = add_counts (bytes dm) ret
      in (snd (AddI64 kChaosReportType 4 ret), dm\<lparr>bytes := []\<rparr>))"

lemmas dm_report_defs = AtreusDM_QueryReport_def AtreusDM_ErrorReport_def AtreusDM_ShutdownReport_def
  AtreusDM_BytesReport_def Let_def

text \<open>
  The three event counters keep the contract of a counter (an event adds 1; the step is a parameter
  here only to fit the contract).
\<close>

interpretation atreus_querys: counter
  "\<lambda>k n dm. and_then (count_add k n (querys dm)) (\<lambda>m. Inr (dm\<lparr>querys := m\<rparr>))" "\<lambda>dm. count_of (querys dm)" dm_ok
proof
  show "\<exists>s'. and_then (count_add k n (querys s)) (\<lambda>m. Inr (s\<lparr>querys := m\<rparr>)) = Inr s' \<and> dm_ok s'
      \<and> count_of (querys s') = (count_of (querys s))(k := count_of (querys s) k + n)"
    if "dm_ok s" "int_range (count_of (querys s) k + n)" for s k n
    using counts.bump_ok [of "querys s" k n] that by (auto simp: dm_ok_def)
qed (simp add: counts.bump_overflow)

interpretation atreus_errors: counter
  "\<lambda>k n dm. and_then (count_add k n (errors dm)) (\<lambda>m. Inr (dm\<lparr>errors := m\<rparr>))" "\<lambda>dm. count_of (errors dm)" dm_ok
proof
  show "\<exists>s'. and_then (count_add k n (errors s)) (\<lambda>m. Inr (s\<lparr>errors := m\<rparr>)) = Inr s' \<and> dm_ok s'
      \<and> count_of (errors s') = (count_of (errors s))(k := count_of (errors s) k + n)"
    if "dm_ok s" "int_range (count_of (errors s) k + n)" for s k n
    using counts.bump_ok [of "errors s" k n] that by (auto simp: dm_ok_def)
qed (simp add: counts.bump_overflow)

interpretation atreus_shutdowns: counter
  "\<lambda>k n dm. and_then (count_add k n (shutdowns dm)) (\<lambda>m. Inr (dm\<lparr>shutdowns := m\<rparr>))" "\<lambda>dm. count_of (shutdowns dm)" dm_ok
proof
  show "\<exists>s'. and_then (count_add k n (shutdowns s)) (\<lambda>m. Inr (s\<lparr>shutdowns := m\<rparr>)) = Inr s' \<and> dm_ok s'
      \<and> count_of (shutdowns s') = (count_of (shutdowns s))(k := count_of (shutdowns s) k + n)"
    if "dm_ok s" "int_range (count_of (shutdowns s) k + n)" for s k n
    using counts.bump_ok [of "shutdowns s" k n] that by (auto simp: dm_ok_def)
qed (simp add: counts.bump_overflow)

lemma add_counts_fields:
  "obj_wf ret \<Longrightarrow> kv_wf m \<Longrightarrow> obj_wf (add_counts m ret)
    \<and> field_map (add_counts m ret) = (\<lambda>k. case field_map ret k of Some v \<Rightarrow> Some v
        | None \<Rightarrow> map_option (\<lambda>v. VI32 (word_of_int v)) (map_of m k))"
proof (induction m arbitrary: ret)
  case Nil
  then show ?case by (auto simp: add_counts_def fun_eq_iff split: option.splits)
next
  case (Cons e m)
  obtain k v where e: "e = (k, v)" by (cases e)
  have "add_counts (e # m) ret = add_counts m (snd (AddI32 k (word_of_int v) ret))"
    by (simp add: add_counts_def e)
  moreover have "map_of m k = None" "kv_wf m"
    using Cons.prems(2) e by (auto simp: kv_wf_def map_of_eq_None_iff)
  ultimately show ?case
    using Cons.IH [of "snd (AddI32 k (word_of_int v) ret)"] Cons.prems(1) e
    by (auto simp: fields_adds i32_field.wf_add fun_eq_iff split: option.splits)
qed

lemma add_counts_frame:
  "GetType (add_counts m ret) = GetType ret \<and> bo_service_name (add_counts m ret) = bo_service_name ret"
proof (induction m arbitrary: ret)
  case (Cons e m)
  have "add_counts (e # m) ret = add_counts m (snd (AddI32 (fst e) (word_of_int (snd e)) ret))"
    by (simp add: add_counts_def split_beta)
  with Cons show ?case by (simp add: AddI32_def GetType_def)
qed (simp add: add_counts_def)

definition report_fields :: "i64 \<Rightarrow> counts \<Rightarrow> string \<Rightarrow> field_value option" where
  "report_fields kind m = (\<lambda>k. if k = kRequestService then Some (VString kChaosReport)
     else case map_of m k of Some v \<Rightarrow> Some (VI32 (word_of_int v))
     | None \<Rightarrow> if k = kChaosReportType then Some (VI64 kind) else None)"

lemma report_fields_eq:
  assumes "kv_wf m"
  shows "obj_wf (snd (AddI64 kChaosReportType kind (add_counts m (NewRequest g s kChaosReport))))
    \<and> field_map (snd (AddI64 kChaosReportType kind (add_counts m (NewRequest g s kChaosReport)))) = report_fields kind m"
  using add_counts_fields [of "NewRequest g s kChaosReport" m] assms
  by (auto simp: fields_adds i64_field.wf_add report_fields_def fun_eq_iff protocol_names split: option.splits)

text \<open>
  Reports. Each of the four reports is a request to \<^verbatim>\<open>#REPORT\<close> from \<^verbatim>\<open>#WD\<close> that holds one
  \<^verbatim>\<open>I32\<close> field per counter, its kind (1 to 4) in the \<^verbatim>\<open>I64\<close> field \<^verbatim>\<open>#CHAOS_RT\<close>, and resets
  the reported counters and no others. Two names cannot be reported: a counter named
  \<^verbatim>\<open>#CALL_NAME\<close> is dropped, and one named \<^verbatim>\<open>#CHAOS_RT\<close> takes the place of the kind.
\<close>

theorem AtreusDM_reports:
  assumes "dm_ok dm"
  shows "(let (r, dm') = AtreusDM_QueryReport g dm in
      obj_wf r \<and> field_map r = report_fields 1 (querys dm) \<and> dm' = dm\<lparr>querys := []\<rparr>)
    \<and> (let (r, dm') = AtreusDM_ErrorReport g dm in
      obj_wf r \<and> field_map r = report_fields 2 (errors dm) \<and> dm' = dm\<lparr>errors := []\<rparr>)
    \<and> (let (r, dm') = AtreusDM_ShutdownReport g dm in
      obj_wf r \<and> field_map r = report_fields 3 (shutdowns dm) \<and> dm' = dm\<lparr>shutdowns := []\<rparr>)
    \<and> (let (r, dm') = AtreusDM_BytesReport g dm in
      obj_wf r \<and> field_map r = report_fields 4 (bytes dm) \<and> dm' = dm\<lparr>bytes := []\<rparr>)"
  using assms by (simp add: dm_report_defs report_fields_eq dm_ok_def counts_ok_def)

theorem AtreusDM_reports_witness:
  "field_map (fst (AtreusDM_QueryReport 7 (new_dm\<lparr>querys := [(''a'', 3)]\<rparr>))) ''a'' = Some (VI32 3)"
proof -
  have "dm_ok (new_dm\<lparr>querys := [(''a'', 3)]\<rparr>)"
    by (auto simp: dm_ok_def new_dm_def counts_ok_def kv_wf_def count_of_def int_range_def)
  from AtreusDM_reports [OF this, of 7] show ?thesis
    by (auto simp: report_fields_def new_dm_def protocol_names)
qed

text \<open>A history of the query counters: \<open>Some k\<close> is a query for \<open>k\<close>, \<open>None\<close> a report.\<close>

fun query_history :: "u32 \<Rightarrow> string option list \<Rightarrow> data_manager \<Rightarrow> (data_manager \<times> blade_object list) result" where
  "query_history g [] dm = Inr (dm, [])"
| "query_history g (Some k # es) dm = and_then (AtreusDM_DoQuery k dm) (query_history g es)"
| "query_history g (None # es) dm = (let (r, dm) = AtreusDM_QueryReport g dm in
     and_then (query_history g es dm) (\<lambda>(dm, rs). Inr (dm, r # rs)))"

definition reported :: "string \<Rightarrow> blade_object \<Rightarrow> int" where
  "reported k r = (case field_map r k of Some (VI32 w) \<Rightarrow> sint w | _ \<Rightarrow> 0)"

lemma reported_report:
  assumes "counts_ok m" and "k \<noteq> kRequestService" and "field_map r = report_fields kind m"
  shows "reported k r = count_of m k"
proof (cases "map_of m k")
  case (Some v)
  then have "int_range v" using assms(1) by (metis count_of_def counts_ok_def option.simps(5))
  with Some assms(2,3) show ?thesis by (simp add: reported_def report_fields_def count_of_def sint_of_int_range)
qed (use assms(2,3) in \<open>simp add: reported_def report_fields_def count_of_def\<close>)

lemma query_history_total:
  assumes "dm_ok dm" and "k \<noteq> kRequestService"
    and "\<And>k. 0 \<le> count_of (querys dm) k \<and> count_of (querys dm) k + int (length es) < 2 ^ 31"
  shows "\<exists>dm' rs. query_history g es dm = Inr (dm', rs) \<and> dm_ok dm'
    \<and> (\<Sum>r \<leftarrow> rs. reported k r) + count_of (querys dm') k
      = count_of (querys dm) k + int (count_list es (Some k))"
  using assms(1,3)
proof (induction es arbitrary: dm)
  case (Cons e es)
  show ?case
  proof (cases e)
    case None
    let ?dm = "dm\<lparr>querys := []\<rparr>"
    have ok: "dm_ok ?dm" using Cons.prems(1) by (simp add: dm_ok_def)
    have bound: "0 \<le> count_of (querys ?dm) k \<and> count_of (querys ?dm) k + int (length es) < 2 ^ 31" for k
      using Cons.prems(2) [of k] by (simp add: count_of_def)
    from Cons.IH [OF ok bound] obtain dm' rs where
      ih: "query_history g es ?dm = Inr (dm', rs)" "dm_ok dm'"
      "(\<Sum>r \<leftarrow> rs. reported k r) + count_of (querys dm') k = int (count_list es (Some k))"
      by (auto simp: count_of_def)
    obtain r where r: "AtreusDM_QueryReport g dm = (r, ?dm)" "field_map r = report_fields 1 (querys dm)"
      using Cons.prems(1) by (simp add: AtreusDM_QueryReport_def Let_def report_fields_eq dm_ok_def counts_ok_def)
    have "reported k r = count_of (querys dm) k"
      using reported_report [OF _ assms(2) r(2)] Cons.prems(1) by (simp add: dm_ok_def)
    with ih r(1) None show ?thesis by simp
  next
    case (Some n)
    have "int_range (count_of (querys dm) n + 1)" using Cons.prems(2) [of n] by (simp add: int_range_def)
    from atreus_querys.bump_ok [OF Cons.prems(1) this] obtain dm1 where
      dm1: "AtreusDM_DoQuery n dm = Inr dm1" "dm_ok dm1"
      "count_of (querys dm1) = (count_of (querys dm))(n := count_of (querys dm) n + 1)"
      unfolding AtreusDM_DoQuery_def by blast
    have "0 \<le> count_of (querys dm1) k \<and> count_of (querys dm1) k + int (length es) < 2 ^ 31" for k
      using Cons.prems(2) [of k] dm1(3) by auto
    from Cons.IH [OF dm1(2) this] dm1 Some show ?thesis by auto
  qed
qed simp

text \<open>
  C32. No query of a name other than \<^verbatim>\<open>#CALL_NAME\<close> is lost or counted twice on its way into the reports. From empty
  counters, any history of fewer than \<open>2 ^ 31\<close> queries and reports runs without overflow, and for every such name the
  values in the reports sent plus what is still stored add up to the number of its queries. (\<^verbatim>\<open>#CALL_NAME\<close> is a field of the
  report itself: \<^verbatim>\<open>AddI32\<close> refuses a counter of that name, and it is cleared with the others.)
\<close>

theorem AtreusDM_queries_conserved:
  assumes "length es < 2 ^ 31" and "k \<noteq> kRequestService"
  shows "\<exists>dm rs. query_history g es new_dm = Inr (dm, rs) \<and> dm_ok dm
    \<and> (\<Sum>r \<leftarrow> rs. reported k r) + count_of (querys dm) k = int (count_list es (Some k))"
proof -
  have ok: "dm_ok new_dm" by (simp add: dm_ok_def new_dm_def)
  have "0 \<le> count_of (querys new_dm) k \<and> count_of (querys new_dm) k + int (length es) < 2 ^ 31" for k
    using assms(1) by (simp add: new_dm_def count_of_def)
  from query_history_total [OF ok assms(2) this, of g] show ?thesis
    by (simp add: new_dm_def count_of_def)
qed

theorem AtreusDM_queries_conserved_witness:
  "\<exists>dm rs. query_history 7 [Some ''a'', None, Some ''a'', Some ''b''] new_dm = Inr (dm, rs)
    \<and> (\<Sum>r \<leftarrow> rs. reported ''a'' r) + count_of (querys dm) ''a'' = 2"
  using AtreusDM_queries_conserved [of "[Some ''a'', None, Some ''a'', Some ''b'']" "''a''" 7]
  by (auto simp: protocol_names simp del: query_history.simps)

text \<open>
  The average of bytes. \<^verbatim>\<open>DoBytes\<close> replaces the average of a name by half the sum of it and the new
  value: it never leaves the range of the values seen so far (counting the initial 0) and changes no
  other name. It is no arithmetic mean: the first value is halved too.
\<close>

theorem AtreusDM_DoBytes_average:
  assumes "dm_ok dm" and "0 \<le> n" and "n \<le> M" and "0 \<le> count_of (bytes dm) k" and "count_of (bytes dm) k \<le> M"
    and "2 * M < 2 ^ 31"
  shows "\<exists>dm'. AtreusDM_DoBytes k n dm = Inr dm' \<and> dm_ok dm'
    \<and> count_of (bytes dm') = (count_of (bytes dm))(k := (count_of (bytes dm) k + n) div 2)
    \<and> 0 \<le> count_of (bytes dm') k \<and> count_of (bytes dm') k \<le> M"
proof -
  have "int_range (count_of (bytes dm) k + n)" using assms by (simp add: int_range_def)
  from counts.bump_ok [OF _ this] assms(1) obtain m where
    m: "count_add k n (bytes dm) = Inr m" "counts_ok m"
    "count_of m = (count_of (bytes dm))(k := count_of (bytes dm) k + n)" by (auto simp: dm_ok_def)
  have "count_of (count_half k m) = (count_of (bytes dm))(k := (count_of (bytes dm) k + n) div 2)"
    using m(3) assms by (simp add: count_half_def count_of_modify int_half_def)
  then show ?thesis using m assms counts_ok_half [OF m(2), of k]
    by (auto simp: AtreusDM_DoBytes_def dm_ok_def)
qed

theorem AtreusDM_DoBytes_average_witness:
  "\<exists>dm'. AtreusDM_DoBytes ''a'' 100 new_dm = Inr dm' \<and> count_of (bytes dm') ''a'' = 50"
proof -
  have "dm_ok new_dm" "count_of (bytes new_dm) ''a'' = 0" by (simp_all add: dm_ok_def new_dm_def count_of_def)
  with AtreusDM_DoBytes_average [of new_dm 100 100 "''a''"] show ?thesis by auto
qed

end
