(* ===== verification/Blade_Encoder.thy ===== *)
theory Blade_Encoder
  imports Blade_Object
begin

text \<open>
  blade/encoder.h: the classes that write one item at a destination pointer. An encoder object
  carries the number of bytes that it has written (\<^verbatim>\<open>dest_offset\<close>, read by \<^verbatim>\<open>GetAllOffset\<close>); the
  destination is a buffer with bounds and a start position in it. Every encoder is shown to write
  exactly its image at that position and to advance by exactly \<^verbatim>\<open>GetExpectedSize\<close>.
\<close>

section \<open>Writing\<close>

definition string_bytes :: "string \<Rightarrow> mem" where
  "string_bytes s = map byte_of_char s"

definition Put :: "nat \<Rightarrow> mem \<Rightarrow> mem \<times> nat \<Rightarrow> (mem \<times> nat) result" where
  "Put dest val st = (case st of (m, dest_offset) \<Rightarrow>
     and_then (mem_write m (dest + dest_offset) val) (\<lambda>m. Inr (m, dest_offset + length val)))"

text \<open>
  The length argument of \<^verbatim>\<open>PutPtr\<close> is an \<^verbatim>\<open>int\<close>: a length of \<open>2 ^ 31\<close> or more becomes negative and
  the copy runs out of every buffer.
\<close>

definition PutPtr :: "nat \<Rightarrow> string \<Rightarrow> mem \<times> nat \<Rightarrow> (mem \<times> nat) result" where
  "PutPtr dest s st =
     (let len = to_int32 (int (length s))
      in if len < 0 then Inl OutOfBounds else Put dest (take (nat len) (string_bytes s)) st)"

definition BladeByteEncoder_Encode :: "blade_byte \<Rightarrow> nat \<Rightarrow> mem \<Rightarrow> (mem \<times> nat) result" where
  "BladeByteEncoder_Encode ref dest m =
     and_then (Put dest (put_word 2 (field_type_code FT_Byte)) (m, 0))
       (Put dest (put_word 1 ref))"
definition BladeI32Encoder_Encode :: "i32 \<Rightarrow> nat \<Rightarrow> mem \<Rightarrow> (mem \<times> nat) result" where
  "BladeI32Encoder_Encode ref dest m =
     and_then (Put dest (put_word 2 (field_type_code FT_I32)) (m, 0))
       (Put dest (put_word 4 ref))"
definition BladeI64Encoder_Encode :: "i64 \<Rightarrow> nat \<Rightarrow> mem \<Rightarrow> (mem \<times> nat) result" where
  "BladeI64Encoder_Encode ref dest m =
     and_then (Put dest (put_word 2 (field_type_code FT_I64)) (m, 0))
       (Put dest (put_word 8 ref))"
definition BladeF64Encoder_Encode :: "f64 \<Rightarrow> nat \<Rightarrow> mem \<Rightarrow> (mem \<times> nat) result" where
  "BladeF64Encoder_Encode ref dest m =
     and_then (Put dest (put_word 2 (field_type_code FT_F64)) (m, 0))
       (Put dest (put_word 8 ref))"
definition BladeStringEncoder_Encode :: "string \<Rightarrow> nat \<Rightarrow> mem \<Rightarrow> (mem \<times> nat) result" where
  "BladeStringEncoder_Encode ref dest m =
     and_then (Put dest (put_word 2 (field_type_code FT_String)) (m, 0)) (\<lambda>st.
     and_then (Put dest (put_word 4 (word_of_nat (length ref) :: u32)) st)
       (PutPtr dest ref))"
definition BladeNameEncoder_Encode :: "string \<Rightarrow> nat \<Rightarrow> mem \<Rightarrow> (mem \<times> nat) result" where
  "BladeNameEncoder_Encode ref dest m =
     and_then (Put dest (put_word 2 (field_type_code FT_BladeName)) (m, 0)) (\<lambda>st.
     and_then (Put dest (put_word 4 (word_of_nat (length ref) :: u32)) st)
       (PutPtr dest ref))"

definition header_bytes :: "raw_blade_header \<Rightarrow> mem" where
  "header_bytes h = put_word 4 (magic_number h) @ put_word 4 (hdr_id h) @ put_word 4 (hdr_trace_id h)
     @ put_word 4 (hdr_type h) @ put_word 4 (payload_length h) @ put_word 4 (content_offset h)
     @ (case extra h of (a, b, c, d) \<Rightarrow> put_word 4 a @ put_word 4 b @ put_word 4 c @ put_word 4 d)"

definition BladeHeaderEncoder_Encode :: "blade_object \<Rightarrow> nat \<Rightarrow> mem \<Rightarrow> (mem \<times> nat) result" where
  "BladeHeaderEncoder_Encode ref dest m =
     and_then (Put dest (header_bytes (bo_header ref)) (m, 0)) (\<lambda>st.
     let service_name = GetServiceName ref in
     and_then (Put dest (put_word 4 (word_of_nat (length service_name) :: u32)) st)
       (PutPtr dest service_name))"

section \<open>Expected sizes\<close>

definition BladeByteEncoder_size :: "blade_byte \<Rightarrow> nat" where "BladeByteEncoder_size ref = 2 + 1"
definition BladeI32Encoder_size :: "i32 \<Rightarrow> nat" where "BladeI32Encoder_size ref = 2 + 4"
definition BladeI64Encoder_size :: "i64 \<Rightarrow> nat" where "BladeI64Encoder_size ref = 2 + 8"
definition BladeF64Encoder_size :: "f64 \<Rightarrow> nat" where "BladeF64Encoder_size ref = 2 + 8"
definition BladeStringEncoder_size :: "string \<Rightarrow> nat" where
  "BladeStringEncoder_size ref = 2 + (length ref + 4)"
definition BladeNameEncoder_size :: "string \<Rightarrow> nat" where
  "BladeNameEncoder_size ref = 2 + (length ref + 4)"
definition BladeHeaderEncoder_size :: "blade_object \<Rightarrow> nat" where
  "BladeHeaderEncoder_size ref = sizeof_header + 4 + length (GetServiceName ref)"

section \<open>The images\<close>

definition string_image :: "string \<Rightarrow> mem" where
  "string_image s = put_word 4 (word_of_nat (length s) :: u32) @ string_bytes s"

definition name_image :: "string \<Rightarrow> mem" where
  "name_image s = put_word 2 (field_type_code FT_BladeName) @ string_image s"

fun value_image :: "field_value \<Rightarrow> mem" where
  "value_image (VByte v) = put_word 2 (field_type_code FT_Byte) @ put_word 1 v"
| "value_image (VI32 v) = put_word 2 (field_type_code FT_I32) @ put_word 4 v"
| "value_image (VI64 v) = put_word 2 (field_type_code FT_I64) @ put_word 8 v"
| "value_image (VF64 v) = put_word 2 (field_type_code FT_F64) @ put_word 8 v"
| "value_image (VString v) = put_word 2 (field_type_code FT_String) @ string_image v"

definition header_image :: "blade_object \<Rightarrow> mem" where
  "header_image ref = header_bytes (bo_header ref) @ string_image (bo_service_name ref)"

lemma length_string_bytes [simp]: "length (string_bytes s) = length s"
  by (simp add: string_bytes_def)

lemma length_header_bytes [simp]: "length (header_bytes h) = 40"
  by (simp add: header_bytes_def split: prod.splits)

lemma length_string_image [simp]: "length (string_image s) = 4 + length s"
  by (simp add: string_image_def)

lemma length_name_image [simp]: "length (name_image s) = 6 + length s"
  by (simp add: name_image_def)

lemma length_value_image [simp]: "length (value_image v) = 2 + field_value_size v"
  by (cases v) simp_all

section \<open>The contract of an encoder\<close>

text \<open>
  \<open>ok\<close> bounds the item (a string whose length fits an \<^verbatim>\<open>int\<close>). Within the buffer the encoder writes
  the image and reports its size; outside it runs out of bounds.
\<close>

locale wire_encoder =
  fixes encode :: "'a \<Rightarrow> nat \<Rightarrow> mem \<Rightarrow> (mem \<times> nat) result"
    and size :: "'a \<Rightarrow> nat"
    and image :: "'a \<Rightarrow> mem"
    and ok :: "'a \<Rightarrow> bool"
  assumes image_size: "length (image x) = size x"
    and encode_eq: "ok x \<Longrightarrow> encode x dest m =
      (if dest + size x \<le> length m then Inr (mem_splice m dest (image x), size x)
       else Inl OutOfBounds)"
begin

lemma encode_frame:
  assumes "ok x" and "encode x dest m = Inr (m', off)"
  shows "off = size x \<and> length m' = length m \<and> take dest m' = take dest m
    \<and> drop (dest + size x) m' = drop (dest + size x) m
    \<and> take (size x) (drop dest m') = image x"
  using assms image_size [of x]
  by (cases "image x") (auto simp: encode_eq mem_splice_def min_def split: if_splits)

lemma encode_bounds: "ok x \<Longrightarrow> encode x dest m = Inl e \<Longrightarrow> e = OutOfBounds \<and> length m < dest + size x"
  by (auto simp: encode_eq split: if_splits)

end

text \<open>All encoders are sequences of chunks.\<close>

fun put_chunks :: "nat \<Rightarrow> mem list \<Rightarrow> mem \<times> nat \<Rightarrow> (mem \<times> nat) result" where
  "put_chunks dest [] st = Inr st"
| "put_chunks dest (c # cs) st = and_then (Put dest c st) (put_chunks dest cs)"

lemma put_chunks_splice:
  assumes "dest + length xs \<le> length m"
  shows "put_chunks dest cs (mem_splice m dest xs, length xs) =
    (if dest + length xs + length (concat cs) \<le> length m
     then Inr (mem_splice m dest (xs @ concat cs), length (xs @ concat cs)) else Inl OutOfBounds)"
  using assms
proof (induction cs arbitrary: xs)
  case Nil
  then show ?case by simp
next
  case (Cons c cs)
  show ?case
  proof (cases "dest + length xs + length c \<le> length m")
    case True
    with Cons.prems Cons.IH [of "xs @ c"] show ?thesis
      by (simp add: Put_def mem_write_def mem_splice_append add.assoc)
  next
    case False
    with Cons.prems show ?thesis by (simp add: Put_def mem_write_def)
  qed
qed

lemma put_chunks_eq:
  assumes "cs \<noteq> []"
  shows "put_chunks dest cs (m, 0) =
    (if dest + length (concat cs) \<le> length m
     then Inr (mem_splice m dest (concat cs), length (concat cs)) else Inl OutOfBounds)"
proof (cases "dest \<le> length m")
  case True
  have "mem_splice m dest [] = m" by (simp add: mem_splice_def)
  with True put_chunks_splice [of dest "[]" m cs] show ?thesis by simp
next
  case False
  with assms show ?thesis by (cases cs) (simp_all add: Put_def mem_write_def)
qed

definition str_ok :: "string \<Rightarrow> bool" where
  "str_ok s \<longleftrightarrow> length s < 2 ^ 31"

lemma PutPtr_eq: "str_ok s \<Longrightarrow> PutPtr dest s = Put dest (string_bytes s)"
  by (simp add: fun_eq_iff PutPtr_def str_ok_def)

lemma encoder_chunks:
  "BladeByteEncoder_Encode b dest m =
     put_chunks dest [put_word 2 (field_type_code FT_Byte), put_word 1 b] (m, 0)"
  "BladeI32Encoder_Encode i dest m =
     put_chunks dest [put_word 2 (field_type_code FT_I32), put_word 4 i] (m, 0)"
  "BladeI64Encoder_Encode l dest m =
     put_chunks dest [put_word 2 (field_type_code FT_I64), put_word 8 l] (m, 0)"
  "BladeF64Encoder_Encode f dest m =
     put_chunks dest [put_word 2 (field_type_code FT_F64), put_word 8 f] (m, 0)"
  "str_ok s \<Longrightarrow> BladeStringEncoder_Encode s dest m = put_chunks dest
     [put_word 2 (field_type_code FT_String), put_word 4 (word_of_nat (length s) :: u32), string_bytes s] (m, 0)"
  "str_ok s \<Longrightarrow> BladeNameEncoder_Encode s dest m = put_chunks dest
     [put_word 2 (field_type_code FT_BladeName), put_word 4 (word_of_nat (length s) :: u32), string_bytes s] (m, 0)"
  "str_ok (bo_service_name ref) \<Longrightarrow> BladeHeaderEncoder_Encode ref dest m = put_chunks dest
     [header_bytes (bo_header ref), put_word 4 (word_of_nat (length (bo_service_name ref)) :: u32),
      string_bytes (bo_service_name ref)] (m, 0)"
  by (simp_all add: BladeByteEncoder_Encode_def BladeI32Encoder_Encode_def BladeI64Encoder_Encode_def
      BladeF64Encoder_Encode_def BladeStringEncoder_Encode_def BladeNameEncoder_Encode_def
      BladeHeaderEncoder_Encode_def PutPtr_eq GetServiceName_def Let_def and_then_def split: sum.splits)

lemmas encoder_size_defs = BladeByteEncoder_size_def BladeI32Encoder_size_def BladeI64Encoder_size_def
  BladeF64Encoder_size_def BladeStringEncoder_size_def BladeNameEncoder_size_def
  BladeHeaderEncoder_size_def

interpretation byte_enc: wire_encoder BladeByteEncoder_Encode BladeByteEncoder_size
    "\<lambda>v. value_image (VByte v)" "\<lambda>_. True"
  by unfold_locales (simp_all add: encoder_chunks put_chunks_eq encoder_size_defs del: put_chunks.simps)

interpretation i32_enc: wire_encoder BladeI32Encoder_Encode BladeI32Encoder_size
    "\<lambda>v. value_image (VI32 v)" "\<lambda>_. True"
  by unfold_locales (simp_all add: encoder_chunks put_chunks_eq encoder_size_defs del: put_chunks.simps)

interpretation i64_enc: wire_encoder BladeI64Encoder_Encode BladeI64Encoder_size
    "\<lambda>v. value_image (VI64 v)" "\<lambda>_. True"
  by unfold_locales (simp_all add: encoder_chunks put_chunks_eq encoder_size_defs del: put_chunks.simps)

interpretation f64_enc: wire_encoder BladeF64Encoder_Encode BladeF64Encoder_size
    "\<lambda>v. value_image (VF64 v)" "\<lambda>_. True"
  by unfold_locales (simp_all add: encoder_chunks put_chunks_eq encoder_size_defs del: put_chunks.simps)

interpretation string_enc: wire_encoder BladeStringEncoder_Encode BladeStringEncoder_size
    "\<lambda>v. value_image (VString v)" str_ok
  by unfold_locales
    (simp_all add: encoder_chunks put_chunks_eq encoder_size_defs string_image_def del: put_chunks.simps)

interpretation name_enc: wire_encoder BladeNameEncoder_Encode BladeNameEncoder_size name_image str_ok
  by unfold_locales
    (simp_all add: encoder_chunks put_chunks_eq encoder_size_defs name_image_def string_image_def
      del: put_chunks.simps)

interpretation header_enc: wire_encoder BladeHeaderEncoder_Encode BladeHeaderEncoder_size header_image
    "\<lambda>ref. str_ok (bo_service_name ref)"
  by unfold_locales
    (simp_all add: encoder_chunks put_chunks_eq encoder_size_defs header_image_def string_image_def
      sizeof_header_def GetServiceName_def del: put_chunks.simps)

end
