(* ===== verification/Blade_Opr.thy ===== *)
theory Blade_Opr
  imports Blade_Encoder
begin

text \<open>
  blade/opr.cc and blade/decoder.h: encoding of a whole object into a buffer and decoding of a
  received message. The decoder is shown to be a parser of the bytes that its caller announces,
  and the two routines to be inverse to each other.
\<close>

section \<open>Opr::Encode\<close>

fun encode_value :: "field_value \<Rightarrow> nat \<Rightarrow> mem \<Rightarrow> (mem \<times> nat) result" where
  "encode_value (VByte v) dest m = BladeByteEncoder_Encode v dest m"
| "encode_value (VI32 v) dest m = BladeI32Encoder_Encode v dest m"
| "encode_value (VI64 v) dest m = BladeI64Encoder_Encode v dest m"
| "encode_value (VF64 v) dest m = BladeF64Encoder_Encode v dest m"
| "encode_value (VString v) dest m = BladeStringEncoder_Encode v dest m"

fun value_encoder_size :: "field_value \<Rightarrow> nat" where
  "value_encoder_size (VByte v) = BladeByteEncoder_size v"
| "value_encoder_size (VI32 v) = BladeI32Encoder_size v"
| "value_encoder_size (VI64 v) = BladeI64Encoder_size v"
| "value_encoder_size (VF64 v) = BladeF64Encoder_size v"
| "value_encoder_size (VString v) = BladeStringEncoder_size v"

text \<open>
  The callback of \<^verbatim>\<open>Encode\<close>: its captured state is the buffer and the destination pointer. The
  remaining length is captured too, and no statement of the callback changes it. Sizes are
  compared as size\_t.
\<close>

definition encode_field :: "int \<Rightarrow> (mem \<times> nat) iterate_func" where
  "encode_field length_remain st name v = (case st of (m, dest_now) \<Rightarrow>
     if int (BladeNameEncoder_size name + value_encoder_size v) > to_size length_remain
     then Inr ((m, dest_now), 0)
     else and_then (BladeNameEncoder_Encode name dest_now m) (\<lambda>(m, _).
       let dest_now = dest_now + BladeNameEncoder_size name; ret = BladeNameEncoder_size name in
       and_then (encode_value v dest_now m) (\<lambda>(m, _).
       Inr ((m, dest_now + value_encoder_size v), word_of_nat (ret + value_encoder_size v)))))"

definition Encode :: "blade_object \<Rightarrow> mem \<Rightarrow> int \<Rightarrow> (blade_object \<times> mem \<times> i32) result" where
  "Encode object dest length_limit =
     (let object = UpdateHeaderField object in
      if int (BladeHeaderEncoder_size object) > to_size length_limit then Inr (object, dest, 0)
      else and_then (BladeHeaderEncoder_Encode object 0 dest) (\<lambda>(m, _).
        let dest_now = BladeHeaderEncoder_size object;
            ret = word_of_nat (BladeHeaderEncoder_size object);
            length_remain = to_int32 (length_limit - int (BladeHeaderEncoder_size object)) in
        and_then (Iterate (encode_field length_remain) object (m, dest_now)) (\<lambda>((m, _), n).
        Inr (object, m, ret + n))))"

section \<open>The image of an object\<close>

definition field_image :: "string \<times> field_value \<Rightarrow> mem" where
  "field_image f = (case f of (k, v) \<Rightarrow> name_image k @ value_image v)"

definition body_image :: "blade_object \<Rightarrow> mem" where
  "body_image self = string_image (bo_service_name self) @ concat (map field_image (members self))"

definition object_image :: "blade_object \<Rightarrow> mem" where
  "object_image self = header_bytes (bo_header self) @ body_image self"

lemma length_field_image [simp]: "length (field_image (k, v)) = field_space k v"
  by (simp add: field_image_def field_space_def)

lemma length_concat_field_image:
  "length (concat (map field_image ms)) = (\<Sum>(k, v) \<leftarrow> ms. field_space k v)"
  by (induction ms) auto

lemma length_body_image: "length (body_image self) = body_size self"
  by (simp add: body_image_def body_size_def length_concat_field_image)

lemma length_object_image: "length (object_image self) = 40 + body_size self"
  by (simp add: object_image_def length_body_image)

lemma encoder_sizes:
  "BladeNameEncoder_size k + value_encoder_size v = field_space k v"
  by (cases v) (simp_all add: encoder_size_defs field_space_def)

lemma value_encoder_size_image: "value_encoder_size v = length (value_image v)"
  by (cases v) (simp_all add: encoder_size_defs)

lemma encode_value_eq:
  assumes "field_space k v < 2 ^ 31"
  shows "encode_value v dest m =
    (if dest + length (value_image v) \<le> length m
     then Inr (mem_splice m dest (value_image v), length (value_image v)) else Inl OutOfBounds)"
  using assms
  by (cases v) (simp_all add: byte_enc.encode_eq i32_enc.encode_eq i64_enc.encode_eq f64_enc.encode_eq
      string_enc.encode_eq encoder_size_defs str_ok_def field_space_def)

lemma encode_field_eq:
  assumes "field_space k v < 2 ^ 31" and "int (field_space k v) \<le> to_size remain"
  shows "encode_field remain (m, dest) k v =
    (if dest + field_space k v \<le> length m
     then Inr ((mem_splice m dest (field_image (k, v)), dest + field_space k v),
               word_of_nat (field_space k v))
     else Inl OutOfBounds)"
proof -
  have ok: "str_ok k" using assms(1) by (simp add: str_ok_def field_space_def)
  have sz: "BladeNameEncoder_size k = length (name_image k)" by (simp add: encoder_size_defs)
  have sp: "field_space k v = length (name_image k) + length (value_image v)"
    by (simp add: field_space_def)
  have "\<not> int (BladeNameEncoder_size k + value_encoder_size v) > to_size remain"
    using assms(2) by (simp only: encoder_sizes not_less)
  then show ?thesis
    using assms(1)
    by (simp add: encode_field_def name_enc.encode_eq [OF ok] encode_value_eq [OF assms(1)] Let_def
        value_encoder_size_image sz sp mem_splice_append field_image_def del: length_name_image
        length_value_image)
qed

section \<open>Iteration without stops\<close>

fun iter_all :: "'s iterate_func \<Rightarrow> (string \<times> field_value) list \<Rightarrow> 's \<times> i32 \<Rightarrow> ('s \<times> i32) result"
where
  "iter_all f [] st = Inr st"
| "iter_all f ((k, v) # ms) (s, ret) = and_then (f s k v) (\<lambda>(s', r). iter_all f ms (s', ret + r))"

lemma iter_all_append: "iter_all f (xs @ ys) = (\<lambda>st. and_then (iter_all f xs st) (iter_all f ys))"
proof
  show "iter_all f (xs @ ys) st = and_then (iter_all f xs st) (iter_all f ys)" for st
    by (induction f xs st rule: iter_all.induct) (auto simp: and_then_def split: sum.splits)
qed

lemma iter_type_all:
  assumes "\<forall>(k, v) \<in> set ms. \<forall>s s' r. f s k v = Inr (s', r) \<longrightarrow> r \<noteq> 0"
  shows "iter_type f ms st = iter_all f ms st"
  using assms
proof (induction ms arbitrary: st)
  case Nil
  then show ?case by (cases st) simp
next
  case (Cons m ms)
  obtain k v s ret where m: "m = (k, v)" "st = (s, ret)" by (cases m, cases st)
  show ?case
  proof (cases "f s k v")
    case (Inl e)
    with m show ?thesis by simp
  next
    case (Inr p)
    obtain s' r where p: "p = (s', r)" by (cases p)
    with Inr m Cons.prems have "r \<noteq> 0" by auto
    with m p Inr Cons show ?thesis by simp
  qed
qed

lemma Iterate_all:
  assumes "\<And>k v s s' r. (k, v) \<in> set (members self) \<Longrightarrow> f s k v = Inr (s', r) \<Longrightarrow> r \<noteq> 0"
  shows "Iterate f self s = iter_all f (members self) (s, 0)"
proof -
  have *: "iter_type f ms = iter_all f ms" if "set ms \<subseteq> set (members self)" for ms
    using assms that by (intro ext iter_type_all ballI) blast
  have "iter_type f (byte_fields self) = iter_all f (byte_fields self)"
    "iter_type f (i32_fields self) = iter_all f (i32_fields self)"
    "iter_type f (i64_fields self) = iter_all f (i64_fields self)"
    "iter_type f (f64_fields self) = iter_all f (f64_fields self)"
    "iter_type f (string_fields self) = iter_all f (string_fields self)"
    by (rule *, force simp: members_def)+
  then show ?thesis
    by (simp add: Iterate_def members_def iter_all_append)
qed

lemma iter_all_encode:
  assumes "\<And>k v. (k, v) \<in> set ms \<Longrightarrow> field_space k v < 2 ^ 31 \<and> int (field_space k v) \<le> to_size remain"
    and "dest \<le> length m"
  shows "iter_all (encode_field remain) ms ((m, dest), r) =
    (if dest + (\<Sum>(k, v) \<leftarrow> ms. field_space k v) \<le> length m
     then Inr ((mem_splice m dest (concat (map field_image ms)), dest + (\<Sum>(k, v) \<leftarrow> ms. field_space k v)),
               r + word_of_nat (\<Sum>(k, v) \<leftarrow> ms. field_space k v))
     else Inl OutOfBounds)"
  using assms
proof (induction ms arbitrary: m dest r)
  case Nil
  then show ?case by (simp add: mem_splice_def)
next
  case (Cons f ms)
  obtain k v where f: "f = (k, v)" by (cases f)
  have e: "encode_field remain (m, dest) k v =
    (if dest + field_space k v \<le> length m
     then Inr ((mem_splice m dest (field_image (k, v)), dest + field_space k v),
               word_of_nat (field_space k v)) else Inl OutOfBounds)"
    using Cons.prems(1) [of k v] f by (intro encode_field_eq) auto
  show ?case
  proof (cases "dest + field_space k v \<le> length m")
    case True
    let ?m = "mem_splice m dest (field_image (k, v))"
    have "length ?m = length m" using True by simp
    moreover have "dest + (field_space k v + n) \<le> length m \<Longrightarrow>
        length (concat (map field_image ms)) = n \<Longrightarrow>
        mem_splice ?m (dest + field_space k v) (concat (map field_image ms))
          = mem_splice m dest (field_image (k, v) @ concat (map field_image ms))" for n
      using mem_splice_append [of dest "field_image (k, v)" "concat (map field_image ms)" m] by simp
    ultimately show ?thesis
      using True f e Cons.prems(1) Cons.IH [of "dest + field_space k v" ?m "r + word_of_nat (field_space k v)"]
      by (simp add: add.assoc length_concat_field_image)
  next
    case False
    with f e show ?thesis by simp
  qed
qed

section \<open>Opr::Encode writes the image\<close>

lemma UpdateHeaderField_frame [simp]:
  assumes "obj_fits self"
  shows "members (UpdateHeaderField self) = members self"
    and "bo_service_name (UpdateHeaderField self) = bo_service_name self"
    and "body_size (UpdateHeaderField self) = body_size self"
    and "obj_wf (UpdateHeaderField self) = obj_wf self"
    and "field_map (UpdateHeaderField self) = field_map self"
    and "payload_length (bo_header (UpdateHeaderField self)) = word_of_nat (body_size self)"
    and "obj_fits (UpdateHeaderField self)"
  using assms by (simp_all add: UpdateHeaderField_eq body_size_def obj_fits_def)

text \<open>
  The master equation of the encoder: when every field on its own passes the limit, the image of
  the whole object is written, or the buffer overflows.
\<close>

text \<open>Where every field fits, the callback never returns 0, which would stop the iteration.\<close>

lemma encode_field_iterates:
  assumes "\<And>k v. (k, v) \<in> set (members self) \<Longrightarrow> field_space k v < 2 ^ 31 \<and> int (field_space k v) \<le> to_size r"
  shows "Iterate (encode_field r) self st = iter_all (encode_field r) (members self) (st, 0)"
proof (rule Iterate_all)
  fix k v s s' n
  assume kv: "(k, v) \<in> set (members self)" and e: "encode_field r s k v = Inr (s', n)"
  obtain m d where s: "s = (m, d)" by (cases s)
  have "encode_field r (m, d) k v = (if d + field_space k v \<le> length m
      then Inr ((mem_splice m d (field_image (k, v)), d + field_space k v),
             word_of_nat (field_space k v)) else Inl OutOfBounds)"
    using assms [OF kv] by (intro encode_field_eq) simp_all
  moreover have "(word_of_nat (field_space k v) :: i32) \<noteq> 0"
    using assms [OF kv] field_space_pos [of k v] by (intro word_of_nat_neq_0) force+
  ultimately show "n \<noteq> 0" using e s by (auto split: if_splits)
qed

text \<open>The header and the fields, one behind the other.\<close>

lemma encode_parts:
  fixes self :: blade_object and r :: int
  defines "h \<equiv> 44 + length (bo_service_name self)" and "S \<equiv> \<Sum>(k, v) \<leftarrow> members self. field_space k v"
  assumes fits: "obj_fits self"
    and small: "\<And>k v. (k, v) \<in> set (members self) \<Longrightarrow> field_space k v < 2 ^ 31 \<and> int (field_space k v) \<le> to_size r"
  shows "and_then (BladeHeaderEncoder_Encode (UpdateHeaderField self) 0 dest) (\<lambda>(m, _).
      and_then (iter_all (encode_field r) (members self) ((m, h), 0))
        (\<lambda>((m, _), n). Inr (UpdateHeaderField self, m, word_of_nat h + n)))
    = (if h + S \<le> length dest
       then Inr (UpdateHeaderField self, mem_splice dest 0 (object_image (UpdateHeaderField self)), word_of_nat (h + S))
       else Inl OutOfBounds)"
proof -
  let ?o = "UpdateHeaderField self"
  have hsz: "BladeHeaderEncoder_size ?o = h"
    using fits by (simp add: encoder_size_defs GetServiceName_def sizeof_header_def h_def)
  have str: "str_ok (bo_service_name ?o)"
    using fits by (simp add: str_ok_def obj_fits_def body_size_def)
  show ?thesis
  proof (cases "h \<le> length dest")
    case True
    let ?m = "mem_splice dest 0 (header_image ?o)"
    have len: "length (header_image ?o) = h"
      using header_enc.image_size [of ?o] hsz by simp
    have iter: "iter_all (encode_field r) (members self) ((?m, h), 0) =
       (if h + S \<le> length ?m
        then Inr ((mem_splice ?m h (concat (map field_image (members self))), h + S),
                  0 + word_of_nat S) else Inl OutOfBounds)"
      unfolding S_def using small True len by (intro iter_all_encode) simp_all
    have "header_image ?o @ concat (map field_image (members self)) = object_image ?o"
      using fits by (simp add: header_image_def object_image_def body_image_def)
    then have "h + S \<le> length dest \<Longrightarrow> mem_splice ?m h (concat (map field_image (members self)))
        = mem_splice dest 0 (object_image ?o)"
      using mem_splice_append [of 0 "header_image ?o" "concat (map field_image (members self))" dest] len
      by (simp add: length_concat_field_image S_def)
    with True len iter show ?thesis
      by (simp add: header_enc.encode_eq [OF str] hsz del: of_nat_add) simp
  next
    case False
    then show ?thesis by (simp add: header_enc.encode_eq [OF str] hsz)
  qed
qed

lemma Encode_eq:
  assumes fits: "obj_fits self"
    and hdr: "44 + int (length (bo_service_name self)) \<le> limit" and lim: "limit < 2 ^ 31"
    and each: "\<And>k v. (k, v) \<in> set (members self) \<Longrightarrow>
      int (field_space k v) \<le> limit - 44 - int (length (bo_service_name self))"
  shows "Encode self dest limit =
    (if 40 + body_size self \<le> length dest
     then Inr (UpdateHeaderField self, mem_splice dest 0 (object_image (UpdateHeaderField self)),
               word_of_nat (40 + body_size self))
     else Inl OutOfBounds)"
proof -
  let ?o = "UpdateHeaderField self" and ?h = "44 + length (bo_service_name self)"
  let ?r = "to_int32 (limit - int ?h)" and ?S = "\<Sum>(k, v) \<leftarrow> members self. field_space k v"
  have hsz: "BladeHeaderEncoder_size ?o = ?h"
    using fits by (simp add: encoder_size_defs GetServiceName_def sizeof_header_def)
  have r: "?r = limit - int ?h" "to_size ?r = limit - int ?h" "to_size limit = limit"
    using hdr lim by simp_all
  have body: "40 + body_size self = ?h + ?S" by (simp add: body_size_def)
  have small: "field_space k v < 2 ^ 31 \<and> int (field_space k v) \<le> to_size ?r"
    if "(k, v) \<in> set (members self)" for k v
    using each [OF that] r member_space_bound [OF that] fits
    by (simp add: obj_fits_def sizeof_header_def)
  have it: "Iterate (encode_field ?r) ?o st = iter_all (encode_field ?r) (members self) (st, 0)" for st
    using encode_field_iterates [of ?o ?r st] small fits by simp
  have "Encode self dest limit = and_then (BladeHeaderEncoder_Encode ?o 0 dest) (\<lambda>(m, _).
      and_then (iter_all (encode_field ?r) (members self) ((m, ?h), 0))
        (\<lambda>((m, _), n). Inr (?o, m, word_of_nat ?h + n)))"
    using hdr by (simp add: Encode_def hsz it Let_def r(3) del: of_nat_add)
  also have "\<dots> = (if ?h + ?S \<le> length dest
     then Inr (?o, mem_splice dest 0 (object_image ?o), word_of_nat (?h + ?S)) else Inl OutOfBounds)"
    using small by (intro encode_parts [OF fits]) blast
  finally show ?thesis by (simp only: body)
qed

lemma GetEncodedSize_exact_eq:
  assumes "obj_fits self"
  shows "GetEncodedSize self = (UpdateHeaderField self, 40 + body_size self)"
proof -
  have "body_size self < 2 ^ 32" using assms by (simp add: obj_fits_def)
  then have "unat (word_of_nat (body_size self) :: u32) = body_size self"
    by (intro unat_of_nat_small) simp
  with assms show ?thesis by (simp add: GetEncodedSize_def sizeof_header_def)
qed

lemma Encode_sized:
  assumes "obj_fits self" and "40 + body_size self \<le> length dest"
  shows "Encode self dest (int (40 + body_size self)) =
    Inr (UpdateHeaderField self, object_image (UpdateHeaderField self) @ drop (40 + body_size self) dest,
         word_of_nat (40 + body_size self))"
proof -
  let ?n = "40 + body_size self"
  have "Encode self dest (int ?n) = (if 40 + body_size self \<le> length dest
     then Inr (UpdateHeaderField self, mem_splice dest 0 (object_image (UpdateHeaderField self)),
               word_of_nat (40 + body_size self)) else Inl OutOfBounds)"
  proof (rule Encode_eq)
    fix k v assume "(k, v) \<in> set (members self)"
    then have "field_space k v \<le> (\<Sum>(k, v) \<leftarrow> members self. field_space k v)"
      by (intro member_le_sum_list) (simp_all, force)
    then show "int (field_space k v) \<le> int ?n - 44 - int (length (bo_service_name self))"
      by (simp add: body_size_def)
  qed (use assms(1) in \<open>simp_all add: obj_fits_def sizeof_header_def body_size_def\<close>)
  with assms show ?thesis
    by (simp add: mem_splice_start length_object_image del: of_nat_add)
qed

text \<open>
  C26. Called with the size that \<^verbatim>\<open>GetEncodedSize\<close> returned and a buffer of at least that size,
  \<^verbatim>\<open>Encode\<close> writes the image of the object (header, service name, then every field exactly once,
  in iteration order) at the start of the buffer, returns the number of bytes written, and leaves
  the rest of the buffer alone.
\<close>

theorem Encode_exact:
  assumes "obj_fits self" and "snd (GetEncodedSize self) \<le> length dest"
  shows "Encode self dest (int (snd (GetEncodedSize self))) =
    Inr (fst (GetEncodedSize self),
         object_image (fst (GetEncodedSize self)) @ drop (snd (GetEncodedSize self)) dest,
         word_of_nat (snd (GetEncodedSize self)))
    \<and> length (object_image (fst (GetEncodedSize self))) = snd (GetEncodedSize self)"
  using assms Encode_sized [OF assms(1), of dest]
  by (simp add: GetEncodedSize_exact_eq length_object_image del: of_nat_add)

theorem Encode_exact_witness:
  "obj_fits (NewKeepAlive 1 ''svc'') \<and> Encode (NewKeepAlive 1 ''svc'') (replicate 50 0) 47 =
    Inr (UpdateHeaderField (NewKeepAlive 1 ''svc''),
         object_image (UpdateHeaderField (NewKeepAlive 1 ''svc'')) @ [0, 0, 0], 47)"
proof -
  have b: "body_size (NewKeepAlive 1 ''svc'') = 7"
    by (simp add: body_size_def message_defs new_object_def accessor_defs members_def typed_fields_defs)
  then have f: "obj_fits (NewKeepAlive 1 ''svc'')" by (simp add: obj_fits_def sizeof_header_def)
  show ?thesis
    using Encode_exact [OF f, of "replicate 50 0"] f b
    by (simp add: GetEncodedSize_exact_eq numeral_3_eq_3)
qed

text \<open>
  C39. The limit bounds each field, not the message: the callback tests every field against the space
  after the header and never takes off what was already written. When the header and each single
  field pass, a buffer of exactly \<^verbatim>\<open>length_limit\<close> bytes is overrun as soon as the fields together
  do not fit; when the header alone does not pass, nothing is written and 0 is returned.
\<close>

theorem Encode_limit_is_per_field:
  assumes "obj_fits self" and "0 \<le> limit" and "limit < 2 ^ 31"
    and "\<forall>(k, v) \<in> set (members self). field_space k v + 44 + length (bo_service_name self) \<le> nat limit"
    and "length dest = nat limit"
  shows "(nat limit < 44 + length (bo_service_name self) \<longrightarrow>
      Encode self dest limit = Inr (UpdateHeaderField self, dest, 0))
    \<and> (44 + length (bo_service_name self) \<le> nat limit \<and> nat limit < 40 + body_size self \<longrightarrow>
      Encode self dest limit = Inl OutOfBounds)"
proof (intro conjI impI)
  assume "nat limit < 44 + length (bo_service_name self)"
  then have "limit < 44 + int (length (bo_service_name self))" by linarith
  with assms(1-3) show "Encode self dest limit = Inr (UpdateHeaderField self, dest, 0)"
    by (simp add: Encode_def encoder_size_defs GetServiceName_def sizeof_header_def Let_def)
next
  assume h: "44 + length (bo_service_name self) \<le> nat limit \<and> nat limit < 40 + body_size self"
  have "Encode self dest limit =
    (if 40 + body_size self \<le> length dest
     then Inr (UpdateHeaderField self, mem_splice dest 0 (object_image (UpdateHeaderField self)),
               word_of_nat (40 + body_size self)) else Inl OutOfBounds)"
    using assms h by (intro Encode_eq) (auto simp: split_beta)
  with h assms(5) show "Encode self dest limit = Inl OutOfBounds" by simp
qed

theorem Encode_limit_is_per_field_witness:
  "Encode (snd (AddI32 ''b'' 2 (snd (AddI32 ''a'' 1 new_object)))) (replicate 57 0) 57 = Inl OutOfBounds"
proof -
  let ?o = "snd (AddI32 ''b'' 2 (snd (AddI32 ''a'' 1 new_object)))"
  have o: "members ?o = [(''b'', VI32 2), (''a'', VI32 1)]" "bo_service_name ?o = []"
    by (simp_all add: AddI32_def Contains_def new_object_def kv_emplace_def members_def typed_fields_defs)
  then have b: "body_size ?o = 30" by (simp add: body_size_def field_space_def)
  then have "obj_fits ?o" by (simp add: obj_fits_def sizeof_header_def)
  from Encode_limit_is_per_field [OF this, of 57 "replicate 57 0"] o b
  show ?thesis by (simp add: field_space_def)
qed

section \<open>The decoder\<close>

text \<open>
  \<^verbatim>\<open>cur_\<close> is an offset into the buffer at \<^verbatim>\<open>origin_\<close>; \<^verbatim>\<open>remain_length_\<close> is an \<^verbatim>\<open>int\<close> that is
  compared with sizes as size\_t.
\<close>

record decoder =
  cur :: nat
  origin :: mem
  raw_length :: int
  remain_length :: int

definition Decoder :: "mem \<Rightarrow> nat \<Rightarrow> int \<Rightarrow> decoder" where
  "Decoder orig pos len = \<lparr>cur = pos, origin = orig, raw_length = len, remain_length = len\<rparr>"

definition NotEnd :: "decoder \<Rightarrow> bool" where
  "NotEnd d = (remain_length d > 0)"

text \<open>
  \<^verbatim>\<open>CurRemainGuard\<close> followed by a copy of \<open>need\<close> bytes at \<^verbatim>\<open>cur_\<close>; the destructor of the guard then
  moves \<^verbatim>\<open>cur_\<close>.
\<close>

definition take_guarded :: "nat \<Rightarrow> decoder \<Rightarrow> (mem \<times> decoder) result" where
  "take_guarded need d =
     (if to_size (remain_length d) \<ge> int need
      then and_then (mem_read (origin d) (cur d) need) (\<lambda>bs.
        Inr (bs, d\<lparr>remain_length := to_int32 (remain_length d - int need), cur := cur d + need\<rparr>))
      else Inl RemainLengthNotEnoughException)"

definition Take :: "nat \<Rightarrow> decoder \<Rightarrow> ('a::len word \<times> decoder) result" where
  "Take n d = and_then (take_guarded n d) (\<lambda>(bs, d). Inr (get_word bs, d))"

definition TakeFieldType :: "decoder \<Rightarrow> (u16 \<times> decoder) result" where "TakeFieldType = Take 2"
definition TakeBladeByte :: "decoder \<Rightarrow> (blade_byte \<times> decoder) result" where "TakeBladeByte = Take 1"
definition TakeBladeI32 :: "decoder \<Rightarrow> (i32 \<times> decoder) result" where "TakeBladeI32 = Take 4"
definition TakeBladeI64 :: "decoder \<Rightarrow> (i64 \<times> decoder) result" where "TakeBladeI64 = Take 8"
definition TakeBladeF64 :: "decoder \<Rightarrow> (f64 \<times> decoder) result" where "TakeBladeF64 = Take 8"

definition TakeBladeString :: "decoder \<Rightarrow> (string \<times> decoder) result" where
  "TakeBladeString d = and_then (Take 4 d) (\<lambda>(len :: u32, d).
     and_then (take_guarded (unat len) d) (\<lambda>(bs, d). Inr (map char_of_byte bs, d)))"

definition TakeHeader :: "decoder \<Rightarrow> (raw_blade_header \<times> decoder) result" where
  "TakeHeader d = and_then (take_guarded sizeof_header d) (\<lambda>(bs, d).
     Inr (\<lparr>magic_number = get_word (take 4 bs), hdr_id = get_word (take 4 (drop 4 bs)),
       hdr_trace_id = get_word (take 4 (drop 8 bs)), hdr_type = get_word (take 4 (drop 12 bs)),
       payload_length = get_word (take 4 (drop 16 bs)), content_offset = get_word (take 4 (drop 20 bs)),
       extra = (get_word (take 4 (drop 24 bs)), get_word (take 4 (drop 28 bs)),
                get_word (take 4 (drop 32 bs)), get_word (take 4 (drop 36 bs)))\<rparr>, d))"

definition MinSizeSatisfied :: "decoder \<Rightarrow> int \<Rightarrow> bool result" where
  "MinSizeSatisfied d sz =
     (let sz = to_int32 (sz - int (sizeof_header + 4)) in
      if sz < 0 then Inr False
      else and_then (mem_read (origin d) sizeof_header 4) (\<lambda>bs.
        Inr (to_u32 sz \<ge> uint (get_word bs :: u32))))"

section \<open>Opr::DecodeWithHeader and Opr::Decode\<close>

text \<open>
  One round of the loop, without its \<^verbatim>\<open>try\<close>: \<open>Inr None\<close> is \<^verbatim>\<open>return nullptr\<close>. The type read from
  the wire is any 16-bit value; the \<^verbatim>\<open>default\<close> of the switch throws.
\<close>

definition decode_value ::
  "u16 \<Rightarrow> string \<Rightarrow> decoder \<Rightarrow> blade_object \<Rightarrow> (decoder \<times> blade_object) option result" where
  "decode_value field_type name d ret =
     (if field_type = field_type_code FT_Byte then
       and_then (TakeBladeByte d) (\<lambda>(val, d). Inr (Some (d, snd (AddByte name val ret))))
     else if field_type = field_type_code FT_I32 then
       and_then (TakeBladeI32 d) (\<lambda>(val, d). Inr (Some (d, snd (AddI32 name val ret))))
     else if field_type = field_type_code FT_I64 then
       and_then (TakeBladeI64 d) (\<lambda>(val, d). Inr (Some (d, snd (AddI64 name val ret))))
     else if field_type = field_type_code FT_F64 then
       and_then (TakeBladeF64 d) (\<lambda>(val, d). Inr (Some (d, snd (AddF64 name val ret))))
     else if field_type = field_type_code FT_String then
       and_then (TakeBladeString d) (\<lambda>(val, d). Inr (Some (d, snd (AddString name val ret))))
     else Inl UnreachableCode)"

definition decode_field :: "decoder \<Rightarrow> blade_object \<Rightarrow> (decoder \<times> blade_object) option result" where
  "decode_field d ret =
     and_then (TakeFieldType d) (\<lambda>(field_type, d).
     if field_type \<noteq> field_type_code FT_BladeName then Inr None
     else and_then (TakeBladeString d) (\<lambda>(name, d).
     and_then (TakeFieldType d) (\<lambda>(field_type, d).
     decode_value field_type name d ret)))"

definition decode_step :: "decoder \<Rightarrow> blade_object \<Rightarrow> (decoder \<times> blade_object) option result" where
  "decode_step d ret = (case decode_field d ret of
     Inl RemainLengthNotEnoughException \<Rightarrow> Inr None
   | r \<Rightarrow> r)"

text \<open>The bytes in front of the decoder, and what a guarded read does to them.\<close>

definition pending :: "decoder \<Rightarrow> mem" where
  "pending d = take (nat (remain_length d)) (drop (cur d) (origin d))"

definition dec_ok :: "decoder \<Rightarrow> bool" where
  "dec_ok d \<longleftrightarrow> 0 \<le> remain_length d \<and> remain_length d < 2 ^ 31
     \<and> cur d + nat (remain_length d) \<le> length (origin d)"

lemma length_pending: "dec_ok d \<Longrightarrow> length (pending d) = nat (remain_length d)"
  by (auto simp: pending_def dec_ok_def min_def)

lemma to_int32_less: "to_int32 x < 2147483648"
  by (simp add: to_int32_def)

text \<open>
  \<open>shrinks d d'\<close>: reads went from \<open>d\<close> to \<open>d'\<close>. Also for decoders whose remaining length is no
  \<^verbatim>\<open>int\<close>, which no program state has, so that the loop below is a total function.
\<close>

definition shrinks :: "nat \<Rightarrow> decoder \<Rightarrow> decoder \<Rightarrow> bool" where
  "shrinks n d d' \<longleftrightarrow> remain_length d' < 2 ^ 31
     \<and> (0 \<le> remain_length d \<and> remain_length d < 2 ^ 31 \<longrightarrow>
        0 \<le> remain_length d' \<and> remain_length d' + int n \<le> remain_length d)"

lemma shrinks_trans: "shrinks n d d' \<Longrightarrow> shrinks m d' d'' \<Longrightarrow> shrinks n d d''"
  by (auto simp: shrinks_def)

lemma take_guarded_shrinks: "take_guarded n d = Inr (bs, d') \<Longrightarrow> shrinks n d d'"
  by (auto simp: take_guarded_def shrinks_def and_then_Inr_iff to_int32_less split: if_splits)

lemma Take_shrinks: "Take n d = Inr (w, d') \<Longrightarrow> shrinks n d d'"
  by (auto simp: Take_def and_then_Inr_iff dest: take_guarded_shrinks)

lemma TakeBladeString_shrinks: "TakeBladeString d = Inr (s, d') \<Longrightarrow> shrinks 4 d d'"
  by (auto simp: TakeBladeString_def and_then_Inr_iff
      dest!: Take_shrinks take_guarded_shrinks intro: shrinks_trans)

lemmas take_defs = TakeFieldType_def TakeBladeByte_def TakeBladeI32_def TakeBladeI64_def TakeBladeF64_def

lemma decode_step_shrinks: "decode_step d ret = Inr (Some (d', ret')) \<Longrightarrow> shrinks 2 d d'"
  by (auto simp: decode_step_def decode_field_def decode_value_def take_defs and_then_Inr_iff
      dest!: Take_shrinks TakeBladeString_shrinks intro: shrinks_trans
      split: sum.splits fault.splits if_splits)

function decode_loop :: "decoder \<Rightarrow> blade_object \<Rightarrow> blade_object option result" where
  "decode_loop d ret =
     (if NotEnd d then
        (case decode_step d ret of
           Inl e \<Rightarrow> Inl e
         | Inr None \<Rightarrow> Inr None
         | Inr (Some (d, ret)) \<Rightarrow> decode_loop d ret)
      else Inr (Some ret))"
  by pat_completeness auto
termination
proof (relation "measure (\<lambda>(d, ret). nat (remain_length d))")
  show "wf (measure (\<lambda>(d, ret). nat (remain_length d)))" by simp
next
  fix d ret r p d' ret'
  assume n: "NotEnd d" and s: "decode_step d ret = Inr r" "r = Some p" "(d', ret') = p"
  from s have "shrinks 2 d d'" by (auto dest: decode_step_shrinks)
  with n show "((d', ret'), d, ret) \<in> measure (\<lambda>(d, ret). nat (remain_length d))"
    by (cases "remain_length d < 2 ^ 31") (auto simp: shrinks_def NotEnd_def)
qed

declare decode_loop.simps [simp del]

definition DecodeWithHeader ::
  "raw_blade_header \<Rightarrow> mem \<Rightarrow> nat \<Rightarrow> int \<Rightarrow> blade_object option result" where
  "DecodeWithHeader header buf pos len =
     (if to_u32 len < uint (payload_length header) then Inr None
      else let dec = Decoder buf pos len; ret = SetRawHeader header new_object in
        and_then (TakeBladeString dec) (\<lambda>(service_name, dec).
        decode_loop dec (SetServiceName service_name ret)))"

definition Decode :: "mem \<Rightarrow> int \<Rightarrow> blade_object option result" where
  "Decode buf len =
     (let dec = Decoder buf 0 len in
      and_then (MinSizeSatisfied dec len) (\<lambda>ok.
      if \<not> ok then Inr None
      else and_then (TakeHeader dec) (\<lambda>(header, _).
        DecodeWithHeader header buf sizeof_header (to_int32 (len - int sizeof_header)))))"

section \<open>The decoder as a parser\<close>

text \<open>\<open>dec d bs\<close>: the announced bytes are in the buffer, and \<open>bs\<close> are those not yet read.\<close>

definition dec :: "decoder \<Rightarrow> mem \<Rightarrow> bool" where
  "dec d bs \<longleftrightarrow> dec_ok d \<and> pending d = bs"

lemma dec_Decoder:
  "0 \<le> len \<Longrightarrow> len < 2 ^ 31 \<Longrightarrow> pos + nat len \<le> length buf \<Longrightarrow>
    dec (Decoder buf pos len) (take (nat len) (drop pos buf))"
  by (simp add: dec_def dec_ok_def pending_def Decoder_def)

lemma NotEnd_dec: "dec d bs \<Longrightarrow> NotEnd d \<longleftrightarrow> bs \<noteq> []"
  using length_pending [of d] by (cases bs) (auto simp: dec_def NotEnd_def dec_ok_def)

lemma take_guarded_ok:
  assumes "dec d bs" and "n \<le> length bs"
  shows "\<exists>d'. take_guarded n d = Inr (take n bs, d') \<and> dec d' (drop n bs)"
proof -
  from assms have ok: "dec_ok d" and bs: "bs = take (nat (remain_length d)) (drop (cur d) (origin d))"
    by (simp_all add: dec_def pending_def)
  have n: "n \<le> nat (remain_length d)"
    using assms length_pending [OF ok] by (simp add: dec_def)
  let ?d = "d\<lparr>remain_length := remain_length d - int n, cur := cur d + n\<rparr>"
  have "take_guarded n d = Inr (take n bs, ?d)"
    using ok n by (auto simp: take_guarded_def mem_read_def bs dec_ok_def min_def)
  moreover have "dec ?d (drop n bs)"
    using ok n by (auto simp: dec_def dec_ok_def pending_def bs drop_take nat_diff_distrib add.commute)
  ultimately show ?thesis by blast
qed

lemma take_guarded_short:
  assumes "dec d bs" and "length bs < n"
  shows "take_guarded n d = Inl RemainLengthNotEnoughException"
  using assms length_pending [of d] by (auto simp: dec_def dec_ok_def take_guarded_def)

text \<open>
  The contract of a read: it gives back an item whose image is in front, and on any input it
  either reports that the announced bytes are used up or leaves a suffix of them.
\<close>

locale wire_decoder =
  fixes read :: "decoder \<Rightarrow> ('a \<times> decoder) result"
    and image :: "'a \<Rightarrow> mem"
    and ok :: "'a \<Rightarrow> bool"
  assumes read_image: "ok x \<Longrightarrow> dec d (image x @ rest) \<Longrightarrow> \<exists>d'. read d = Inr (x, d') \<and> dec d' rest"
    and read_any: "dec d bs \<Longrightarrow> read d = Inl RemainLengthNotEnoughException
      \<or> (\<exists>x d'. read d = Inr (x, d') \<and> (\<exists>n. dec d' (drop n bs)))"
begin

lemma read_bind_image:
  assumes "ok x" and "dec d (image x @ rest)"
    and "\<And>d'. dec d' rest \<Longrightarrow> P (f (x, d'))"
  shows "P (and_then (read d) f)"
  using read_image [OF assms(1,2)] assms(3) by auto

lemma read_bind_any:
  assumes "dec d bs" and "P (Inl RemainLengthNotEnoughException)"
    and "\<And>x d' n. dec d' (drop n bs) \<Longrightarrow> P (f (x, d'))"
  shows "P (and_then (read d) f)"
  using read_any [OF assms(1)] assms(2,3) by auto

end

lemma Take_image:
  fixes w :: "'a::len word"
  assumes "LENGTH('a) = 8 * n" and "dec d (put_word n w @ rest)"
  shows "\<exists>d'. Take n d = Inr (w, d') \<and> dec d' rest"
  using take_guarded_ok [OF assms(2), of n] get_put_word [OF assms(1), of w] by (auto simp: Take_def)

lemma Take_any:
  assumes "dec d bs"
  shows "(Take n d :: ('a::len word \<times> decoder) result) = Inl RemainLengthNotEnoughException
    \<or> (\<exists>x d'. Take n d = Inr (x :: 'a word, d') \<and> (\<exists>k. dec d' (drop k bs)))"
proof (cases "n \<le> length bs")
  case True
  from take_guarded_ok [OF assms this] show ?thesis by (auto simp: Take_def)
next
  case False
  with take_guarded_short [OF assms] show ?thesis by (simp add: Take_def)
qed

definition str32_ok :: "string \<Rightarrow> bool" where "str32_ok s \<longleftrightarrow> length s < 2 ^ 32"

lemma TakeBladeString_image:
  assumes "str32_ok s" and "dec d (string_image s @ rest)"
  shows "\<exists>d'. TakeBladeString d = Inr (s, d') \<and> dec d' rest"
proof -
  obtain d1 where d1: "Take 4 d = Inr (word_of_nat (length s) :: u32, d1)" "dec d1 (string_bytes s @ rest)"
    using assms(2) Take_image [where 'a = 32, of 4 d] by (auto simp: string_image_def)
  have len: "unat (word_of_nat (length s) :: u32) = length s"
    using assms(1) by (intro unat_of_nat_small) (simp add: str32_ok_def)
  obtain d2 where "take_guarded (length s) d1 = Inr (string_bytes s, d2)" "dec d2 rest"
    using take_guarded_ok [OF d1(2), of "length s"] by auto
  with d1 len show ?thesis by (auto simp: TakeBladeString_def string_bytes_def)
qed

lemma TakeBladeString_any:
  assumes "dec d bs"
  shows "TakeBladeString d = Inl RemainLengthNotEnoughException
    \<or> (\<exists>x d'. TakeBladeString d = Inr (x, d') \<and> (\<exists>k. dec d' (drop k bs)))"
  using Take_any [OF assms, of 4, where 'a = 32]
proof
  assume "\<exists>x d'. Take 4 d = Inr (x :: u32, d') \<and> (\<exists>k. dec d' (drop k bs))"
  then obtain w d1 k where d1: "Take 4 d = Inr (w :: u32, d1)" "dec d1 (drop k bs)" by blast
  show ?thesis
  proof (cases "unat w \<le> length (drop k bs)")
    case True
    from take_guarded_ok [OF d1(2) this] d1(1) show ?thesis
      by (auto simp: TakeBladeString_def)
  next
    case False
    with take_guarded_short [OF d1(2)] d1(1) show ?thesis by (simp add: TakeBladeString_def)
  qed
qed (simp add: TakeBladeString_def)

interpretation type_dec: wire_decoder TakeFieldType "put_word 2" "\<lambda>_. True"
  by unfold_locales (simp_all add: TakeFieldType_def Take_image Take_any)
interpretation byte_dec: wire_decoder TakeBladeByte "put_word 1" "\<lambda>_. True"
  by unfold_locales (simp_all add: TakeBladeByte_def Take_image Take_any)
interpretation i32_dec: wire_decoder TakeBladeI32 "put_word 4" "\<lambda>_. True"
  by unfold_locales (simp_all add: TakeBladeI32_def Take_image Take_any)
interpretation i64_dec: wire_decoder TakeBladeI64 "put_word 8" "\<lambda>_. True"
  by unfold_locales (simp_all add: TakeBladeI64_def Take_image Take_any)
interpretation f64_dec: wire_decoder TakeBladeF64 "put_word 8" "\<lambda>_. True"
  by unfold_locales (simp_all add: TakeBladeF64_def Take_image Take_any)
interpretation string_dec: wire_decoder TakeBladeString string_image str32_ok
  by unfold_locales (simp_all add: TakeBladeString_image TakeBladeString_any)

lemma header_of_bytes: "dec d (header_bytes h @ rest) \<Longrightarrow> \<exists>d'. TakeHeader d = Inr (h, d') \<and> dec d' rest"
proof -
  assume "dec d (header_bytes h @ rest)"
  from take_guarded_ok [OF this, of 40] obtain d' where
    d': "take_guarded 40 d = Inr (header_bytes h, d')" "dec d' rest" by auto
  obtain e0 e1 e2 e3 where "extra h = (e0, e1, e2, e3)" by (cases "extra h") auto
  then have "TakeHeader d = Inr (h, d')"
    using d'(1) by (simp add: TakeHeader_def sizeof_header_def header_bytes_def get_put_word)
  with d'(2) show ?thesis by blast
qed

interpretation header_dec: wire_decoder TakeHeader header_bytes "\<lambda>_. True"
proof unfold_locales
  fix d bs assume d: "dec d bs"
  show "TakeHeader d = Inl RemainLengthNotEnoughException
      \<or> (\<exists>x d'. TakeHeader d = Inr (x, d') \<and> (\<exists>n. dec d' (drop n bs)))"
  proof (cases "40 \<le> length bs")
    case True
    from take_guarded_ok [OF d this] show ?thesis by (auto simp: TakeHeader_def sizeof_header_def)
  next
    case False
    with take_guarded_short [OF d] show ?thesis by (simp add: TakeHeader_def sizeof_header_def)
  qed
qed (simp add: header_of_bytes)

section \<open>Decoding what was encoded\<close>

fun add_value :: "string \<Rightarrow> field_value \<Rightarrow> blade_object \<Rightarrow> blade_object" where
  "add_value k (VByte v) self = snd (AddByte k v self)"
| "add_value k (VI32 v) self = snd (AddI32 k v self)"
| "add_value k (VI64 v) self = snd (AddI64 k v self)"
| "add_value k (VF64 v) self = snd (AddF64 k v self)"
| "add_value k (VString v) self = snd (AddString k v self)"

lemma add_value_frame [simp]:
  "bo_header (add_value k v self) = bo_header self"
  "bo_service_name (add_value k v self) = bo_service_name self"
  "obj_wf self \<Longrightarrow> obj_wf (add_value k v self)"
  by (cases v; simp)+

lemma add_value_fresh:
  assumes "obj_wf self" and "field_map self k = None"
  shows "mset (members (add_value k v self)) = add_mset (k, v) (mset (members self))"
    and "field_map (add_value k v self) = (field_map self)(k \<mapsto> v)"
proof -
  have "\<not> Contains self k" using assms by (simp add: Contains_iff)
  from members_added [OF assms(1) this]
  show "mset (members (add_value k v self)) = add_mset (k, v) (mset (members self))"
    by (cases v) simp_all
  show "field_map (add_value k v self) = (field_map self)(k \<mapsto> v)"
    using assms by (cases v) (simp_all add: fields_adds)
qed

lemma fold_add_value:
  assumes "obj_wf self" and "distinct (map fst ms)" and "\<forall>k \<in> fst ` set ms. field_map self k = None"
  shows "obj_wf (fold (\<lambda>(k, v). add_value k v) ms self)
    \<and> mset (members (fold (\<lambda>(k, v). add_value k v) ms self)) = mset ms + mset (members self)
    \<and> bo_header (fold (\<lambda>(k, v). add_value k v) ms self) = bo_header self
    \<and> bo_service_name (fold (\<lambda>(k, v). add_value k v) ms self) = bo_service_name self"
  using assms
proof (induction ms arbitrary: self)
  case Nil
  then show ?case by simp
next
  case (Cons m ms)
  obtain k v where m: "m = (k, v)" by (cases m)
  have "field_map (add_value k v self) = (field_map self)(k \<mapsto> v)"
    "mset (members (add_value k v self)) = add_mset (k, v) (mset (members self))"
    using Cons.prems m by (simp_all add: add_value_fresh)
  moreover have "\<forall>k' \<in> fst ` set ms. k' \<noteq> k \<and> field_map self k' = None"
    using Cons.prems m by auto
  ultimately have
    "\<forall>k' \<in> fst ` set ms. field_map (add_value k v self) k' = None" by simp
  with Cons.IH [of "add_value k v self"] Cons.prems m
    \<open>mset (members (add_value k v self)) = add_mset (k, v) (mset (members self))\<close>
  show ?case by simp
qed

lemma decode_step_image:
  assumes sp: "field_space k v < 2 ^ 31" and d: "dec d (field_image (k, v) @ rest)"
  shows "\<exists>d'. decode_step d ret = Inr (Some (d', add_value k v ret)) \<and> dec d' rest"
proof -
  have k: "str32_ok k" using sp by (simp add: str32_ok_def field_space_def)
  obtain d1 where d1: "TakeFieldType d = Inr (field_type_code FT_BladeName, d1)"
    "dec d1 (string_image k @ value_image v @ rest)"
    using d type_dec.read_image [where x = "field_type_code FT_BladeName" and d = d]
    by (auto simp: field_image_def name_image_def)
  from string_dec.read_image [OF k d1(2)] obtain d2 where d2: "TakeBladeString d1 = Inr (k, d2)"
    "dec d2 (value_image v @ rest)" by blast
  obtain body where body: "value_image v = put_word 2 (field_type_code (field_type_of v)) @ body"
    by (cases v) auto
  obtain d3 where d3: "TakeFieldType d2 = Inr (field_type_code (field_type_of v), d3)" "dec d3 (body @ rest)"
    using d2(2) type_dec.read_image [where x = "field_type_code (field_type_of v)" and d = d2] body by auto
  note front = decode_step_def decode_field_def decode_value_def d1(1) d2(1) d3(1)
  show ?thesis
  proof (cases v)
    case (VByte b)
    with body d3(2) byte_dec.read_image [where x = b and d = d3 and rest = rest] show ?thesis by (auto simp: front)
  next
    case (VI32 i)
    with body d3(2) i32_dec.read_image [where x = i and d = d3 and rest = rest] show ?thesis by (auto simp: front)
  next
    case (VI64 l)
    with body d3(2) i64_dec.read_image [where x = l and d = d3 and rest = rest] show ?thesis by (auto simp: front)
  next
    case (VF64 f)
    with body d3(2) f64_dec.read_image [where x = f and d = d3 and rest = rest] show ?thesis by (auto simp: front)
  next
    case (VString s)
    have "str32_ok s" using sp VString by (simp add: str32_ok_def field_space_def)
    with VString body d3(2) string_dec.read_image [where x = s and d = d3 and rest = rest] show ?thesis by (auto simp: front)
  qed
qed

lemma decode_loop_append:
  assumes "\<And>k v. (k, v) \<in> set ms \<Longrightarrow> field_space k v < 2 ^ 31"
    and "dec d (concat (map field_image ms) @ rest)"
  shows "\<exists>d'. decode_loop d ret = decode_loop d' (fold (\<lambda>(k, v). add_value k v) ms ret) \<and> dec d' rest"
  using assms
proof (induction ms arbitrary: d ret)
  case Nil
  then show ?case by auto
next
  case (Cons m ms)
  obtain k v where m: "m = (k, v)" by (cases m)
  from Cons.prems m obtain d' where d': "decode_step d ret = Inr (Some (d', add_value k v ret))"
    "dec d' (concat (map field_image ms) @ rest)"
    using decode_step_image [of k v d "concat (map field_image ms) @ rest" ret] by auto
  have "field_image m \<noteq> []" using m by (simp add: field_image_def name_image_def put_word_def numeral_2_eq_2)
  with Cons.prems(2) have "NotEnd d" using NotEnd_dec by simp
  with d' Cons.IH [OF Cons.prems(1) d'(2), of "add_value k v ret"] m show ?case
    by (auto simp: decode_loop.simps [of d])
qed

lemma decode_loop_end: "dec d [] \<Longrightarrow> decode_loop d ret = Inr (Some ret)"
  using NotEnd_dec [of d "[]"] by (simp add: decode_loop.simps [of d])

definition received :: "raw_blade_header \<Rightarrow> string \<Rightarrow> blade_object" where
  "received h srv = SetServiceName srv (SetRawHeader h new_object)"

lemma received_simps [simp]:
  "obj_wf (received h srv)" "field_map (received h srv) = Map.empty" "members (received h srv) = []"
  "bo_header (received h srv) = h" "bo_service_name (received h srv) = srv"
  by (simp_all add: received_def)
    (simp_all add: SetServiceName_def SetRawHeader_def new_object_def members_def typed_fields_defs)

lemma DecodeWithHeader_service:
  assumes "pos + n \<le> length buf" and "n < 2 ^ 31" and "unat (payload_length h) \<le> n"
    and "take n (drop pos buf) = string_image srv @ rest"
  shows "\<exists>d. DecodeWithHeader h buf pos (int n) = decode_loop d (received h srv) \<and> dec d rest"
proof -
  have d: "dec (Decoder buf pos (int n)) (string_image srv @ rest)"
    using dec_Decoder [of "int n" pos buf] assms by simp
  have "length (take n (drop pos buf)) = n" using assms(1) by (auto simp: min_def)
  with assms(4) have "4 + length srv \<le> n" by simp
  then have "str32_ok srv" using assms(2) by (simp add: str32_ok_def)
  from string_dec.read_image [OF this d] obtain d' where
    d': "TakeBladeString (Decoder buf pos (int n)) = Inr (srv, d')" "dec d' rest" by blast
  moreover have "\<not> to_u32 (int n) < uint (payload_length h)"
    using assms(2,3) by (simp add: not_less uint_le_int_iff)
  ultimately have "DecodeWithHeader h buf pos (int n) = decode_loop d' (received h srv)"
    by (simp add: DecodeWithHeader_def received_def)
  with d'(2) show ?thesis by blast
qed

lemma DecodeWithHeader_prefix:
  assumes "pos + n \<le> length buf" and "n < 2 ^ 31" and "unat (payload_length h) \<le> n"
    and "take n (drop pos buf) = string_image srv @ concat (map field_image ms) @ rest"
  shows "\<exists>d. DecodeWithHeader h buf pos (int n)
      = decode_loop d (fold (\<lambda>(k, v). add_value k v) ms (received h srv)) \<and> dec d rest"
proof -
  from DecodeWithHeader_service [OF assms] obtain d where
    d: "DecodeWithHeader h buf pos (int n) = decode_loop d (received h srv)"
    "dec d (concat (map field_image ms) @ rest)" by blast
  have "length (take n (drop pos buf)) = n" using assms(1) by (auto simp: min_def)
  then have sum: "(\<Sum>(k, v) \<leftarrow> ms. field_space k v) < 2 ^ 31"
    using assms(2,4) by (simp add: length_concat_field_image)
  have "field_space k v < 2 ^ 31" if "(k, v) \<in> set ms" for k v
  proof -
    have "field_space k v \<le> (\<Sum>(k, v) \<leftarrow> ms. field_space k v)"
      using that by (intro member_le_sum_list) (simp_all, force)
    with sum show ?thesis by simp
  qed
  with d decode_loop_append [of ms d rest "received h srv"] show ?thesis by metis
qed

lemma DecodeWithHeader_fields:
  assumes "pos + n \<le> length buf" and "n < 2 ^ 31" and "unat (payload_length h) \<le> n"
    and "take n (drop pos buf) = string_image srv @ concat (map field_image ms)"
  shows "DecodeWithHeader h buf pos (int n)
    = Inr (Some (fold (\<lambda>(k, v). add_value k v) ms (received h srv)))"
  using DecodeWithHeader_prefix [OF assms(1-3), of srv ms "[]"] assms(4) decode_loop_end by auto

lemma DecodeWithHeader_image:
  assumes wf: "obj_wf self" and fits: "obj_fits self"
    and len: "payload_length (bo_header self) = word_of_nat (body_size self)"
    and buf: "take (body_size self) (drop pos buf) = body_image self"
  shows "\<exists>r. DecodeWithHeader (bo_header self) buf pos (int (body_size self)) = Inr (Some r)
    \<and> obj_wf r \<and> obj_equiv r self"
proof -
  let ?n = "body_size self" and ?o = "received (bo_header self) (bo_service_name self)"
  have n: "?n < 2 ^ 31" using fits by (simp add: obj_fits_def)
  have "length (take ?n (drop pos buf)) = ?n" by (simp add: buf length_body_image)
  then have le: "pos + ?n \<le> length buf" by (auto simp: min_def body_size_def split: if_splits)
  have u: "unat (payload_length (bo_header self)) \<le> ?n"
    using n by (simp add: len unat_of_nat_small)
  let ?r = "fold (\<lambda>(k, v). add_value k v) (members self) ?o"
  have "DecodeWithHeader (bo_header self) buf pos (int ?n) = Inr (Some ?r)"
    using buf by (intro DecodeWithHeader_fields [OF le n u]) (simp add: body_image_def)
  moreover have "obj_wf ?r \<and> obj_equiv ?r self"
    using fold_add_value [of ?o "members self"] wf
    by (simp add: obj_equiv_def obj_wf_def [of self] kv_wf_def)
  ultimately show ?thesis by blast
qed

lemma obj_equiv_fields: "obj_wf b \<Longrightarrow> obj_equiv a b \<Longrightarrow> field_map a = field_map b"
  by (auto simp: obj_equiv_def obj_wf_def field_map_def intro: kv_wf_mset_eq(2))

lemma obj_equiv_size: "obj_equiv a b \<Longrightarrow> body_size a = body_size b"
  unfolding obj_equiv_def body_size_def by (metis mset_map sum_mset_sum_list)

lemma obj_equiv_fits: "obj_equiv a b \<Longrightarrow> obj_fits a \<longleftrightarrow> obj_fits b"
  by (simp add: obj_fits_def obj_equiv_size)

lemma Decode_object_image:
  assumes wf: "obj_wf self" and fits: "obj_fits self"
  shows "\<exists>r. Decode (object_image (UpdateHeaderField self) @ rest) (int (40 + body_size self)) = Inr (Some r)
    \<and> obj_wf r \<and> obj_equiv r (UpdateHeaderField self)"
proof -
  let ?o = "UpdateHeaderField self" and ?n = "40 + body_size self"
  let ?buf = "object_image (UpdateHeaderField self) @ rest"
  have n: "?n < 2 ^ 31" using fits by (simp add: obj_fits_def sizeof_header_def)
  have len: "length (object_image ?o) = ?n" using fits by (simp add: length_object_image)
  have "dec (Decoder ?buf 0 (int ?n)) (object_image ?o)"
    using dec_Decoder [of "int ?n" 0 ?buf] n len by simp
  then obtain d' where hdr: "TakeHeader (Decoder ?buf 0 (int ?n)) = Inr (bo_header ?o, d')"
    unfolding object_image_def using header_of_bytes by blast
  have srv: "mem_read ?buf 40 4 = Inr (put_word 4 (word_of_nat (length (bo_service_name self)) :: u32))"
    using fits by (simp add: mem_read_def object_image_def body_image_def string_image_def)
  have "length (bo_service_name self) < 2 ^ 32" using n by (simp add: body_size_def)
  then have u: "uint (word_of_nat (length (bo_service_name self)) :: u32) = int (length (bo_service_name self))"
    by (simp add: uint_nat unat_of_nat_small)
  have i32: "to_int32 (int ?n - 44) = int ?n - 44" using n by (intro to_int32_id) simp_all
  have u32: "to_u32 (int ?n - 44) = int ?n - 44" using n by (intro to_u32_id) (simp_all add: body_size_def)
  have "MinSizeSatisfied (Decoder ?buf 0 (int ?n)) (int ?n) = Inr True"
    unfolding MinSizeSatisfied_def Let_def using srv u i32 u32
    by (simp add: sizeof_header_def Decoder_def get_put_word body_size_def)
  moreover have "\<exists>r. DecodeWithHeader (bo_header ?o) ?buf 40 (int (body_size self)) = Inr (Some r)
      \<and> obj_wf r \<and> obj_equiv r ?o"
    using DecodeWithHeader_image [of ?o 40 ?buf] wf fits len
    by (simp add: object_image_def length_body_image)
  moreover have "to_int32 (int ?n - 40) = int (body_size self)" using n by simp
  ultimately show ?thesis using hdr by (simp add: Decode_def sizeof_header_def)
qed

text \<open>
  C4. Round trip. Encoding any well-formed object into a buffer of its encoded size and decoding the
  buffer gives back an object with the same header, service name and fields: it is equal to the
  original up to the iteration order of its maps.
\<close>

theorem Encode_Decode_roundtrip:
  assumes "obj_wf self" and "obj_fits self"
    and "GetEncodedSize self = (self', n)" and "n \<le> length dest"
  shows "\<exists>m r. Encode self dest (int n) = Inr (self', m, word_of_nat n)
    \<and> Decode m (int n) = Inr (Some r) \<and> obj_wf r \<and> obj_equiv r self' \<and> field_map r = field_map self"
proof -
  have g: "self' = UpdateHeaderField self" "n = 40 + body_size self"
    using assms(3) GetEncodedSize_exact_eq [OF assms(2)] by simp_all
  let ?m = "object_image self' @ drop n dest"
  obtain r where r: "Decode ?m (int n) = Inr (Some r)" "obj_wf r" "obj_equiv r self'"
    using Decode_object_image [OF assms(1,2), of "drop n dest"] g by blast
  moreover have "field_map r = field_map self"
    using r(2,3) obj_equiv_fields [of self' r] assms(1,2) g by simp
  moreover have "Encode self dest (int n) = Inr (self', ?m, word_of_nat n)"
    using Encode_sized [OF assms(2), of dest] g assms(4) by simp
  ultimately show ?thesis by blast
qed

theorem Encode_Decode_roundtrip_witness:
  "\<exists>m r. Encode (snd (AddString ''k'' ''v'' (NewKeepAlive 9 ''s''))) (replicate 60 0) 59
      = Inr (fst (GetEncodedSize (snd (AddString ''k'' ''v'' (NewKeepAlive 9 ''s'')))), m, word_of_nat 59)
    \<and> Decode m 59 = Inr (Some r) \<and> field_map r = [''k'' \<mapsto> VString ''v'']"
proof -
  let ?o = "snd (AddString ''k'' ''v'' (NewKeepAlive 9 ''s''))"
  have wf: "obj_wf ?o" by simp
  have b: "body_size ?o = 19"
    by (simp add: body_size_def message_defs new_object_def accessor_defs members_def typed_fields_defs
        AddString_def Contains_def kv_emplace_def field_space_def)
  then have fits: "obj_fits ?o" by (simp add: obj_fits_def sizeof_header_def)
  have g: "GetEncodedSize ?o = (fst (GetEncodedSize ?o), 59)"
    using b by (simp add: GetEncodedSize_exact_eq [OF fits])
  have "field_map ?o = [''k'' \<mapsto> VString ''v'']" by (simp add: string_field.fields_add)
  with Encode_Decode_roundtrip [OF wf fits g, of "replicate 60 0"] show ?thesis by force
qed

section \<open>Safety of the decoder on arbitrary bytes\<close>

fun field_outcome :: "blade_object \<Rightarrow> (decoder \<times> blade_object) option result \<Rightarrow> bool" where
  "field_outcome ret (Inl e) = (e = RemainLengthNotEnoughException \<or> e = UnreachableCode)"
| "field_outcome ret (Inr None) = True"
| "field_outcome ret (Inr (Some (d, ret'))) = ((\<exists>bs. dec d bs) \<and> (obj_wf ret \<longrightarrow> obj_wf ret')
     \<and> bo_header ret' = bo_header ret \<and> bo_service_name ret' = bo_service_name ret)"

lemmas outcome_rules =
  type_dec.read_bind_any [where P = "field_outcome ret" for ret]
  byte_dec.read_bind_any [where P = "field_outcome ret" for ret]
  i32_dec.read_bind_any [where P = "field_outcome ret" for ret]
  i64_dec.read_bind_any [where P = "field_outcome ret" for ret]
  f64_dec.read_bind_any [where P = "field_outcome ret" for ret]
  string_dec.read_bind_any [where P = "field_outcome ret" for ret]

lemma field_outcome_if:
  "(b \<Longrightarrow> field_outcome ret x) \<Longrightarrow> (\<not> b \<Longrightarrow> field_outcome ret y) \<Longrightarrow> field_outcome ret (if b then x else y)"
  by simp

lemma decode_value_outcome: "dec d bs \<Longrightarrow> field_outcome ret (decode_value t name d ret)"
  unfolding decode_value_def by (intro field_outcome_if outcome_rules) auto

lemma decode_field_outcome: "dec d bs \<Longrightarrow> field_outcome ret (decode_field d ret)"
  unfolding decode_field_def
  by (rule outcome_rules(1), assumption, simp, simp, intro impI)
    (rule outcome_rules(6), assumption, simp, simp, rule outcome_rules(1), assumption, simp, simp,
      rule decode_value_outcome)

lemma decode_step_outcome:
  "dec d bs \<Longrightarrow> field_outcome ret (decode_step d ret) \<and> decode_step d ret \<noteq> Inl RemainLengthNotEnoughException"
  using decode_field_outcome [of d bs ret]
  by (auto simp: decode_step_def split: sum.splits fault.splits)

lemma decode_loop_outcome:
  "dec d bs \<Longrightarrow> obj_wf ret \<Longrightarrow> decode_loop d ret = Inl UnreachableCode \<or> decode_loop d ret = Inr None
    \<or> (\<exists>o'. decode_loop d ret = Inr (Some o') \<and> obj_wf o' \<and> bo_header o' = bo_header ret
         \<and> bo_service_name o' = bo_service_name ret)"
proof (induction d ret arbitrary: bs rule: decode_loop.induct)
  case (1 d ret)
  show ?case
  proof (cases "NotEnd d")
    case True
    from decode_step_outcome [OF "1.prems"(1), of ret]
    consider "decode_step d ret = Inl UnreachableCode" | "decode_step d ret = Inr None"
      | d' ret' bs' where "decode_step d ret = Inr (Some (d', ret'))" "dec d' bs'" "obj_wf ret'"
        "bo_header ret' = bo_header ret" "bo_service_name ret' = bo_service_name ret"
      using "1.prems"(2) by (cases "(ret, decode_step d ret)" rule: field_outcome.cases) auto
    then show ?thesis
    proof cases
      case (3 d' ret' bs')
      with "1.IH" [OF True 3(1) refl refl, of bs'] True show ?thesis
        by (simp add: decode_loop.simps [of d ret])
    qed (simp_all add: decode_loop.simps [of d ret] True)
  next
    case False
    with "1.prems" show ?thesis by (simp add: decode_loop.simps [of d ret])
  qed
qed

lemma take_drop_take: "n \<le> k \<Longrightarrow> take n (drop p (take (p + k) xs)) = take n (drop p xs)"
  by (simp add: drop_take min_def)

text \<open>The service name is the only read outside the \<^verbatim>\<open>try\<close> block.\<close>

definition service_length :: "mem \<Rightarrow> nat \<Rightarrow> nat" where
  "service_length buf pos = unat (get_word (take 4 (drop pos buf)) :: u32)"

lemma TakeBladeString_front:
  assumes "pos + n \<le> length buf" and "n < 2 ^ 31"
  shows "if n < 4 \<or> n - 4 < service_length buf pos
    then TakeBladeString (Decoder buf pos (int n)) = Inl RemainLengthNotEnoughException
    else \<exists>s d bs. TakeBladeString (Decoder buf pos (int n)) = Inr (s, d) \<and> dec d bs"
proof -
  let ?bs = "take n (drop pos buf)"
  have d: "dec (Decoder buf pos (int n)) ?bs"
    using dec_Decoder [of "int n" pos buf] assms by simp
  have len: "length ?bs = n" using assms by (auto simp: min_def)
  show ?thesis
  proof (cases "n < 4")
    case True
    with take_guarded_short [OF d, of 4] len show ?thesis by (simp add: TakeBladeString_def Take_def)
  next
    case False
    have four: "4 \<le> length ?bs" using len False by linarith
    from take_guarded_ok [OF d four] obtain d1 where
      d1: "take_guarded 4 (Decoder buf pos (int n)) = Inr (take 4 ?bs, d1)" "dec d1 (drop 4 ?bs)" by blast
    have len1: "length (drop 4 ?bs) = n - 4" using len by (simp only: length_drop)
    have w: "unat (get_word (take 4 ?bs) :: u32) = service_length buf pos"
      using False by (simp add: service_length_def min_def)
    show ?thesis
    proof (cases "n - 4 < service_length buf pos")
      case True
      then have "length (drop 4 ?bs) < service_length buf pos" using len1 by linarith
      from take_guarded_short [OF d1(2) this] d1(1) w True show ?thesis
        by (simp add: TakeBladeString_def Take_def del: take_take)
    next
      case nl: False
      then have "service_length buf pos \<le> length (drop 4 ?bs)" using len1 by linarith
      from take_guarded_ok [OF d1(2) this] obtain s d2 where
        "take_guarded (service_length buf pos) d1 = Inr (s, d2)" "dec d2 (drop (service_length buf pos) (drop 4 ?bs))"
        by blast
      with d1(1) w False nl show ?thesis
        by (auto simp: TakeBladeString_def Take_def simp del: take_take)
    qed
  qed
qed

lemma DecodeWithHeader_outcome:
  assumes "pos + n \<le> length buf" and "n < 2 ^ 31"
  shows "if n < unat (payload_length h) then DecodeWithHeader h buf pos (int n) = Inr None
    else if n < 4 \<or> n - 4 < service_length buf pos
    then DecodeWithHeader h buf pos (int n) = Inl RemainLengthNotEnoughException
    else DecodeWithHeader h buf pos (int n) \<in> {Inr None, Inl UnreachableCode}
      \<or> (\<exists>r. DecodeWithHeader h buf pos (int n) = Inr (Some r) \<and> obj_wf r \<and> bo_header r = h)"
proof (cases "n < unat (payload_length h)")
  case True
  then have "to_u32 (int n) < uint (payload_length h)"
    using assms(2) by (simp add: uint_le_int_iff flip: not_le)
  with True show ?thesis by (simp add: DecodeWithHeader_def)
next
  case False
  then have np: "\<not> to_u32 (int n) < uint (payload_length h)"
    using assms(2) by (simp add: uint_le_int_iff not_less)
  show ?thesis
  proof (cases "n < 4 \<or> n - 4 < service_length buf pos")
    case True
    with TakeBladeString_front [OF assms] False np show ?thesis by (simp add: DecodeWithHeader_def)
  next
    case ok: False
    with TakeBladeString_front [OF assms] obtain s d bs where
      s: "TakeBladeString (Decoder buf pos (int n)) = Inr (s, d)" "dec d bs" by auto
    with np have "DecodeWithHeader h buf pos (int n) = decode_loop d (received h s)"
      by (simp add: DecodeWithHeader_def received_def)
    with decode_loop_outcome [OF s(2), of "received h s"] False ok show ?thesis by auto
  qed
qed

text \<open>
  From \<open>2 ^ 31\<close> bytes on, which a header can announce, the length is a negative \<^verbatim>\<open>int\<close>, and the guard, which compares it as a
  \<^verbatim>\<open>size_t\<close>, lets every read pass.
\<close>

lemma mod_negative: "- m \<le> x \<Longrightarrow> x < 0 \<Longrightarrow> x mod m = x + m" for x m :: int
  using mod_pos_pos_trivial [of "x + m" m] by simp

lemma take_guarded_negative:
  assumes "remain_length d < 0" and "- (2 ^ 31) \<le> remain_length d" and "n < 2 ^ 32"
  shows "take_guarded n d = and_then (mem_read (origin d) (cur d) n) (\<lambda>bs.
    Inr (bs, d\<lparr>remain_length := to_int32 (remain_length d - int n), cur := cur d + n\<rparr>))"
proof -
  have "to_size (remain_length d) = remain_length d + 2 ^ 64"
    unfolding to_size_def using assms by (intro mod_negative) simp_all
  with assms show ?thesis by (simp add: take_guarded_def)
qed

lemma long_body_unguarded:
  assumes "2 ^ 31 + 4 \<le> length body" and "length body < 2 ^ 32" and "unat (payload_length h) \<le> length body"
    and "length body < 4 + service_length body 0"
  shows "DecodeWithHeader h body 0 (to_int32 (int (length body))) = Inl OutOfBounds"
proof -
  let ?n = "int (length body)"
  have len: "to_int32 ?n = ?n - 2 ^ 32"
  proof -
    have "(?n + 2 ^ 31) mod 2 ^ 32 = (?n + 2 ^ 31 - 2 ^ 32) mod 2 ^ 32" by (rule minus_mod_self2 [symmetric])
    also have "\<dots> = ?n + 2 ^ 31 - 2 ^ 32" using assms(1,2) by (intro mod_pos_pos_trivial) simp_all
    finally show ?thesis by (simp add: to_int32_def)
  qed
  have "to_u32 (?n - 2 ^ 32) = ?n"
    unfolding to_u32_def using assms(2) mod_negative [of "2 ^ 32" "?n - 2 ^ 32"] by simp
  then have payload: "\<not> to_u32 (to_int32 ?n) < uint (payload_length h)"
    using assms(3) by (simp add: len uint_le_int_iff not_less)
  have four: "take_guarded 4 (Decoder body 0 (to_int32 ?n)) = Inr (take 4 body, (Decoder body 0 (to_int32 ?n))\<lparr>remain_length := ?n - 2 ^ 32 - 4, cur := 4\<rparr>)"
    using assms(1,2) by (subst take_guarded_negative) (simp_all add: Decoder_def len mem_read_def)
  have "service_length body 0 < 2 ^ 32" unfolding service_length_def by (rule order_less_le_trans [OF unsigned_less]) simp
  then have "take_guarded (service_length body 0) ((Decoder body 0 (to_int32 ?n))\<lparr>remain_length := ?n - 2 ^ 32 - 4, cur := 4\<rparr>) = Inl OutOfBounds"
    using assms by (subst take_guarded_negative) (simp_all add: Decoder_def mem_read_def)
  with four have "TakeBladeString (Decoder body 0 (to_int32 ?n)) = Inl OutOfBounds"
    by (simp add: TakeBladeString_def Take_def service_length_def)
  with payload show ?thesis by (simp add: DecodeWithHeader_def)
qed

text \<open>
  C5. Safety of decoding untrusted bytes, and its limit. Whatever the bytes of a body of fewer than \<open>2 ^ 31\<close>
  bytes, \<^verbatim>\<open>DecodeWithHeader\<close> terminates and reads only announced bytes; it returns null when fewer bytes than the
  header announces are there, and a well-formed object carrying the received header, null, or an
  \<^verbatim>\<open>UnreachableCode\<close> exception otherwise. The one other exception is a service name that does not
  fit into the announced bytes: that read is outside the \<^verbatim>\<open>try\<close>, so the exception
  leaves the function instead of giving null. A longer body with such a service name is not guarded at all: from
  \<open>2 ^ 31 + 4\<close> bytes on it makes the decoder read outside of the buffer.
\<close>

theorem DecodeWithHeader_safe:
  shows "(length body < 2 ^ 31 \<longrightarrow>
      (length body < unat (payload_length h) \<longrightarrow> DecodeWithHeader h body 0 (int (length body)) = Inr None)
      \<and> (DecodeWithHeader h body 0 (int (length body)) = Inl RemainLengthNotEnoughException
         \<longleftrightarrow> unat (payload_length h) \<le> length body \<and> length body < 4 + service_length body 0)
      \<and> (case DecodeWithHeader h body 0 (int (length body)) of
           Inl e \<Rightarrow> e = RemainLengthNotEnoughException \<or> e = UnreachableCode
         | Inr None \<Rightarrow> True
         | Inr (Some r) \<Rightarrow> obj_wf r \<and> bo_header r = h))
    \<and> (2 ^ 31 + 4 \<le> length body \<and> length body < 2 ^ 32 \<and> unat (payload_length h) \<le> length body
         \<and> length body < 4 + service_length body 0 \<longrightarrow>
       DecodeWithHeader h body 0 (to_int32 (int (length body))) = Inl OutOfBounds)"
  using DecodeWithHeader_outcome [of 0 "length body" body h] long_body_unguarded [of body h]
  by (auto split: if_splits)

theorem DecodeWithHeader_safe_witness:
  "DecodeWithHeader default_header [4, 0, 0, 0, 65] 0 5 = Inl RemainLengthNotEnoughException"
proof -
  let ?b = "[4, 0, 0, 0, 65] :: mem"
  have h: "unat (payload_length default_header) = 0" by (simp add: default_header_def)
  have s: "service_length ?b 0 = 4"
    by (simp add: service_length_def get_word_def)
  show ?thesis
    using DecodeWithHeader_safe [of ?b default_header] h s by simp
qed

lemma TakeHeader_front:
  assumes "40 \<le> length buf" and "length buf < 2 ^ 31"
  shows "\<exists>h d. TakeHeader (Decoder buf 0 (int (length buf))) = Inr (h, d)"
proof -
  have "dec (Decoder buf 0 (int (length buf))) buf"
    using dec_Decoder [of "int (length buf)" 0 buf] assms by simp
  from take_guarded_ok [OF this assms(1)] show ?thesis by (auto simp: TakeHeader_def sizeof_header_def)
qed

lemma MinSizeSatisfied_eq:
  assumes "length buf < 2 ^ 31"
  shows "MinSizeSatisfied (Decoder buf 0 (int (length buf))) (int (length buf))
    = Inr (44 \<le> length buf \<and> service_length buf 40 \<le> length buf - 44)"
proof (cases "44 \<le> length buf")
  case True
  have i: "to_int32 (int (length buf) - 44) = int (length buf - 44)" using assms True by simp
  have "to_u32 (int (length buf - 44)) = int (length buf - 44)" using assms by simp
  with i True show ?thesis
    by (simp add: MinSizeSatisfied_def sizeof_header_def Decoder_def mem_read_def service_length_def
        uint_le_int_iff del: of_nat_diff)
next
  case False
  then have "to_int32 (int (length buf) - 44) = int (length buf) - 44" by (intro to_int32_id) simp_all
  with False show ?thesis by (simp add: MinSizeSatisfied_def sizeof_header_def)
qed

text \<open>
  The entry point. \<^verbatim>\<open>Decode\<close> of any buffer with its own length reads nothing outside it. A buffer
  too short for a header and its service name gives null (\<^verbatim>\<open>MinSizeSatisfied\<close> guards exactly the
  read that \<^verbatim>\<open>DecodeWithHeader\<close> leaves unguarded), so only \<^verbatim>\<open>UnreachableCode\<close> can leave
  \<^verbatim>\<open>Decode\<close>; an object it returns is well formed and carries the header at the front of the
  buffer.
\<close>

theorem Decode_safe:
  assumes "length buf < 2 ^ 31"
  shows "(length buf < 44 + service_length buf 40 \<longrightarrow> Decode buf (int (length buf)) = Inr None)
    \<and> (case Decode buf (int (length buf)) of
        Inl e \<Rightarrow> e = UnreachableCode
      | Inr None \<Rightarrow> True
      | Inr (Some r) \<Rightarrow> obj_wf r \<and> (\<exists>d. TakeHeader (Decoder buf 0 (int (length buf))) = Inr (bo_header r, d)))"
proof (cases "length buf < 44 + service_length buf 40")
  case True
  then show ?thesis using MinSizeSatisfied_eq [OF assms] by (auto simp: Decode_def)
next
  case False
  then obtain h d where h: "TakeHeader (Decoder buf 0 (int (length buf))) = Inr (h, d)"
    using TakeHeader_front [OF _ assms] by fastforce
  have i: "to_int32 (int (length buf) - 40) = int (length buf - 40)" using assms False by simp
  have "service_length buf 40 \<le> length buf - 44" using False by linarith
  then have "Decode buf (int (length buf)) = DecodeWithHeader h buf 40 (int (length buf - 40))"
    using h i False MinSizeSatisfied_eq [OF assms] by (simp add: Decode_def sizeof_header_def del: of_nat_diff)
  moreover have "40 + (length buf - 40) \<le> length buf" "length buf - 40 < 2 ^ 31"
    "\<not> (length buf - 40 < 4 \<or> length buf - 40 - 4 < service_length buf 40)" using assms False by linarith+
  ultimately show ?thesis using DecodeWithHeader_outcome [of 40 "length buf - 40" buf h] False h
    by (auto split: if_splits simp del: of_nat_diff)
qed

theorem Decode_safe_witness:
  "(case Decode (replicate 44 0) 44 of Inl e \<Rightarrow> e = UnreachableCode | Inr None \<Rightarrow> True | Inr (Some r) \<Rightarrow> obj_wf r)
    \<and> Decode (replicate 10 0) 10 = Inr None"
  using Decode_safe [of "replicate 44 0"] Decode_safe [of "replicate 10 0"]
  by (auto split: sum.splits option.splits)

section \<open>The language of the decoder\<close>

text \<open>
  A stricter contract: what was read is exactly the image of the item it gave back. It holds for
  every read of the decoder, so the byte strings \<^verbatim>\<open>DecodeWithHeader\<close> accepts are exactly the images
  of a service name followed by fields.
\<close>

locale exact_decoder = wire_decoder +
  assumes read_exact: "dec d bs \<Longrightarrow> read d = Inr (x, d') \<Longrightarrow> \<exists>rest. bs = image x @ rest \<and> dec d' rest"
begin

lemma read_bind_exact:
  assumes "dec d bs" and "and_then (read d) f = Inr y"
  shows "\<exists>x d' rest. bs = image x @ rest \<and> dec d' rest \<and> f (x, d') = Inr y"
proof (cases "read d")
  case (Inr xd)
  with assms read_exact [OF assms(1), of "fst xd" "snd xd"] show ?thesis by (cases xd) force
qed (use assms in simp)

lemma read_value:
  assumes "dec d bs" and "and_then (read d) (\<lambda>(x, d). Inr (Some (d, f x))) = Inr (Some (d', r'))"
  shows "\<exists>x rest. bs = image x @ rest \<and> dec d' rest \<and> r' = f x"
  using read_bind_exact [OF assms] by auto

end

lemma Take_exact:
  assumes n: "LENGTH('a) = 8 * n" and d: "dec d bs" and r: "Take n d = Inr (x :: 'a::len word, d')"
  shows "\<exists>rest. bs = put_word n x @ rest \<and> dec d' rest"
proof (cases "n \<le> length bs")
  case True
  from take_guarded_ok [OF d True] r have "x = get_word (take n bs)" "dec d' (drop n bs)"
    by (auto simp: Take_def)
  moreover have "put_word n (get_word (take n bs) :: 'a word) = take n bs"
    using put_get_word [where 'a = 'a and bs = "take n bs"] n True by simp
  ultimately show ?thesis by (intro exI [of _ "drop n bs"]) simp
next
  case False
  with take_guarded_short [OF d, of n] r show ?thesis by (simp add: Take_def)
qed

lemma TakeBladeString_exact:
  assumes d: "dec d bs" and r: "TakeBladeString d = Inr (s, d')"
  shows "\<exists>rest. bs = string_image s @ rest \<and> dec d' rest"
proof -
  from r obtain w d1 where w: "Take 4 d = Inr (w :: u32, d1)"
    and g: "and_then (take_guarded (unat w) d1) (\<lambda>(bs, d). Inr (map char_of_byte bs, d)) = Inr (s, d')"
    unfolding TakeBladeString_def and_then_Inr_iff [of "Take 4 d"] by (auto split: prod.splits)
  from Take_exact [OF _ d w] obtain rest where rest: "bs = put_word 4 w @ rest" "dec d1 rest" by auto
  show ?thesis
  proof (cases "unat w \<le> length rest")
    case True
    from take_guarded_ok [OF rest(2) True] g
    have s: "s = map char_of_byte (take (unat w) rest)" "dec d' (drop (unat w) rest)" by auto
    then have "string_image s = put_word 4 w @ take (unat w) rest"
      using True by (simp add: string_image_def string_bytes_def)
    with rest(1) s(2) show ?thesis by (intro exI [of _ "drop (unat w) rest"]) simp
  next
    case False
    with take_guarded_short [OF rest(2), of "unat w"] g show ?thesis by simp
  qed
qed

interpretation type_exact: exact_decoder TakeFieldType "put_word 2" "\<lambda>_. True"
  by unfold_locales (simp add: TakeFieldType_def Take_exact)
interpretation byte_exact: exact_decoder TakeBladeByte "put_word 1" "\<lambda>_. True"
  by unfold_locales (simp add: TakeBladeByte_def Take_exact)
interpretation i32_exact: exact_decoder TakeBladeI32 "put_word 4" "\<lambda>_. True"
  by unfold_locales (simp add: TakeBladeI32_def Take_exact)
interpretation i64_exact: exact_decoder TakeBladeI64 "put_word 8" "\<lambda>_. True"
  by unfold_locales (simp add: TakeBladeI64_def Take_exact)
interpretation f64_exact: exact_decoder TakeBladeF64 "put_word 8" "\<lambda>_. True"
  by unfold_locales (simp add: TakeBladeF64_def Take_exact)
interpretation string_exact: exact_decoder TakeBladeString string_image str32_ok
  by unfold_locales (simp add: TakeBladeString_exact)

lemma decode_value_exact:
  assumes "dec d bs" and "decode_value t name d ret = Inr (Some (d', ret'))"
  shows "\<exists>v rest. put_word 2 t @ bs = value_image v @ rest \<and> dec d' rest \<and> ret' = add_value name v ret"
proof -
  from assms(2) consider
      "t = field_type_code FT_Byte" "and_then (TakeBladeByte d) (\<lambda>(val, d). Inr (Some (d, snd (AddByte name val ret)))) = Inr (Some (d', ret'))"
    | "t = field_type_code FT_I32" "and_then (TakeBladeI32 d) (\<lambda>(val, d). Inr (Some (d, snd (AddI32 name val ret)))) = Inr (Some (d', ret'))"
    | "t = field_type_code FT_I64" "and_then (TakeBladeI64 d) (\<lambda>(val, d). Inr (Some (d, snd (AddI64 name val ret)))) = Inr (Some (d', ret'))"
    | "t = field_type_code FT_F64" "and_then (TakeBladeF64 d) (\<lambda>(val, d). Inr (Some (d, snd (AddF64 name val ret)))) = Inr (Some (d', ret'))"
    | "t = field_type_code FT_String" "and_then (TakeBladeString d) (\<lambda>(val, d). Inr (Some (d, snd (AddString name val ret)))) = Inr (Some (d', ret'))"
    unfolding decode_value_def by (auto split: if_splits)
  then show ?thesis
  proof cases
    case 1
    from byte_exact.read_value [OF assms(1) 1(2)] obtain x r
      where "bs = put_word 1 x @ r" "dec d' r" "ret' = snd (AddByte name x ret)" by blast
    with 1(1) show ?thesis by (intro exI [of _ "VByte x"] exI [of _ r]) simp
  next
    case 2
    from i32_exact.read_value [OF assms(1) 2(2)] obtain x r
      where "bs = put_word 4 x @ r" "dec d' r" "ret' = snd (AddI32 name x ret)" by blast
    with 2(1) show ?thesis by (intro exI [of _ "VI32 x"] exI [of _ r]) simp
  next
    case 3
    from i64_exact.read_value [OF assms(1) 3(2)] obtain x r
      where "bs = put_word 8 x @ r" "dec d' r" "ret' = snd (AddI64 name x ret)" by blast
    with 3(1) show ?thesis by (intro exI [of _ "VI64 x"] exI [of _ r]) simp
  next
    case 4
    from f64_exact.read_value [OF assms(1) 4(2)] obtain x r
      where "bs = put_word 8 x @ r" "dec d' r" "ret' = snd (AddF64 name x ret)" by blast
    with 4(1) show ?thesis by (intro exI [of _ "VF64 x"] exI [of _ r]) simp
  next
    case 5
    from string_exact.read_value [OF assms(1) 5(2)] obtain x r
      where "bs = string_image x @ r" "dec d' r" "ret' = snd (AddString name x ret)" by blast
    with 5(1) show ?thesis by (intro exI [of _ "VString x"] exI [of _ r]) simp
  qed
qed

lemma decode_step_exact:
  assumes "dec d bs" and "decode_step d ret = Inr (Some (d', ret'))"
  shows "\<exists>k v rest. bs = field_image (k, v) @ rest \<and> dec d' rest \<and> ret' = add_value k v ret"
proof -
  have "decode_field d ret = Inr (Some (d', ret'))"
    using assms(2) by (auto simp: decode_step_def split: sum.splits fault.splits)
  from type_exact.read_bind_exact [OF assms(1) this [unfolded decode_field_def]]
  obtain t d1 r1 where 1: "bs = put_word 2 t @ r1" "dec d1 r1"
    "(if t \<noteq> field_type_code FT_BladeName then Inr None
      else and_then (TakeBladeString d1) (\<lambda>(name, d). and_then (TakeFieldType d) (\<lambda>(t, d). decode_value t name d ret)))
      = Inr (Some (d', ret'))"
    by auto
  then have t: "t = field_type_code FT_BladeName"
    and f: "and_then (TakeBladeString d1) (\<lambda>(name, d). and_then (TakeFieldType d) (\<lambda>(t, d). decode_value t name d ret))
      = Inr (Some (d', ret'))" by (auto split: if_splits)
  from string_exact.read_bind_exact [OF 1(2) f] obtain k d2 r2 where 2: "r1 = string_image k @ r2" "dec d2 r2"
    "and_then (TakeFieldType d2) (\<lambda>(t, d). decode_value t k d ret) = Inr (Some (d', ret'))" by auto
  from type_exact.read_bind_exact [OF 2(2,3)] obtain u d3 r3 where 3: "r2 = put_word 2 u @ r3" "dec d3 r3"
    "decode_value u k d3 ret = Inr (Some (d', ret'))" by auto
  from decode_value_exact [OF 3(2,3)] obtain v rest where
    "put_word 2 u @ r3 = value_image v @ rest" "dec d' rest" "ret' = add_value k v ret" by blast
  with 1(1) 2(1) 3(1) t show ?thesis
    by (intro exI [of _ k] exI [of _ v] exI [of _ rest]) (simp add: field_image_def name_image_def)
qed

lemma decode_loop_exact:
  "dec d bs \<Longrightarrow> decode_loop d ret = Inr (Some r) \<Longrightarrow>
    \<exists>ms. bs = concat (map field_image ms) \<and> r = fold (\<lambda>(k, v). add_value k v) ms ret"
proof (induction d ret arbitrary: bs rule: decode_loop.induct)
  case (1 d ret)
  show ?case
  proof (cases "NotEnd d")
    case True
    with "1.prems"(2) obtain d' ret' where s: "decode_step d ret = Inr (Some (d', ret'))"
      "decode_loop d' ret' = Inr (Some r)"
      by (auto simp: decode_loop.simps [of d] split: sum.splits option.splits)
    from decode_step_exact [OF "1.prems"(1) s(1)] obtain k v rest where
      f: "bs = field_image (k, v) @ rest" "dec d' rest" "ret' = add_value k v ret" by blast
    from "1.IH" [OF True s(1) refl refl f(2) s(2)] obtain ms where
      "rest = concat (map field_image ms)" "r = fold (\<lambda>(k, v). add_value k v) ms ret'" by blast
    with f show ?thesis by (intro exI [of _ "(k, v) # ms"]) simp
  next
    case False
    with "1.prems" NotEnd_dec [of d bs] show ?thesis
      by (intro exI [of _ "[]"]) (simp add: decode_loop.simps [of d])
  qed
qed

lemma DecodeWithHeader_exact:
  assumes n: "length body < 2 ^ 31" and r: "DecodeWithHeader h body 0 (int (length body)) = Inr (Some r)"
  shows "unat (payload_length h) \<le> length body \<and> (\<exists>srv ms. body = string_image srv @ concat (map field_image ms)
    \<and> r = fold (\<lambda>(k, v). add_value k v) ms (received h srv))"
proof -
  have d: "dec (Decoder body 0 (int (length body))) body"
    using dec_Decoder [of "int (length body)" 0 body] n by simp
  have p: "\<not> to_u32 (int (length body)) < uint (payload_length h)"
    and b: "and_then (TakeBladeString (Decoder body 0 (int (length body)))) (\<lambda>(service_name, dec).
        decode_loop dec (SetServiceName service_name (SetRawHeader h new_object))) = Inr (Some r)"
    using r by (simp_all add: DecodeWithHeader_def split: if_splits)
  from string_exact.read_bind_exact [OF d b] obtain srv d' rest where
    s: "body = string_image srv @ rest" "dec d' rest" "decode_loop d' (received h srv) = Inr (Some r)"
    by (auto simp: received_def)
  from decode_loop_exact [OF s(2,3)] obtain ms where
    "rest = concat (map field_image ms)" "r = fold (\<lambda>(k, v). add_value k v) ms (received h srv)" by blast
  moreover have "unat (payload_length h) \<le> length body"
    using p n by (simp add: not_less uint_le_int_iff)
  ultimately show ?thesis using s(1) by blast
qed

text \<open>
  C6. The accepted language. \<^verbatim>\<open>DecodeWithHeader\<close> returns an object exactly for the byte strings that
  are the image of a service name followed by images of fields, at least as long as the header
  announces; the object is what adding these fields in order to the received header gives. So no
  malformed input is accepted, nothing accepted is ignored, and re-encoding loses nothing.
\<close>

theorem DecodeWithHeader_language:
  assumes "length body < 2 ^ 31"
  shows "DecodeWithHeader h body 0 (int (length body)) = Inr (Some r) \<longleftrightarrow>
    unat (payload_length h) \<le> length body
    \<and> (\<exists>srv ms. body = string_image srv @ concat (map field_image ms)
        \<and> r = fold (\<lambda>(k, v). add_value k v) ms (received h srv))"
  using DecodeWithHeader_exact [OF assms, of h r] DecodeWithHeader_fields [of 0 "length body" body h] assms
  by auto

theorem DecodeWithHeader_language_witness:
  "DecodeWithHeader default_header (string_image ''s'' @ field_image (''k'', VByte 7)) 0 15
     = Inr (Some (add_value ''k'' (VByte 7) (received default_header ''s'')))"
proof -
  let ?b = "string_image ''s'' @ field_image (''k'', VByte 7)"
  have "\<exists>srv ms. ?b = string_image srv @ concat (map field_image ms)
      \<and> add_value ''k'' (VByte 7) (received default_header ''s'')
        = fold (\<lambda>(k, v). add_value k v) ms (received default_header srv)"
    by (intro exI [of _ "''s''"] exI [of _ "[(''k'', VByte 7)]"]) simp
  moreover have "length ?b = 15" by (simp add: field_space_def)
  ultimately show ?thesis
    using DecodeWithHeader_language [of ?b default_header "add_value ''k'' (VByte 7) (received default_header ''s'')"]
    by (simp add: default_header_def)
qed

lemma add_value_fields: "obj_wf self \<Longrightarrow>
    field_map (add_value k v self) = (if field_map self k = None then (field_map self)(k \<mapsto> v) else field_map self)"
  by (cases v) (simp_all add: fields_adds)

lemma fold_add_fields:
  "obj_wf self \<Longrightarrow> obj_wf (fold (\<lambda>(k, v). add_value k v) ms self)
    \<and> field_map (fold (\<lambda>(k, v). add_value k v) ms self) = map_of ms ++ field_map self
    \<and> bo_header (fold (\<lambda>(k, v). add_value k v) ms self) = bo_header self
    \<and> bo_service_name (fold (\<lambda>(k, v). add_value k v) ms self) = bo_service_name self"
proof (induction ms arbitrary: self)
  case (Cons m ms)
  obtain k v where m: "m = (k, v)" by (cases m)
  have "map_of ms ++ field_map (add_value k v self) = map_of (m # ms) ++ field_map self"
    using Cons.prems m by (auto simp: add_value_fields map_add_def fun_eq_iff split: option.splits)
  with Cons m show ?case by (simp del: map_of.simps)
qed simp

text \<open>
  Duplicated names. A peer may send the same name several times, with the same or another
  type: the first occurrence wins and the later ones are dropped, since \<^verbatim>\<open>AddX\<close> refuses a name
  that is present in any map. The decoded object is well formed either way.
\<close>

theorem Decode_first_occurrence_wins:
  assumes "length body < 2 ^ 31" and "unat (payload_length h) \<le> length body"
    and "body = string_image srv @ concat (map field_image ms)"
  shows "\<exists>r. DecodeWithHeader h body 0 (int (length body)) = Inr (Some r) \<and> obj_wf r
    \<and> field_map r = map_of ms \<and> bo_header r = h \<and> bo_service_name r = srv"
  using DecodeWithHeader_fields [of 0 "length body" body h srv ms] assms
    fold_add_fields [of "received h srv" ms] by simp

theorem Decode_first_occurrence_wins_witness:
  "\<exists>r. DecodeWithHeader default_header (string_image [] @ field_image (''k'', VByte 7) @ field_image (''k'', VI32 9)) 0 27
      = Inr (Some r) \<and> field_map r = [''k'' \<mapsto> VByte 7]"
proof -
  let ?b = "string_image [] @ concat (map field_image [(''k'', VByte 7), (''k'', VI32 9)])"
  have "length ?b = 27" by (simp add: field_space_def)
  with Decode_first_occurrence_wins [of ?b default_header "[]" "[(''k'', VByte 7), (''k'', VI32 9)]"]
  have "\<exists>r. DecodeWithHeader default_header ?b 0 27 = Inr (Some r)
      \<and> field_map r = map_of [(''k'', VByte 7), (''k'', VI32 9)]"
    by (auto simp: default_header_def simp del: map_of.simps list.map concat.simps)
  moreover have "map_of [(''k'', VByte 7), (''k'', VI32 9)] = [''k'' \<mapsto> VByte 7]" by auto
  ultimately show ?thesis by simp
qed

lemma name_image_not_Nil: "name_image k \<noteq> []"
  by (rule notI) (use length_name_image [of k] in simp)

lemma decode_step_unknown:
  assumes k: "length k < 2 ^ 32" and d: "dec d (name_image k @ put_word 2 t @ rest)"
    and t: "t \<notin> field_type_code ` {FT_Byte, FT_I32, FT_I64, FT_F64, FT_String}"
  shows "decode_step d ret = Inl UnreachableCode"
proof -
  from d obtain d1 where d1: "TakeFieldType d = Inr (field_type_code FT_BladeName, d1)"
    "dec d1 (string_image k @ put_word 2 t @ rest)"
    using type_dec.read_image [where x = "field_type_code FT_BladeName" and d = d]
    by (auto simp: name_image_def)
  have "str32_ok k" using k by (simp add: str32_ok_def)
  from string_dec.read_image [OF this d1(2)] obtain d2 where d2: "TakeBladeString d1 = Inr (k, d2)"
    "dec d2 (put_word 2 t @ rest)" by blast
  from type_dec.read_image [OF TrueI d2(2)] obtain d3 where d3: "TakeFieldType d2 = Inr (t, d3)" by blast
  with d1(1) d2(1) t show ?thesis
    by (simp add: decode_step_def decode_field_def decode_value_def)
qed

text \<open>
  An unknown type throws. When the bytes are well formed up to a field whose wire type is none
  of the five, \<^verbatim>\<open>DecodeWithHeader\<close> does not return null as for every other malformed field: it throws
  \<^verbatim>\<open>UnreachableCode\<close>, whatever follows, since its handler only catches
  \<^verbatim>\<open>RemainLengthNotEnoughException\<close>.
\<close>

theorem Decode_unknown_type_throws:
  assumes "length body < 2 ^ 31" and "unat (payload_length h) \<le> length body"
    and "body = string_image srv @ concat (map field_image ms) @ name_image k @ put_word 2 t @ rest"
    and "t \<notin> field_type_code ` {FT_Byte, FT_I32, FT_I64, FT_F64, FT_String}"
  shows "DecodeWithHeader h body 0 (int (length body)) = Inl UnreachableCode"
proof -
  from assms(3) have "take (length body) (drop 0 body)
      = string_image srv @ concat (map field_image ms) @ name_image k @ put_word 2 t @ rest" by simp
  from DecodeWithHeader_prefix [OF _ assms(1,2) this] obtain d ret where
    d: "DecodeWithHeader h body 0 (int (length body)) = decode_loop d ret"
      "dec d (name_image k @ put_word 2 t @ rest)" by auto
  have "length k < 2 ^ 32" using assms(1,3) by simp
  have "NotEnd d" using NotEnd_dec [OF d(2)] name_image_not_Nil by simp
  with decode_step_unknown [OF \<open>length k < 2 ^ 32\<close> d(2) assms(4)] d(1) show ?thesis
    by (simp add: decode_loop.simps [of d])
qed

theorem Decode_unknown_type_throws_witness:
  "DecodeWithHeader default_header (string_image ''s'' @ name_image ''k'' @ put_word 2 (9 :: u16)) 0 14
     = Inl UnreachableCode"
proof -
  let ?b = "string_image ''s'' @ name_image ''k'' @ put_word 2 (9 :: u16)"
  have len: "length ?b = 14" by simp
  have l: "length ?b < 2 ^ 31" unfolding len by simp
  have h: "unat (payload_length default_header) \<le> length ?b" by (simp add: default_header_def)
  have b: "?b = string_image ''s'' @ concat (map field_image []) @ name_image ''k'' @ put_word 2 (9 :: u16) @ []"
    by (simp only: list.map concat.simps append_Nil append_Nil2)
  have t: "(9 :: u16) \<notin> field_type_code ` {FT_Byte, FT_I32, FT_I64, FT_F64, FT_String}" by simp
  from Decode_unknown_type_throws [OF l h b t] show ?thesis by (simp only: len of_nat_numeral)
qed

end
