(* ===== verification/Blade_Sync.thy ===== *)
theory Blade_Sync
  imports Blade_Opr
begin

text \<open>
  blade/buffer\_adaptor.h and blade/sync\_session: one blocking request and its answer.

  The socket is asio's: the model has the other end of the connection as a parameter (\<open>peer\<close>), with
  the error codes of connecting and writing (0 is success), the bytes it sends back as a function of
  the bytes it received, and the error code of a read that gets fewer bytes than asked for.
\<close>

section \<open>BufferAdaptor\<close>

text \<open>
  \<^verbatim>\<open>asio::streambuf\<close>: the input sequence, and the output area that \<^verbatim>\<open>prepare\<close> hands out. The
  content of a fresh output area is not specified by asio; every use here overwrites it before
  committing. Committing or consuming more than there is takes what there is.
\<close>

record buffer_adaptor =
  in_seq :: mem
  out_area :: mem

definition new_buffer :: buffer_adaptor where
  "new_buffer = \<lparr>in_seq = [], out_area = []\<rparr>"

definition GetSize :: "buffer_adaptor \<Rightarrow> nat" where "GetSize b = length (in_seq b)"
definition GetBuffer :: "buffer_adaptor \<Rightarrow> mem" where "GetBuffer b = in_seq b"
definition PrepareBuffer :: "nat \<Rightarrow> buffer_adaptor \<Rightarrow> buffer_adaptor" where
  "PrepareBuffer n b = b\<lparr>out_area := replicate n 0\<rparr>"
definition Produce :: "nat \<Rightarrow> buffer_adaptor \<Rightarrow> buffer_adaptor" where
  "Produce n b = b\<lparr>in_seq := in_seq b @ take n (out_area b), out_area := drop n (out_area b)\<rparr>"
definition Consume :: "nat \<Rightarrow> buffer_adaptor \<Rightarrow> buffer_adaptor" where
  "Consume n b = b\<lparr>in_seq := drop n (in_seq b)\<rparr>"
definition Consume_to :: "nat \<Rightarrow> buffer_adaptor \<Rightarrow> mem option \<times> buffer_adaptor" where
  "Consume_to n b = (if GetSize b < n then (None, b) else (Some (take n (in_seq b)), Consume n b))"

definition fill :: "mem \<Rightarrow> buffer_adaptor \<Rightarrow> buffer_adaptor" where \<comment> \<open>someone wrote \<open>bs\<close> into the area\<close>
  "fill bs b = b\<lparr>out_area := bs @ drop (length bs) (out_area b)\<rparr>"

text \<open>The scope of \<^verbatim>\<open>auto g = buf.MakeGuard(n)\<close> around an action that may throw.\<close>

definition with_guard :: "nat \<Rightarrow> (buffer_adaptor \<Rightarrow> (buffer_adaptor \<times> 'a) result) \<Rightarrow> buffer_adaptor \<Rightarrow> (buffer_adaptor \<times> 'a) result" where
  "with_guard n body b = and_then (body (Produce n b)) (\<lambda>(b, x). Inr (Consume n b, x))"

lemmas buffer_defs = GetSize_def GetBuffer_def PrepareBuffer_def Produce_def Consume_def Consume_to_def
  fill_def with_guard_def new_buffer_def

definition GetRawBladeHeaderFromPtr :: "mem \<Rightarrow> raw_blade_header result" where
  "GetRawBladeHeaderFromPtr ptr = and_then (mem_read ptr 0 sizeof_header) (\<lambda>bs.
     Inr \<lparr>magic_number = get_word (take 4 bs), hdr_id = get_word (take 4 (drop 4 bs)),
       hdr_trace_id = get_word (take 4 (drop 8 bs)), hdr_type = get_word (take 4 (drop 12 bs)),
       payload_length = get_word (take 4 (drop 16 bs)), content_offset = get_word (take 4 (drop 20 bs)),
       extra = (get_word (take 4 (drop 24 bs)), get_word (take 4 (drop 28 bs)),
                get_word (take 4 (drop 32 bs)), get_word (take 4 (drop 36 bs)))\<rparr>)"

section \<open>The session\<close>

record sync_session =
  sy_send :: buffer_adaptor
  sy_recv :: buffer_adaptor
  sy_header :: "raw_blade_header option"
  sy_obj :: "blade_object option"

definition SyncSession :: sync_session where
  "SyncSession = \<lparr>sy_send = new_buffer, sy_recv = new_buffer, sy_header = None, sy_obj = None\<rparr>"

definition SetObject :: "blade_object option \<Rightarrow> sync_session \<Rightarrow> sync_session" where
  "SetObject obj s = s\<lparr>sy_obj := obj\<rparr>"

definition GetObject :: "sync_session \<Rightarrow> blade_object option" where
  "GetObject s = sy_obj s"

type_synonym error_code = nat \<comment> \<open>0 is success\<close>

record peer =
  pr_connect :: error_code
  pr_write :: error_code
  pr_read :: error_code
  pr_reply :: "mem \<Rightarrow> mem"

text \<open>\<^verbatim>\<open>net::read\<close> into a buffer of \<open>n\<close> bytes: all of them, or an error.\<close>

definition net_read :: "peer \<Rightarrow> nat \<Rightarrow> mem \<Rightarrow> mem \<times> mem \<times> error_code" where
  "net_read p n stream =
     (if n \<le> length stream then (take n stream, drop n stream, 0) else (stream, [], pr_read p))"

text \<open>\<^verbatim>\<open>SetBladeHeader\<close> and \<^verbatim>\<open>SetBladeObject\<close>, on the receive buffer and the two members they set.\<close>

definition SetBladeHeader :: "sync_session \<Rightarrow> sync_session result" where
  "SetBladeHeader s =
     (let s = s\<lparr>sy_obj := None\<rparr> in
      if GetSize (sy_recv s) < sizeof_header then Inr s
      else and_then (GetRawBladeHeaderFromPtr (GetBuffer (sy_recv s))) (\<lambda>header.
        Inr (s\<lparr>sy_recv := Consume sizeof_header (sy_recv s), sy_header := Some header\<rparr>)))"

definition SetBladeObject :: "sync_session \<Rightarrow> sync_session result" where
  "SetBladeObject s =
     (case sy_header s of
        None \<Rightarrow> Inl NullDeref
      | Some h \<Rightarrow> and_then (DecodeWithHeader h (GetBuffer (sy_recv s)) 0 (to_int32 (int (GetSize (sy_recv s)))))
          (\<lambda>r. Inr (s\<lparr>sy_obj := r\<rparr>)))"

text \<open>The four parts of \<^verbatim>\<open>Start\<close> after the connect, with \<open>stream\<close> the bytes still to come from the peer.\<close>

definition sync_send :: "peer \<Rightarrow> sync_session \<Rightarrow> (sync_session \<times> mem \<times> error_code) result" where
  "sync_send p s =
     (case sy_obj s of
        None \<Rightarrow> Inl NullDeref
      | Some obj \<Rightarrow>
          let (obj, size_required) = GetEncodedSize obj;
              buffer = PrepareBuffer size_required (sy_send s)
          in and_then (Encode obj (out_area buffer) (to_int32 (int size_required))) (\<lambda>(obj, area, _).
             let buffer = Produce size_required (fill area buffer);
                 sent = GetBuffer buffer
             in Inr (s\<lparr>sy_obj := Some obj, sy_send := Consume size_required buffer\<rparr>, sent, pr_write p)))"

definition sync_recv_header :: "peer \<Rightarrow> mem \<Rightarrow> sync_session \<Rightarrow> (sync_session \<times> mem \<times> error_code) result" where
  "sync_recv_header p stream s =
     (let buffer = PrepareBuffer sizeof_header (sy_recv s);
          (got, stream, ec) = net_read p sizeof_header stream;
          buffer = fill got buffer
      in if ec \<noteq> 0 then Inr (s\<lparr>sy_recv := buffer\<rparr>, stream, ec)
         else and_then (SetBladeHeader (s\<lparr>sy_recv := Produce sizeof_header buffer\<rparr>)) (\<lambda>s.
           Inr (s\<lparr>sy_recv := Consume sizeof_header (sy_recv s)\<rparr>, stream, 0)))"

definition sync_recv_body :: "peer \<Rightarrow> mem \<Rightarrow> sync_session \<Rightarrow> (sync_session \<times> mem \<times> error_code) result" where
  "sync_recv_body p stream s =
     (case sy_header s of
        None \<Rightarrow> Inl NullDeref
      | Some h \<Rightarrow>
          let body_length = unat (payload_length h);
              buffer = PrepareBuffer body_length (sy_recv s);
              (got, stream, ec) = net_read p body_length stream;
              buffer = fill got buffer
          in if ec \<noteq> 0 then Inr (s\<lparr>sy_recv := buffer\<rparr>, stream, ec)
             else and_then (SetBladeObject (s\<lparr>sy_recv := Produce body_length buffer\<rparr>)) (\<lambda>s.
               Inr (s\<lparr>sy_recv := Consume body_length (sy_recv s)\<rparr>, stream, 0)))"

definition Start :: "peer \<Rightarrow> sync_session \<Rightarrow> (sync_session \<times> error_code) result" where
  "Start p s =
     (if pr_connect p \<noteq> 0 then Inr (s, pr_connect p)
      else and_then (sync_send p s) (\<lambda>(s, sent, ec).
        if ec \<noteq> 0 then Inr (s, ec)
        else and_then (sync_recv_header p (pr_reply p sent) (s\<lparr>sy_obj := None\<rparr>)) (\<lambda>(s, stream, ec).
          if ec \<noteq> 0 then Inr (s, ec)
          else and_then (sync_recv_body p stream s) (\<lambda>(s, _, ec). Inr (s, ec)))))"

text \<open>
  The four static calls, with the peer found at the address they connect to; \<open>net\<close> throws for an
  address that does not parse. Their result is a \<^verbatim>\<open>Ptr<BladeObject>\<close>.
\<close>

type_synonym network = "string \<Rightarrow> port \<Rightarrow> peer result"

definition deref_clone :: "blade_object option \<Rightarrow> blade_object option result" where
  "deref_clone p = (case p of None \<Rightarrow> Inl NullDeref | Some obj \<Rightarrow> Inr (Some (Clone obj)))"

definition CallExt :: "network \<Rightarrow> blade_object option \<Rightarrow> port \<Rightarrow> string \<Rightarrow> blade_object option result" where
  "CallExt net obj prt ip =
     and_then (net ip prt) (\<lambda>p.
     and_then (Start p (SetObject obj SyncSession)) (\<lambda>(s, _). deref_clone (GetObject s)))"

definition CallExtNotSure :: "network \<Rightarrow> blade_object option \<Rightarrow> port \<Rightarrow> string \<Rightarrow> blade_object option result" where
  "CallExtNotSure net obj prt ip =
     and_then (net ip prt) (\<lambda>p.
     and_then (Start p (SetObject obj SyncSession)) (\<lambda>(s, ec).
     if ec \<noteq> 0 then Inr None else deref_clone (GetObject s)))"

definition Call :: "network \<Rightarrow> blade_object option \<Rightarrow> blade_object option result" where
  "Call net obj =
     and_then (net ''127.0.0.1'' kLokiPort) (\<lambda>p.
     and_then (Start p (SetObject obj SyncSession)) (\<lambda>(s, _). deref_clone (GetObject s)))"

definition CallNotSure :: "network \<Rightarrow> blade_object option \<Rightarrow> blade_object option result" where
  "CallNotSure net obj =
     and_then (net ''127.0.0.1'' kLokiPort) (\<lambda>p.
     and_then (Start p (SetObject obj SyncSession)) (\<lambda>(s, ec).
     if \<not> (ec \<noteq> 0) then Inr None else deref_clone (GetObject s)))"

section \<open>The outcome of an exchange\<close>

lemma GetRawBladeHeaderFromPtr_image: "GetRawBladeHeaderFromPtr (header_bytes h @ rest) = Inr h"
proof -
  obtain e0 e1 e2 e3 where "extra h = (e0, e1, e2, e3)" by (cases "extra h") auto
  then show ?thesis
    by (simp add: GetRawBladeHeaderFromPtr_def mem_read_def sizeof_header_def)
      (simp add: header_bytes_def get_put_word)
qed

lemma GetRawBladeHeaderFromPtr_total: "40 \<le> length bs \<Longrightarrow> \<exists>h. GetRawBladeHeaderFromPtr bs = Inr h"
  by (simp add: GetRawBladeHeaderFromPtr_def mem_read_def sizeof_header_def)

lemma Encode_updated:
  assumes "obj_fits o'"
  shows "Encode (UpdateHeaderField o') (replicate (40 + body_size o') 0) (to_int32 (int (40 + body_size o')))
      = Inr (UpdateHeaderField o', object_image (UpdateHeaderField o'), word_of_nat (40 + body_size o'))"
proof -
  let ?n = "40 + body_size o'"
  have i: "to_int32 (int ?n) = int ?n"
    using assms by (intro to_int32_id) (simp_all add: obj_fits_def sizeof_header_def)
  have fits: "obj_fits (UpdateHeaderField o')" using assms by simp
  have size: "body_size (UpdateHeaderField o') = body_size o'" using assms by simp
  have "UpdateHeaderField (UpdateHeaderField o') = UpdateHeaderField o'"
    using UpdateHeaderField_eq [OF fits] assms unfolding size
    by (simp add: UpdateHeaderField_eq [OF assms])
  with Encode_sized [OF fits, of "replicate ?n 0"] i show ?thesis
    unfolding size by (simp del: of_nat_add)
qed

lemma sync_send_eq:
  assumes "obj_fits o'" and "sy_obj s = Some o'" and "in_seq (sy_send s) = []"
  shows "\<exists>b. sync_send p s = Inr (s\<lparr>sy_obj := Some (UpdateHeaderField o'), sy_send := b\<rparr>,
      object_image (UpdateHeaderField o'), pr_write p) \<and> in_seq b = []"
proof -
  have "length (object_image (UpdateHeaderField o')) = 40 + body_size o'"
    using assms(1) by (simp add: length_object_image)
  with Encode_updated [OF assms(1)] assms show ?thesis
    by (intro exI [of _ "\<lparr>in_seq = [], out_area = []\<rparr>"])
      (simp add: sync_send_def Let_def GetEncodedSize_exact_eq buffer_defs del: of_nat_add)
qed

text \<open>What an exchange comes to: the object left in the session and the error code.\<close>

definition exchange :: "peer \<Rightarrow> blade_object \<Rightarrow> (blade_object option \<times> error_code) result" where
  "exchange p o' =
     (let sent = UpdateHeaderField o'; reply = pr_reply p (object_image sent) in
      if pr_connect p \<noteq> 0 then Inr (Some o', pr_connect p)
      else if pr_write p \<noteq> 0 then Inr (Some sent, pr_write p)
      else if length reply < 40 then Inr (None, pr_read p)
      else and_then (GetRawBladeHeaderFromPtr reply) (\<lambda>h.
        let n = unat (payload_length h) in
        if length reply < 40 + n then Inr (None, pr_read p)
        else and_then (DecodeWithHeader h (take n (drop 40 reply)) 0 (to_int32 (int n))) (\<lambda>r. Inr (r, 0))))"

lemma GetRaw_take: "GetRawBladeHeaderFromPtr (take 40 bs) = (if 40 \<le> length bs then GetRawBladeHeaderFromPtr bs else Inl OutOfBounds)"
  by (simp add: GetRawBladeHeaderFromPtr_def mem_read_def sizeof_header_def)

lemma sync_recv_header_eq:
  assumes "in_seq (sy_recv s) = []" and "pr_read p \<noteq> 0"
  shows "\<exists>b. (length stream < 40 \<longrightarrow> sync_recv_header p stream s = Inr (s\<lparr>sy_recv := b\<rparr>, [], pr_read p))
    \<and> (40 \<le> length stream \<longrightarrow> (\<exists>h. GetRawBladeHeaderFromPtr stream = Inr h
        \<and> sync_recv_header p stream s = Inr (s\<lparr>sy_obj := None, sy_recv := b, sy_header := Some h\<rparr>, drop 40 stream, 0)
        \<and> in_seq b = []))"
proof (cases "length stream < 40")
  case True
  then show ?thesis using assms
    by (intro exI [of _ "fill stream (PrepareBuffer 40 (sy_recv s))"])
      (simp add: sync_recv_header_def net_read_def sizeof_header_def Let_def)
next
  case False
  then have "40 \<le> length stream" by simp
  from GetRawBladeHeaderFromPtr_total [OF this] obtain h where h: "GetRawBladeHeaderFromPtr stream = Inr h" by blast
  with False show ?thesis using assms
    by (intro exI [of _ "\<lparr>in_seq = [], out_area = []\<rparr>"])
      (simp add: sync_recv_header_def net_read_def sizeof_header_def Let_def SetBladeHeader_def buffer_defs GetRaw_take)
qed

lemma sync_recv_body_eq:
  assumes "in_seq (sy_recv s) = []" and "pr_read p \<noteq> 0" and h: "sy_header s = Some h" and "sy_obj s = None"
  defines "n \<equiv> unat (payload_length h)"
  shows "and_then (sync_recv_body p stream s) (\<lambda>(s, _, ec). Inr (GetObject s, ec)) =
    (if length stream < n then Inr (None, pr_read p)
     else and_then (DecodeWithHeader h (take n stream) 0 (to_int32 (int n))) (\<lambda>r. Inr (r, 0)))"
proof (cases "length stream < n")
  case True
  with assms show ?thesis by (simp add: sync_recv_body_def net_read_def Let_def GetObject_def)
next
  case False
  with assms show ?thesis
    by (cases "DecodeWithHeader h (take n stream) 0 (to_int32 (int n))")
      (simp_all add: sync_recv_body_def net_read_def Let_def GetObject_def SetBladeObject_def buffer_defs)
qed

lemma Start_exchange:
  assumes "obj_fits o'" and "pr_read p \<noteq> 0"
  shows "and_then (Start p (SetObject (Some o') SyncSession)) (\<lambda>(s, ec). Inr (GetObject s, ec)) = exchange p o'"
proof -
  let ?s = "SetObject (Some o') SyncSession" and ?sent = "UpdateHeaderField o'"
  have s: "sy_obj ?s = Some o'" "in_seq (sy_send ?s) = []" "in_seq (sy_recv ?s) = []" "sy_header ?s = None"
    by (simp_all add: SetObject_def SyncSession_def new_buffer_def)
  from sync_send_eq [OF assms(1) s(1,2), of p] obtain b where
    send: "sync_send p ?s = Inr (?s\<lparr>sy_obj := Some ?sent, sy_send := b\<rparr>, object_image ?sent, pr_write p)" by blast
  show ?thesis
  proof (cases "pr_connect p \<noteq> 0 \<or> pr_write p \<noteq> 0")
    case True
    then show ?thesis using send s(1)
      by (auto simp: Start_def exchange_def GetObject_def Let_def)
  next
    case False
    let ?s1 = "?s\<lparr>sy_send := b, sy_obj := None\<rparr>" and ?reply = "pr_reply p (object_image ?sent)"
    have "in_seq (sy_recv ?s1) = []" using s(3) by simp
    from sync_recv_header_eq [OF this assms(2), of ?reply] obtain c where
      short: "length ?reply < 40 \<longrightarrow> sync_recv_header p ?reply ?s1 = Inr (?s1\<lparr>sy_recv := c\<rparr>, [], pr_read p)"
      and long: "40 \<le> length ?reply \<longrightarrow> (\<exists>h. GetRawBladeHeaderFromPtr ?reply = Inr h
        \<and> sync_recv_header p ?reply ?s1 = Inr (?s1\<lparr>sy_obj := None, sy_recv := c, sy_header := Some h\<rparr>, drop 40 ?reply, 0)
        \<and> in_seq c = [])" by blast
    have start: "Start p ?s = and_then (sync_recv_header p ?reply ?s1) (\<lambda>(s, stream, ec).
        if ec \<noteq> 0 then Inr (s, ec) else and_then (sync_recv_body p stream s) (\<lambda>(s, _, ec). Inr (s, ec)))"
      using False send by (simp add: Start_def)
    show ?thesis
    proof (cases "length ?reply < 40")
      case True
      with short False assms(2) show ?thesis by (simp add: start exchange_def Let_def GetObject_def)
    next
      case ge: False
      with long obtain h where h: "GetRawBladeHeaderFromPtr ?reply = Inr h"
        "sync_recv_header p ?reply ?s1 = Inr (?s1\<lparr>sy_obj := None, sy_recv := c, sy_header := Some h\<rparr>, drop 40 ?reply, 0)"
        "in_seq c = []" by auto
      let ?s2 = "?s1\<lparr>sy_obj := None, sy_recv := c, sy_header := Some h\<rparr>" and ?n = "unat (payload_length h)"
      have "and_then (Start p ?s) (\<lambda>(s, ec). Inr (GetObject s, ec))
          = and_then (sync_recv_body p (drop 40 ?reply) ?s2) (\<lambda>(s, _, ec). Inr (GetObject s, ec))"
        unfolding start h(2) by (simp add: and_then_assoc split_def)
      also have "\<dots> = (if length (drop 40 ?reply) < ?n then Inr (None, pr_read p)
          else and_then (DecodeWithHeader h (take ?n (drop 40 ?reply)) 0 (to_int32 (int ?n))) (\<lambda>r. Inr (r, 0)))"
        using h(3) assms(2) by (intro sync_recv_body_eq) simp_all
      also have "\<dots> = exchange p o'"
        using False ge h(1) by (auto simp: exchange_def Let_def)
      finally show ?thesis .
    qed
  qed
qed

lemma and_then_pair: "and_then m (\<lambda>(s, ec). f (GetObject s) ec)
    = and_then (and_then m (\<lambda>(s, ec). Inr (GetObject s, ec))) (\<lambda>(r, ec). f r ec)"
  by (cases m) (auto split: prod.splits)

lemma calls_exchange:
  assumes "obj_fits o'" and "pr_read p \<noteq> 0" and "net ip prt = Inr p"
  shows "CallExt net (Some o') prt ip = and_then (exchange p o') (\<lambda>(r, _). deref_clone r)"
    and "CallExtNotSure net (Some o') prt ip
      = and_then (exchange p o') (\<lambda>(r, ec). if ec \<noteq> 0 then Inr None else deref_clone r)"
  using assms(3) and_then_pair [of "Start p (SetObject (Some o') SyncSession)" "\<lambda>r _. deref_clone r"]
    and_then_pair [of "Start p (SetObject (Some o') SyncSession)" "\<lambda>r ec. if ec \<noteq> 0 then Inr None else deref_clone r"]
  by (simp_all add: CallExt_def CallExtNotSure_def Start_exchange [OF assms(1,2)])

lemma local_calls_exchange:
  assumes "obj_fits o'" and "pr_read p \<noteq> 0" and "net ''127.0.0.1'' kLokiPort = Inr p"
  shows "Call net (Some o') = and_then (exchange p o') (\<lambda>(r, _). deref_clone r)"
    and "CallNotSure net (Some o') = and_then (exchange p o') (\<lambda>(r, ec). if ec = 0 then Inr None else deref_clone r)"
  using assms(3) and_then_pair [of "Start p (SetObject (Some o') SyncSession)" "\<lambda>r _. deref_clone r"]
    and_then_pair [of "Start p (SetObject (Some o') SyncSession)" "\<lambda>r ec. if ec = 0 then Inr None else deref_clone r"]
  by (simp_all add: Call_def CallNotSure_def Start_exchange [OF assms(1,2)])

lemma to_int32_uint: "unat w < 2 ^ 31 \<Longrightarrow> to_int32 (uint w) = uint w"
  by (intro to_int32_id) (simp_all add: uint_nat del: of_nat_unat)

lemma exchange_answered:
  assumes ok: "pr_connect p = 0" "pr_write p = 0"
    and r: "obj_wf r" "obj_fits r" and reply: "pr_reply p (object_image (UpdateHeaderField o')) = object_image (UpdateHeaderField r) @ trailing"
  shows "\<exists>r'. exchange p o' = Inr (Some r', 0) \<and> obj_wf r' \<and> obj_equiv r' (UpdateHeaderField r)"
proof -
  let ?u = "UpdateHeaderField r" and ?n = "body_size r"
  have n: "?n < 2 ^ 31" using r(2) by (simp add: obj_fits_def)
  have len: "length (object_image ?u) = 40 + ?n" using r(2) by (simp add: length_object_image)
  have pl: "unat (payload_length (bo_header ?u)) = ?n"
    using r(2) n by (simp add: unat_of_nat_small)
  have hdr: "GetRawBladeHeaderFromPtr (object_image ?u @ trailing) = Inr (bo_header ?u)"
    using GetRawBladeHeaderFromPtr_image by (simp add: object_image_def)
  have body: "take ?n (drop 40 (object_image ?u @ trailing)) = body_image ?u"
    using r(2) by (simp add: object_image_def length_body_image)
  have i: "to_int32 (int ?n) = int ?n" using n by (intro to_int32_id) simp_all
  obtain r' where r': "DecodeWithHeader (bo_header ?u) (body_image ?u) 0 (int ?n) = Inr (Some r')" "obj_wf r'" "obj_equiv r' ?u"
    using DecodeWithHeader_image [of ?u 0 "body_image ?u"] r by (auto simp: length_body_image)
  have "exchange p o' = and_then (DecodeWithHeader (bo_header ?u) (take ?n (drop 40 (object_image ?u @ trailing))) 0
      (to_int32 (int ?n))) (\<lambda>r. Inr (r, 0))"
    using ok hdr len pl unfolding exchange_def Let_def reply by simp
  also have "\<dots> = Inr (Some r', 0)" unfolding body i r'(1) by simp
  finally have "exchange p o' = Inr (Some r', 0)" .
  with r' show ?thesis by blast
qed

text \<open>
  C25. A blocking call. When connecting and writing succeed and the peer answers with the encoding of a
  well-formed object \<open>r\<close> (whatever it sends after it), the peer has received bytes that decode to the request, and both
  calls give back \<open>r\<close>, up to the iteration order of its maps and with its sizes filled in.
\<close>

theorem CallExt_roundtrip:
  assumes "net ip prt = Inr p" and "pr_connect p = 0" and "pr_write p = 0" and "pr_read p \<noteq> 0"
    and "obj_wf o'" and "obj_fits o'" and "obj_wf r" and "obj_fits r"
    and "pr_reply p (object_image (UpdateHeaderField o')) = object_image (UpdateHeaderField r) @ trailing"
  shows "(\<exists>q. Decode (object_image (UpdateHeaderField o')) (int (40 + body_size o')) = Inr (Some q)
        \<and> obj_wf q \<and> obj_equiv q (UpdateHeaderField o'))
    \<and> (\<exists>r'. CallExt net (Some o') prt ip = Inr (Some r') \<and> CallExtNotSure net (Some o') prt ip = Inr (Some r')
        \<and> obj_wf r' \<and> obj_equiv r' (UpdateHeaderField r) \<and> field_map r' = field_map r)"
proof -
  obtain r' where r': "exchange p o' = Inr (Some r', 0)" "obj_wf r'" "obj_equiv r' (UpdateHeaderField r)"
    using exchange_answered [OF assms(2,3,7,8,9)] by blast
  moreover have "field_map r' = field_map r"
    using obj_equiv_fields [of "UpdateHeaderField r" r'] r' assms(7,8) by simp
  ultimately show ?thesis
    using Decode_object_image [OF assms(5,6), of "[]"]
    by (simp add: calls_exchange [where net = net and ip = ip and prt = prt, OF assms(6,4,1)] deref_clone_def Clone_def)
qed

definition echo_peer :: peer where \<comment> \<open>sends back what it receives\<close>
  "echo_peer = \<lparr>pr_connect = 0, pr_write = 0, pr_read = 2, pr_reply = (\<lambda>bs. bs)\<rparr>"

lemma small_keep_alive: "obj_fits (NewKeepAlive 1 ''s'')"
  by (simp add: obj_fits_def sizeof_header_def)

theorem CallExt_roundtrip_witness:
  "\<exists>r'. CallExt (\<lambda>_ _. Inr echo_peer) (Some (NewKeepAlive 1 ''s'')) 80 ''1'' = Inr (Some r') \<and> field_map r' = Map.empty"
proof -
  let ?o = "NewKeepAlive 1 ''s''"
  have r: "pr_reply echo_peer (object_image (UpdateHeaderField ?o)) = object_image (UpdateHeaderField ?o) @ []"
    by (simp add: echo_peer_def)
  show ?thesis
    using CallExt_roundtrip [of "\<lambda>_ _. Inr echo_peer" "''1''" 80 echo_peer, OF refl _ _ _ _ small_keep_alive _ small_keep_alive r]
    by (auto simp: echo_peer_def)
qed

text \<open>
  C37. What the calls do when the exchange fails. If connecting or writing fails,
  \<^verbatim>\<open>CallExt\<close> (and \<^verbatim>\<open>Call\<close>) report success: they return a copy of the request itself as if it were
  the answer. If the connection is lost before the whole answer has come, they dereference a null
  pointer. \<^verbatim>\<open>CallExtNotSure\<close> gives null in all these cases; an answer whose body does not
  decode is a null dereference in both.
\<close>

theorem CallExt_failures:
  assumes "net ip prt = Inr p" and "obj_fits o'" and "pr_read p \<noteq> 0"
  shows "(pr_connect p \<noteq> 0 \<longrightarrow> CallExt net (Some o') prt ip = Inr (Some o')
        \<and> CallExtNotSure net (Some o') prt ip = Inr None)
    \<and> (pr_connect p = 0 \<and> pr_write p \<noteq> 0 \<longrightarrow> CallExt net (Some o') prt ip = Inr (Some (UpdateHeaderField o'))
        \<and> CallExtNotSure net (Some o') prt ip = Inr None)
    \<and> (pr_connect p = 0 \<and> pr_write p = 0 \<and> length (pr_reply p (object_image (UpdateHeaderField o'))) < 40 \<longrightarrow> CallExt net (Some o') prt ip = Inl NullDeref
        \<and> CallExtNotSure net (Some o') prt ip = Inr None)
    \<and> (\<forall>h body. pr_connect p = 0 \<and> pr_write p = 0 \<and> pr_reply p (object_image (UpdateHeaderField o')) = header_bytes h @ body \<longrightarrow>
        (length body < unat (payload_length h) \<longrightarrow> CallExt net (Some o') prt ip = Inl NullDeref
          \<and> CallExtNotSure net (Some o') prt ip = Inr None)
        \<and> (length body = unat (payload_length h) \<and> length body < 2 ^ 31
            \<and> DecodeWithHeader h body 0 (int (length body)) = Inr None \<longrightarrow>
          CallExt net (Some o') prt ip = Inl NullDeref \<and> CallExtNotSure net (Some o') prt ip = Inl NullDeref))"
proof -
  let ?reply = "pr_reply p (object_image (UpdateHeaderField o'))"
  have ex: "exchange p o' = (if pr_connect p \<noteq> 0 then Inr (Some o', pr_connect p)
      else if pr_write p \<noteq> 0 then Inr (Some (UpdateHeaderField o'), pr_write p)
      else if length ?reply < 40 then Inr (None, pr_read p)
      else and_then (GetRawBladeHeaderFromPtr ?reply) (\<lambda>h.
        if length ?reply < 40 + unat (payload_length h) then Inr (None, pr_read p)
        else and_then (DecodeWithHeader h (take (unat (payload_length h)) (drop 40 ?reply)) 0
          (to_int32 (int (unat (payload_length h))))) (\<lambda>r. Inr (r, 0))))"
    by (simp add: exchange_def Let_def)
  have body: "(length body < unat (payload_length h) \<longrightarrow> exchange p o' = Inr (None, pr_read p))
      \<and> (length body = unat (payload_length h) \<and> length body < 2 ^ 31
          \<and> DecodeWithHeader h body 0 (int (length body)) = Inr None \<longrightarrow> exchange p o' = Inr (None, 0))"
    if "pr_connect p = 0 \<and> pr_write p = 0 \<and> ?reply = header_bytes h @ body" for h body
    using that by (auto simp: ex GetRawBladeHeaderFromPtr_image to_int32_uint)
  show ?thesis
  proof (intro conjI allI)
    show "pr_connect p \<noteq> 0 \<longrightarrow> CallExt net (Some o') prt ip = Inr (Some o') \<and> CallExtNotSure net (Some o') prt ip = Inr None"
      by (simp add: calls_exchange [where net = net and ip = ip and prt = prt, OF assms(2,3,1)] ex deref_clone_def Clone_def)
    show "pr_connect p = 0 \<and> pr_write p \<noteq> 0 \<longrightarrow> CallExt net (Some o') prt ip = Inr (Some (UpdateHeaderField o'))
        \<and> CallExtNotSure net (Some o') prt ip = Inr None"
      by (simp add: calls_exchange [where net = net and ip = ip and prt = prt, OF assms(2,3,1)] ex deref_clone_def Clone_def)
    show "pr_connect p = 0 \<and> pr_write p = 0 \<and> length ?reply < 40 \<longrightarrow> CallExt net (Some o') prt ip = Inl NullDeref
        \<and> CallExtNotSure net (Some o') prt ip = Inr None"
      using assms(3) by (simp add: calls_exchange [where net = net and ip = ip and prt = prt, OF assms(2,3,1)] ex deref_clone_def)
  next
    fix h body
    show "pr_connect p = 0 \<and> pr_write p = 0 \<and> ?reply = header_bytes h @ body \<longrightarrow>
        (length body < unat (payload_length h) \<longrightarrow> CallExt net (Some o') prt ip = Inl NullDeref
          \<and> CallExtNotSure net (Some o') prt ip = Inr None)
        \<and> (length body = unat (payload_length h) \<and> length body < 2 ^ 31
            \<and> DecodeWithHeader h body 0 (int (length body)) = Inr None \<longrightarrow>
          CallExt net (Some o') prt ip = Inl NullDeref \<and> CallExtNotSure net (Some o') prt ip = Inl NullDeref)"
      using body [of h body] assms(3) by (auto simp: calls_exchange [where net = net and ip = ip and prt = prt, OF assms(2,3,1)] deref_clone_def)
  qed
qed

theorem CallExt_failures_witness:
  "CallExt (\<lambda>_ _. Inr (echo_peer\<lparr>pr_connect := 111\<rparr>)) (Some (NewKeepAlive 1 ''s'')) 80 ''1'' = Inr (Some (NewKeepAlive 1 ''s''))"
  using conjunct1 [OF CallExt_failures [of "\<lambda>_ _. Inr (echo_peer\<lparr>pr_connect := 111\<rparr>)" "''1''" 80
      "echo_peer\<lparr>pr_connect := 111\<rparr>", OF refl small_keep_alive]]
  by (simp add: echo_peer_def)

text \<open>
  \<^verbatim>\<open>CallNotSure\<close> tests the error code the wrong way round: a call that succeeds gives null, and the
  answer is lost; one that cannot connect gives a copy of the request. Its sibling \<^verbatim>\<open>CallExtNotSure\<close>
  does the opposite in both cases.
\<close>

theorem CallNotSure_inverted:
  assumes "net ''127.0.0.1'' kLokiPort = Inr p" and "obj_fits o'" and "pr_read p \<noteq> 0"
  shows "(\<forall>r. exchange p o' = Inr (Some r, 0) \<longrightarrow> CallNotSure net (Some o') = Inr None
        \<and> CallExtNotSure net (Some o') kLokiPort ''127.0.0.1'' = Inr (Some r) \<and> Call net (Some o') = Inr (Some r))
    \<and> (pr_connect p \<noteq> 0 \<longrightarrow> CallNotSure net (Some o') = Inr (Some o')
        \<and> CallExtNotSure net (Some o') kLokiPort ''127.0.0.1'' = Inr None)"
proof -
  have c: "exchange p o' = Inr (Some o', pr_connect p)" if "pr_connect p \<noteq> 0"
    using that by (simp add: exchange_def Let_def)
  then show ?thesis
    by (auto simp: local_calls_exchange [where net = net, OF assms(2,3,1)]
        calls_exchange [where net = net and ip = "''127.0.0.1''" and prt = kLokiPort, OF assms(2,3,1)] deref_clone_def Clone_def)
qed

theorem CallNotSure_inverted_witness:
  "CallNotSure (\<lambda>_ _. Inr (echo_peer\<lparr>pr_connect := 111\<rparr>)) (Some (NewKeepAlive 1 ''s'')) = Inr (Some (NewKeepAlive 1 ''s''))"
  using CallNotSure_inverted [of "\<lambda>_ _. Inr (echo_peer\<lparr>pr_connect := 111\<rparr>)" "echo_peer\<lparr>pr_connect := 111\<rparr>", OF refl small_keep_alive]
  by (simp add: echo_peer_def)

end
