(* ===== verification/Blade_Service.thy ===== *)
theory Blade_Service
  imports Blade_Object
begin

text \<open>
  blade/service\_session\_policy without its network side: the table of delegated services and the
  dispatch of one received object. \<open>'s\<close> is the state of the process behind the handlers.
\<close>

section \<open>State\<close>

text \<open>
  A service handler gets the fresh message id that its constructors use, the received object (by
  reference: it gives it back as it left it) and the process state; its result is a
  \<^verbatim>\<open>Ptr<BladeObject>\<close>.
\<close>

type_synonym 's service_handler =
  "u32 \<Rightarrow> blade_object \<Rightarrow> 's \<Rightarrow> (blade_object option \<times> blade_object \<times> 's) result"

type_synonym 's io_error_handler = "nat \<Rightarrow> nat \<Rightarrow> 's \<Rightarrow> 's" \<comment> \<open>of the error code and the number of bytes\<close>

record 's service_policy =
  f_table :: "'s service_handler storage"
  policy_port :: port
  read_error_handler :: "'s io_error_handler option"
  write_error_handler :: "'s io_error_handler option"
  nss_error_handler :: "(string \<Rightarrow> 's \<Rightarrow> 's) option"
  null_object_error_handler :: "('s \<Rightarrow> 's) option"

definition ServiceSessionPolicy :: "port \<Rightarrow> 's service_policy" where
  "ServiceSessionPolicy prt = \<lparr>f_table = [], policy_port = prt, read_error_handler = None,
     write_error_handler = None, nss_error_handler = None, null_object_error_handler = None\<rparr>"

definition DelegateExt :: "string \<Rightarrow> 's service_handler \<Rightarrow> 's service_policy \<Rightarrow> 's service_policy" where
  "DelegateExt name h self = self\<lparr>f_table := kv_emplace name h (f_table self)\<rparr>"

definition SetReadErrorHandler :: "'s io_error_handler \<Rightarrow> 's service_policy \<Rightarrow> 's service_policy" where
  "SetReadErrorHandler h self = self\<lparr>read_error_handler := Some h\<rparr>"
definition SetWriteErrorHandler :: "'s io_error_handler \<Rightarrow> 's service_policy \<Rightarrow> 's service_policy" where
  "SetWriteErrorHandler h self = self\<lparr>write_error_handler := Some h\<rparr>"
definition SetNssErrorHandler :: "(string \<Rightarrow> 's \<Rightarrow> 's) \<Rightarrow> 's service_policy \<Rightarrow> 's service_policy" where
  "SetNssErrorHandler h self = self\<lparr>nss_error_handler := Some h\<rparr>"
definition SetNullObjectErrorHandler :: "('s \<Rightarrow> 's) \<Rightarrow> 's service_policy \<Rightarrow> 's service_policy" where
  "SetNullObjectErrorHandler h self = self\<lparr>null_object_error_handler := Some h\<rparr>"

text \<open>\<^verbatim>\<open>Clone\<close>, which gives every accepted connection its policy, copies the table and the port only.\<close>

definition ServiceSessionPolicy_Clone :: "'s service_policy \<Rightarrow> 's service_policy" where
  "ServiceSessionPolicy_Clone self = (ServiceSessionPolicy (policy_port self))\<lparr>f_table := f_table self\<rparr>"

definition run_handler :: "('s \<Rightarrow> 's) option \<Rightarrow> 's \<Rightarrow> 's" where \<comment> \<open>\<^verbatim>\<open>if (h) h();\<close>\<close>
  "run_handler h s = (case h of None \<Rightarrow> s | Some h \<Rightarrow> h s)"

section \<open>Dispatch\<close>

text \<open>
  \<^verbatim>\<open>OnRecvWholeBladeObject\<close> up to its final \<^verbatim>\<open>ExecWrite\<close>: the object the session is left with, which
  is what is written back. The first condition dereferences \<^verbatim>\<open>obj\<close> before the second tests it.
\<close>

definition Service_OnRecv ::
  "'s service_policy \<Rightarrow> u32 \<Rightarrow> blade_object option \<Rightarrow> 's \<Rightarrow> (blade_object option \<times> 's) result" where
  "Service_OnRecv self gid obj s =
     (case obj of
        None \<Rightarrow> Inl NullDeref
      | Some o' \<Rightarrow>
          if GetType o' = kBTKeepAlive then Inr (Some (Clone o'), s)
          else if GetFieldType o' kRequestService \<noteq> FT_String
          then Inr (Some o', run_handler (null_object_error_handler self) s)
          else and_then (GetString o' kRequestService) (\<lambda>name.
            case map_of (f_table self) name of
              None \<Rightarrow> Inr (Some o', run_handler (map_option (\<lambda>h. h (GetServiceName o')) (nss_error_handler self)) s)
            | Some h \<Rightarrow> and_then (h gid o' s) (\<lambda>(res, _, s). Inr (res, s))))"

definition Service_OnReadError :: "'s service_policy \<Rightarrow> nat \<Rightarrow> nat \<Rightarrow> 's \<Rightarrow> 's" where
  "Service_OnReadError self ec n s = run_handler (map_option (\<lambda>h. h ec n) (read_error_handler self)) s"

definition Service_OnWriteError :: "'s service_policy \<Rightarrow> nat \<Rightarrow> nat \<Rightarrow> 's \<Rightarrow> 's" where
  "Service_OnWriteError self ec n s = run_handler (map_option (\<lambda>h. h ec n) (write_error_handler self)) s"

lemma GetString_String:
  "obj_wf o' \<Longrightarrow> GetFieldType o' k = FT_String \<longleftrightarrow> (\<exists>s. GetString o' k = Inr s)"
  by (cases "field_map o' k"; cases "the (field_map o' k)") (auto simp: getter_iffs GetFieldType_fields)

lemma GetString_Inl: "obj_wf o' \<Longrightarrow> GetString o' k = Inl e \<longleftrightarrow> e = NoSuchFieldException \<and> GetFieldType o' k \<noteq> FT_String"
  by (cases "GetString o' k") (auto simp: GetString_String string_field.get_Inl_iff getter_iffs)

lemma GetString_missing:
  assumes "obj_wf o'" and "\<And>s. field_map o' k \<noteq> Some (VString s)"
  shows "GetString o' k = Inl NoSuchFieldException"
proof (cases "GetString o' k")
  case (Inl e)
  with assms(1) GetString_Inl show ?thesis by blast
next
  case (Inr s)
  with assms show ?thesis by (simp add: getter_iffs)
qed

lemma map_of_DelegateExt:
  "map_of (f_table (DelegateExt name h self)) =
     (if map_of (f_table self) name = None then (map_of (f_table self))(name \<mapsto> h) else map_of (f_table self))"
  by (simp add: DelegateExt_def map_of_emplace)

text \<open>
  C33. Dispatch of a received object. A keep-alive is answered by its own copy; an object that names a
  delegated service gets that handler's result, the first delegation of a name being the one that
  counts; every other object, which has no or an unknown service name, is sent back as it came
  (nothing tells the caller that the service does not exist). A body that did not decode is a null dereference, not the
  error branch written for it. A cloned policy dispatches in the same way but has lost the
  error handlers.
\<close>

theorem Service_OnRecv_dispatch:
  assumes "obj_wf r"
  shows "(GetType r = kBTKeepAlive \<longrightarrow> Service_OnRecv self g (Some r) s = Inr (Some r, s))
    \<and> (GetType r \<noteq> kBTKeepAlive \<longrightarrow>
        (case field_map r kRequestService of
           Some (VString name) \<Rightarrow>
             (case map_of (f_table self) name of
                Some h \<Rightarrow> Service_OnRecv self g (Some r) s = and_then (h g r s) (\<lambda>(res, _, s). Inr (res, s))
              | None \<Rightarrow> \<exists>s'. Service_OnRecv self g (Some r) s = Inr (Some r, s')
                  \<and> (nss_error_handler self = None \<longrightarrow> s' = s))
         | _ \<Rightarrow> \<exists>s'. Service_OnRecv self g (Some r) s = Inr (Some r, s')
                  \<and> (null_object_error_handler self = None \<longrightarrow> s' = s)))
    \<and> Service_OnRecv self g None s = Inl NullDeref
    \<and> map_of (f_table (DelegateExt n h (DelegateExt n h' self))) n
        = (if map_of (f_table self) n = None then Some h' else map_of (f_table self) n)
    \<and> f_table (ServiceSessionPolicy_Clone self) = f_table self
    \<and> nss_error_handler (ServiceSessionPolicy_Clone self) = None"
proof -
  have "case field_map r kRequestService of
       Some (VString name) \<Rightarrow>
         (case map_of (f_table self) name of
            Some h \<Rightarrow> Service_OnRecv self g (Some r) s = and_then (h g r s) (\<lambda>(res, _, s). Inr (res, s))
          | None \<Rightarrow> \<exists>s'. Service_OnRecv self g (Some r) s = Inr (Some r, s') \<and> (nss_error_handler self = None \<longrightarrow> s' = s))
     | _ \<Rightarrow> \<exists>s'. Service_OnRecv self g (Some r) s = Inr (Some r, s')
            \<and> (null_object_error_handler self = None \<longrightarrow> s' = s)"
    if t: "GetType r \<noteq> kBTKeepAlive"
  proof (cases "\<exists>name. field_map r kRequestService = Some (VString name)")
    case True
    then obtain name where n: "field_map r kRequestService = Some (VString name)" by blast
    then have "GetString r kRequestService = Inr name" "GetFieldType r kRequestService = FT_String"
      using assms by (simp_all add: getter_iffs GetFieldType_fields)
    with t n show ?thesis
      by (cases "map_of (f_table self) name") (auto simp: Service_OnRecv_def run_handler_def)
  next
    case False
    then have "GetFieldType r kRequestService \<noteq> FT_String"
      using assms by (auto simp: GetString_String getter_iffs)
    with t False show ?thesis
      by (auto simp: Service_OnRecv_def run_handler_def split: option.splits field_value.splits)
  qed
  then show ?thesis
    by (auto simp: Service_OnRecv_def accessor_defs map_of_DelegateExt ServiceSessionPolicy_Clone_def ServiceSessionPolicy_def)
qed

theorem Service_OnRecv_dispatch_witness:
  "Service_OnRecv (ServiceSessionPolicy 80) 7 (Some (NewKeepAlive 9 ''s'')) () = Inr (Some (NewKeepAlive 9 ''s''), ())"
  using Service_OnRecv_dispatch [of "NewKeepAlive 9 ''s''" "ServiceSessionPolicy 80" 7 "()"]
  by (simp add: GetType_def)

end
