(* ===== verification/Blade_Session.thy ===== *)
theory Blade_Session
  imports Blade_Sync Blade_Service
begin

text \<open>
  blade/blade\_session, blade/client\_session\_policy, the session side of
  blade/service\_session\_policy, and the accept loop of blade/blade\_server.

  A process is a world of sessions that refer to each other by number (the \<^verbatim>\<open>shared_ptr\<close>s of the
  source never dangle), each with its policy, the asynchronous operations in flight, and the state
  \<open>'s\<close> behind the handlers. An operation that was started is completed later, in any order, with an error
  code and a number of bytes chosen by the network: a completion runs the handler of the source, which calls the
  policy of its session, which may start further operations.
\<close>

section \<open>Sessions\<close>

record blade_session =
  bs_endpoint :: "(string \<times> port) option"
  bs_send :: buffer_adaptor
  bs_recv :: buffer_adaptor
  bs_header :: "raw_blade_header option"
  bs_obj :: "blade_object option"
  bs_hold :: "nat storage"

definition BladeSession :: "(string \<times> port) option \<Rightarrow> blade_session" where
  "BladeSession ep = \<lparr>bs_endpoint = ep, bs_send = new_buffer, bs_recv = new_buffer, bs_header = None,
     bs_obj = None, bs_hold = []\<rparr>"

definition BS_Hold :: "string \<Rightarrow> nat \<Rightarrow> blade_session \<Rightarrow> blade_session" where
  "BS_Hold str i s = s\<lparr>bs_hold := kv_emplace str i (bs_hold s)\<rparr>"

definition BS_GetSession :: "string \<Rightarrow> blade_session \<Rightarrow> nat option" where
  "BS_GetSession name s = map_of (bs_hold s) name"

definition BS_SetBladeObject :: "blade_object option \<Rightarrow> blade_session \<Rightarrow> blade_session" where
  "BS_SetBladeObject obj s = s\<lparr>bs_obj := obj\<rparr>"

text \<open>What an asynchronous operation captured when it was started.\<close>

datatype async_op = AsyncConnect | AsyncWrite mem nat | AsyncReadHeader | AsyncReadBody nat

definition BS_DoConnect :: "blade_session \<Rightarrow> blade_session \<times> async_op" where
  "BS_DoConnect s = (s, AsyncConnect)"

definition BS_DoWrite :: "blade_session \<Rightarrow> (blade_session \<times> async_op) result" where
  "BS_DoWrite s =
     (case bs_obj s of
        None \<Rightarrow> Inl NullDeref
      | Some obj \<Rightarrow>
          let (obj, size_required) = GetEncodedSize obj;
              buffer = PrepareBuffer size_required (bs_send s)
          in and_then (Encode obj (out_area buffer) (to_int32 (int size_required))) (\<lambda>(obj, area, _).
             let buffer = Produce size_required (fill area buffer)
             in Inr (s\<lparr>bs_obj := Some obj, bs_send := buffer\<rparr>, AsyncWrite (GetBuffer buffer) size_required)))"

definition BS_DoReadHeader :: "blade_session \<Rightarrow> blade_session \<times> async_op" where
  "BS_DoReadHeader s = (s\<lparr>bs_recv := PrepareBuffer sizeof_header (bs_recv s)\<rparr>, AsyncReadHeader)"

definition BS_DoReadBody :: "blade_session \<Rightarrow> (blade_session \<times> async_op) result" where
  "BS_DoReadBody s =
     (case bs_header s of
        None \<Rightarrow> Inl NullDeref
      | Some h \<Rightarrow> let body_length = unat (payload_length h) in
          Inr (s\<lparr>bs_recv := PrepareBuffer body_length (bs_recv s)\<rparr>, AsyncReadBody body_length))"

definition BS_SetBladeHeader :: "blade_session \<Rightarrow> blade_session result" where
  "BS_SetBladeHeader s =
     (let s = s\<lparr>bs_obj := None\<rparr> in
      if GetSize (bs_recv s) < sizeof_header then Inr s
      else and_then (GetRawBladeHeaderFromPtr (GetBuffer (bs_recv s))) (\<lambda>header.
        Inr (s\<lparr>bs_recv := Consume sizeof_header (bs_recv s), bs_header := Some header\<rparr>)))"

definition BS_DecodeBladeObject :: "blade_session \<Rightarrow> blade_session result" where
  "BS_DecodeBladeObject s =
     (case bs_header s of
        None \<Rightarrow> Inl NullDeref
      | Some h \<Rightarrow> and_then (DecodeWithHeader h (GetBuffer (bs_recv s)) 0 (to_int32 (int (GetSize (bs_recv s)))))
          (\<lambda>r. Inr (s\<lparr>bs_obj := r\<rparr>)))"

section \<open>The world and the completion handlers\<close>

record ('p, 's) world =
  sessions :: "(nat \<times> (blade_session \<times> 'p)) list"
  in_flight :: "(nat \<times> async_op) list"
  process :: 's

definition session :: "nat \<Rightarrow> ('p, 's) world \<Rightarrow> blade_session result" where
  "session i w = (case map_of (sessions w) i of None \<Rightarrow> Inl NullDeref | Some (s, _) \<Rightarrow> Inr s)"

definition set_session :: "nat \<Rightarrow> blade_session \<Rightarrow> ('p, 's) world \<Rightarrow> ('p, 's) world" where
  "set_session i s w = w\<lparr>sessions := AList.map_entry i (\<lambda>(_, p). (s, p)) (sessions w)\<rparr>"

definition start_op :: "nat \<Rightarrow> blade_session \<times> async_op \<Rightarrow> ('p, 's) world \<Rightarrow> ('p, 's) world" where
  "start_op i r w = (let w = set_session i (fst r) w in w\<lparr>in_flight := in_flight w @ [(i, snd r)]\<rparr>)"

definition new_session :: "blade_session \<Rightarrow> 'p \<Rightarrow> ('p, 's) world \<Rightarrow> nat \<times> ('p, 's) world" where
  "new_session s p w = (let i = length (sessions w) in (i, w\<lparr>sessions := (i, (s, p)) # sessions w\<rparr>))"

definition ExecConnect :: "nat \<Rightarrow> ('p, 's) world \<Rightarrow> ('p, 's) world result" where
  "ExecConnect i w = and_then (session i w) (\<lambda>s. Inr (start_op i (BS_DoConnect s) w))"
definition ExecRead :: "nat \<Rightarrow> ('p, 's) world \<Rightarrow> ('p, 's) world result" where
  "ExecRead i w = and_then (session i w) (\<lambda>s. Inr (start_op i (BS_DoReadHeader s) w))"
definition ExecWrite :: "nat \<Rightarrow> ('p, 's) world \<Rightarrow> ('p, 's) world result" where
  "ExecWrite i w = and_then (session i w) (\<lambda>s. and_then (BS_DoWrite s) (\<lambda>r. Inr (start_op i r w)))"

text \<open>The virtual functions of \<^verbatim>\<open>SessionPolicy\<close>; those a policy does not override do nothing.\<close>

datatype policy_event = OnStart | OnConnected | OnWrote | OnRecvWholeBladeObject | OnChildDie nat
  | OnErrorWhenConnect nat | OnErrorWhenWriting nat nat | OnErrorWhenReadingHeader nat nat
  | OnErrorWhenReadingBody nat nat

type_synonym ('p, 's) dispatch = "policy_event \<Rightarrow> nat \<Rightarrow> ('p, 's) world \<Rightarrow> ('p, 's) world result"

text \<open>
  The four completion handlers. \<open>got\<close> are the bytes that arrived in the prepared area; its length is
  the number of bytes reported.
\<close>

definition connect_done :: "('p, 's) dispatch \<Rightarrow> nat \<Rightarrow> error_code \<Rightarrow> ('p, 's) world \<Rightarrow> ('p, 's) world result" where
  "connect_done on i ec w = (if ec \<noteq> 0 then on (OnErrorWhenConnect ec) i w else on OnConnected i w)"

definition write_done :: "('p, 's) dispatch \<Rightarrow> nat \<Rightarrow> nat \<Rightarrow> error_code \<Rightarrow> nat \<Rightarrow> ('p, 's) world \<Rightarrow> ('p, 's) world result" where
  "write_done on i size_required ec n w =
     and_then (session i w) (\<lambda>s.
     let s = s\<lparr>bs_send := Consume size_required (bs_send s)\<rparr> in
     if ec \<noteq> 0 \<or> n \<noteq> size_required then on (OnErrorWhenWriting ec n) i (set_session i s w)
     else on OnWrote i (set_session i (s\<lparr>bs_obj := None\<rparr>) w))"

definition header_done :: "('p, 's) dispatch \<Rightarrow> nat \<Rightarrow> error_code \<Rightarrow> mem \<Rightarrow> ('p, 's) world \<Rightarrow> ('p, 's) world result" where
  "header_done on i ec got w =
     and_then (session i w) (\<lambda>s.
     let s = s\<lparr>bs_recv := fill got (bs_recv s)\<rparr> in
     if ec \<noteq> 0 \<or> length got \<noteq> sizeof_header
     then on (OnErrorWhenReadingHeader ec (length got)) i (set_session i s w)
     else and_then (BS_SetBladeHeader (s\<lparr>bs_recv := Produce sizeof_header (bs_recv s)\<rparr>)) (\<lambda>s.
       let s = s\<lparr>bs_recv := Consume sizeof_header (bs_recv s)\<rparr> in
       and_then (BS_DoReadBody s) (\<lambda>r. Inr (start_op i r w))))"

definition body_done :: "('p, 's) dispatch \<Rightarrow> nat \<Rightarrow> nat \<Rightarrow> error_code \<Rightarrow> mem \<Rightarrow> ('p, 's) world \<Rightarrow> ('p, 's) world result" where
  "body_done on i body_length ec got w =
     and_then (session i w) (\<lambda>s.
     let s = s\<lparr>bs_recv := fill got (bs_recv s)\<rparr> in
     if ec \<noteq> 0 \<or> length got \<noteq> body_length
     then on (OnErrorWhenReadingBody ec (length got)) i (set_session i s w)
     else and_then (BS_DecodeBladeObject (s\<lparr>bs_recv := Produce body_length (bs_recv s)\<rparr>)) (\<lambda>s.
       let s = s\<lparr>bs_recv := Consume body_length (bs_recv s)\<rparr> in
       on OnRecvWholeBladeObject i (set_session i s w)))"

text \<open>The completion of one operation in flight; a fault leaves \<^verbatim>\<open>io_context::run\<close> and ends the process.\<close>

definition complete :: "('p, 's) dispatch \<Rightarrow> nat \<Rightarrow> async_op \<Rightarrow> error_code \<Rightarrow> mem \<Rightarrow> ('p, 's) world \<Rightarrow> ('p, 's) world result" where
  "complete on i op ec got w =
     (let w = w\<lparr>in_flight := remove1 (i, op) (in_flight w)\<rparr> in
      case op of
        AsyncConnect \<Rightarrow> connect_done on i ec w
      | AsyncWrite _ n \<Rightarrow> write_done on i n ec (length got) w
      | AsyncReadHeader \<Rightarrow> header_done on i ec got w
      | AsyncReadBody n \<Rightarrow> body_done on i n ec got w)"

text \<open>The accept handler of \<^verbatim>\<open>BladeServer\<close>: a session with a clone of the server's policy.\<close>

definition accept :: "('p, 's) dispatch \<Rightarrow> 'p \<Rightarrow> ('p, 's) world \<Rightarrow> ('p, 's) world result" where
  "accept on p w = (let (i, w) = new_session (BladeSession None) p w in on OnStart i w)"

section \<open>Policies\<close>

definition Client_on :: "string \<Rightarrow> ('p, 's) dispatch \<Rightarrow> ('p, 's) dispatch" where
  "Client_on father_name on e i w =
     (case e of
        OnStart \<Rightarrow> ExecConnect i w
      | OnConnected \<Rightarrow> and_then (session i w) (\<lambda>s.
          case BS_GetSession father_name s of
            None \<Rightarrow> Inl NullDeref
          | Some father \<Rightarrow> and_then (session father w) (\<lambda>father_self.
              case bs_obj father_self of
                None \<Rightarrow> Inl NullDeref
              | Some obj \<Rightarrow> ExecWrite i (set_session i (BS_SetBladeObject (Some (Clone obj)) s) w)))
      | OnWrote \<Rightarrow> ExecRead i w
      | OnRecvWholeBladeObject \<Rightarrow> and_then (session i w) (\<lambda>s.
          case bs_obj s of
            None \<Rightarrow> Inl NullDeref
          | Some obj \<Rightarrow>
              (case BS_GetSession father_name s of
                 None \<Rightarrow> Inl NullDeref
               | Some father \<Rightarrow> and_then (session father w) (\<lambda>father_self.
                   on (OnChildDie i) father
                     (set_session father (BS_SetBladeObject (Some (Clone obj)) father_self) w))))
      | _ \<Rightarrow> Inr w)"

definition Service_on :: "'s service_policy \<Rightarrow> u32 \<Rightarrow> ('p, 's) dispatch" where
  "Service_on self gid e i w =
     (case e of
        OnStart \<Rightarrow> ExecRead i w
      | OnRecvWholeBladeObject \<Rightarrow> and_then (session i w) (\<lambda>s.
          and_then (Service_OnRecv self gid (bs_obj s) (process w)) (\<lambda>(obj, st).
          ExecWrite i (set_session i (BS_SetBladeObject obj s) (w\<lparr>process := st\<rparr>))))
      | OnErrorWhenWriting ec n \<Rightarrow> Inr (w\<lparr>process := Service_OnWriteError self ec n (process w)\<rparr>)
      | OnErrorWhenReadingHeader ec n \<Rightarrow> Inr (w\<lparr>process := Service_OnReadError self ec n (process w)\<rparr>)
      | OnErrorWhenReadingBody ec n \<Rightarrow> Inr (w\<lparr>process := Service_OnReadError self ec n (process w)\<rparr>)
      | _ \<Rightarrow> Inr w)"

section \<open>One connection of a server\<close>

lemma map_of_entry: "map_of (AList.map_entry i f xs) j = (if j = i then map_option f (map_of xs j) else map_of xs j)"
  by (induction xs) auto

lemma session_set [simp]:
  "session j (set_session i s w) = (if j = i then and_then (session i w) (\<lambda>_. Inr s) else session j w)"
  by (auto simp: session_def set_session_def map_of_entry split: option.splits)

lemma buffer_eq [simp]:
  "b\<lparr>in_seq := x, out_area := y\<rparr> = \<lparr>in_seq = x, out_area = y\<rparr>"
  "b\<lparr>out_area := y, in_seq := x\<rparr> = \<lparr>in_seq = x, out_area = y\<rparr>"
  by (cases b; simp)+

lemma world_frames [simp]:
  "in_flight (set_session i s w) = in_flight w" "process (set_session i s w) = process w"
  "in_flight (start_op i r w) = in_flight w @ [(i, snd r)]" "process (start_op i r w) = process w"
  "session j (start_op i r w) = session j (set_session i (fst r) w)"
  "session j (w\<lparr>in_flight := ops\<rparr>) = session j w" "session j (w\<lparr>process := st\<rparr>) = session j w"
  by (simp_all add: set_session_def start_op_def Let_def session_def)

text \<open>
  A freshly accepted connection on which a peer sends \<open>bs\<close>: accept, complete the read of the header,
  complete the read of the body with as many bytes as it asks for. The result is what is then in
  flight and the state of the process.
\<close>

definition serve :: "('p, 's) dispatch \<Rightarrow> 'p \<Rightarrow> mem \<Rightarrow> 's \<Rightarrow> ((nat \<times> async_op) list \<times> 's) result" where
  "serve on p bs st =
     and_then (accept on p \<lparr>sessions = [], in_flight = [], process = st\<rparr>) (\<lambda>w.
     and_then (complete on 0 AsyncReadHeader 0 (take sizeof_header bs) w) (\<lambda>w.
     case in_flight w of
       [(0, AsyncReadBody n)] \<Rightarrow>
         and_then (complete on 0 (AsyncReadBody n) 0 (take n (drop sizeof_header bs)) w) (\<lambda>w.
         Inr (in_flight w, process w))
     | _ \<Rightarrow> Inr (in_flight w, process w)))"

text \<open>
  \<^verbatim>\<open>Delegate\<close>: the handler is entered into the table, and the service registers at the loki of its host. What loki
  answers is not looked at.
\<close>

definition Delegate :: "network \<Rightarrow> u32 \<Rightarrow> string \<Rightarrow> 's service_handler \<Rightarrow> 's service_policy \<Rightarrow> 's service_policy result" where
  "Delegate net gid service_name handler self =
     (let self = DelegateExt service_name handler self;
          obj = NewRegister gid service_name '''' (policy_port self)
      in and_then (Call net (Some obj)) (\<lambda>_. Inr self))"

text \<open>The dispatch of a server whose sessions all have service policies.\<close>

definition service_dispatch :: "u32 \<Rightarrow> ('s service_policy, 's) dispatch" where
  "service_dispatch g e i w =
     (case map_of (sessions w) i of None \<Rightarrow> Inl NullDeref
      | Some (_, p) \<Rightarrow> Service_on p g e i w)"

lemma BS_SetBladeHeader_image:
  "in_seq (bs_recv s) = header_bytes h \<Longrightarrow>
    BS_SetBladeHeader s = Inr (s\<lparr>bs_obj := None, bs_recv := Consume 40 (bs_recv s), bs_header := Some h\<rparr>)"
  using GetRawBladeHeaderFromPtr_image [of h "[]"]
  by (simp add: BS_SetBladeHeader_def Let_def GetSize_def GetBuffer_def sizeof_header_def)

text \<open>The read of a header whose forty bytes have come.\<close>

lemma header_done_ok:
  assumes "session i w = Inr s" and "in_seq (bs_recv s) = []" and "out_area (bs_recv s) = replicate 40 0"
  shows "\<exists>s'. header_done on i 0 (header_bytes h) w = Inr (start_op i (s', AsyncReadBody (unat (payload_length h))) w)
    \<and> bs_header s' = Some h \<and> in_seq (bs_recv s') = [] \<and> out_area (bs_recv s') = replicate (unat (payload_length h)) 0
    \<and> bs_send s' = bs_send s \<and> bs_hold s' = bs_hold s"
proof -
  let ?r = "Produce 40 (fill (header_bytes h) (bs_recv s))"
  have r: "in_seq ?r = header_bytes h" "out_area ?r = []" using assms(2,3) by (simp_all add: buffer_defs)
  then have "BS_SetBladeHeader (s\<lparr>bs_recv := ?r\<rparr>)
      = Inr (s\<lparr>bs_obj := None, bs_recv := Consume 40 ?r, bs_header := Some h\<rparr>)"
    using BS_SetBladeHeader_image [of "s\<lparr>bs_recv := ?r\<rparr>" h] by simp
  with assms(1) have "header_done on i 0 (header_bytes h) w
      = Inr (start_op i (s\<lparr>bs_obj := None, bs_header := Some h,
          bs_recv := PrepareBuffer (unat (payload_length h)) (Consume 40 (Consume 40 ?r))\<rparr>,
          AsyncReadBody (unat (payload_length h))) w)"
    by (simp add: header_done_def Let_def sizeof_header_def BS_DoReadBody_def)
  with r show ?thesis
    by (intro exI [of _ "s\<lparr>bs_obj := None, bs_header := Some h,
          bs_recv := PrepareBuffer (unat (payload_length h)) (Consume 40 (Consume 40 ?r))\<rparr>"])
      (simp add: buffer_defs)
qed

lemma body_done_ok:
  assumes "session i w = Inr s" and "in_seq (bs_recv s) = []" and "out_area (bs_recv s) = replicate (length body) 0"
    and "bs_header s = Some h" and "length body < 2 ^ 31"
  shows "\<exists>b. in_seq b = [] \<and> body_done on i (length body) 0 body w =
    and_then (DecodeWithHeader h body 0 (int (length body))) (\<lambda>r.
      on OnRecvWholeBladeObject i (set_session i (s\<lparr>bs_obj := r, bs_recv := b\<rparr>) w))"
proof -
  have i: "to_int32 (int (length body)) = int (length body)" using assms(5) by (intro to_int32_id) simp_all
  let ?b = "Consume (length body) (Produce (length body) (fill body (bs_recv s)))"
  have b: "in_seq ?b = []" using assms(2) by (simp add: buffer_defs)
  have d: "GetBuffer (Produce (length body) (fill body (bs_recv s))) = body"
    "GetSize (Produce (length body) (fill body (bs_recv s))) = length body"
    using assms(2) by (simp_all add: buffer_defs)
  have "body_done on i (length body) 0 body w =
    and_then (DecodeWithHeader h body 0 (int (length body))) (\<lambda>r.
      on OnRecvWholeBladeObject i (set_session i (s\<lparr>bs_obj := r, bs_recv := ?b\<rparr>) w))"
    using assms i by (cases "DecodeWithHeader h body 0 (int (length body))")
      (simp_all add: body_done_def Let_def BS_DecodeBladeObject_def d)
  with b show ?thesis by (intro exI [of _ ?b]) simp
qed

text \<open>
  A schedule: for each event, the operation in flight of that session completes with this error code and
  these bytes. An event of a session with nothing in flight does not happen.
\<close>

fun play :: "('p, 's) dispatch \<Rightarrow> (nat \<times> error_code \<times> mem) list \<Rightarrow> ('p, 's) world \<Rightarrow> ('p, 's) world result" where
  "play on [] w = Inr w"
| "play on ((i, ec, got) # es) w =
     (case map_of (in_flight w) i of
        None \<Rightarrow> play on es w
      | Some op \<Rightarrow> and_then (complete on i op ec got w) (play on es))"

text \<open>
  What \<open>serve\<close> comes to for every policy whose \<^verbatim>\<open>OnStart\<close> starts to read: decode the announced body,
  then the policy's handler on the one session.
\<close>

definition one_session :: "blade_session \<Rightarrow> 'p \<Rightarrow> 's \<Rightarrow> ('p, 's) world" where
  "one_session s p st = \<lparr>sessions = [(0, (s, p))], in_flight = [], process = st\<rparr>"

lemma one_session_simps [simp]:
  "session 0 (one_session s p st) = Inr s" "set_session 0 s' (one_session s p st) = one_session s' p st"
  "in_flight (one_session s p st) = []" "process (one_session s p st) = st"
  "sessions (one_session s p st) = [(0, (s, p))]"
  "(one_session s p st)\<lparr>process := st'\<rparr> = one_session s p st'"
  by (simp_all add: one_session_def session_def set_session_def)

lemma start_one_session:
  "start_op 0 (s', op) (one_session s p st) = (one_session s' p st)\<lparr>in_flight := [(0, op)]\<rparr>"
  by (simp add: start_op_def one_session_def set_session_def Let_def)

lemma finish_one_session [simp]:
  "((one_session s p st)\<lparr>in_flight := ops\<rparr>)\<lparr>in_flight := []\<rparr> = one_session s p st"
  "(one_session s p st)\<lparr>in_flight := []\<rparr> = one_session s p st"
  by (simp_all add: one_session_def)

lemma serve_eq:
  assumes start: "on OnStart 0 (one_session (BladeSession None) p st) = ExecRead 0 (one_session (BladeSession None) p st)"
    and len: "length body = unat (payload_length h)" "length body < 2 ^ 31"
  obtains s where "bs_send s = new_buffer" "bs_hold s = []"
    "serve on p (header_bytes h @ body @ rest) st =
      and_then (DecodeWithHeader h body 0 (int (length body))) (\<lambda>r.
      and_then (on OnRecvWholeBladeObject 0 (one_session (s\<lparr>bs_obj := r\<rparr>) p st)) (\<lambda>w.
      Inr (in_flight w, process w)))"
    "\<And>es. and_then (accept on p \<lparr>sessions = [], in_flight = [], process = st\<rparr>)
        (play on ((0, 0, header_bytes h) # (0, 0, body) # es)) =
      and_then (DecodeWithHeader h body 0 (int (length body))) (\<lambda>r.
      and_then (on OnRecvWholeBladeObject 0 (one_session (s\<lparr>bs_obj := r\<rparr>) p st)) (play on es))"
proof -
  let ?fresh = "(BladeSession None)\<lparr>bs_recv := PrepareBuffer 40 new_buffer\<rparr>" and ?n = "length body"
  have a: "accept on p \<lparr>sessions = [], in_flight = [], process = st\<rparr>
      = Inr ((one_session ?fresh p st)\<lparr>in_flight := [(0, AsyncReadHeader)]\<rparr>)"
    using start by (simp add: accept_def new_session_def ExecRead_def session_def start_op_def Let_def set_session_def
        BS_DoReadHeader_def sizeof_header_def BladeSession_def one_session_def)
  have "in_seq (bs_recv ?fresh) = []" "out_area (bs_recv ?fresh) = replicate 40 0"
    by (simp_all add: buffer_defs)
  from header_done_ok [of 0 "one_session ?fresh p st" ?fresh, OF _ this, of on h] obtain s' where
    h: "header_done on 0 0 (header_bytes h) (one_session ?fresh p st)
        = Inr ((one_session s' p st)\<lparr>in_flight := [(0, AsyncReadBody ?n)]\<rparr>)"
    and s': "bs_header s' = Some h" "in_seq (bs_recv s') = []" "out_area (bs_recv s') = replicate ?n 0"
      "bs_send s' = new_buffer" "bs_hold s' = []"
    using len(1) by (auto simp: start_one_session BladeSession_def)
  from body_done_ok [of 0 "one_session s' p st" s' body h on, OF _ s'(2,3,1) len(2)] obtain b where
    b: "body_done on 0 ?n 0 body (one_session s' p st) =
      and_then (DecodeWithHeader h body 0 (int ?n)) (\<lambda>r.
        on OnRecvWholeBladeObject 0 (one_session (s'\<lparr>bs_obj := r, bs_recv := b\<rparr>) p st))" by auto
  let ?s = "s'\<lparr>bs_recv := b\<rparr>"
  have c: "complete on 0 AsyncReadHeader 0 (header_bytes h) ((one_session ?fresh p st)\<lparr>in_flight := [(0, AsyncReadHeader)]\<rparr>)
      = Inr ((one_session s' p st)\<lparr>in_flight := [(0, AsyncReadBody ?n)]\<rparr>)"
    by (simp add: complete_def Let_def h)
  have d: "complete on 0 (AsyncReadBody ?n) 0 body ((one_session s' p st)\<lparr>in_flight := [(0, AsyncReadBody ?n)]\<rparr>) =
      and_then (DecodeWithHeader h body 0 (int ?n)) (\<lambda>r.
        on OnRecvWholeBladeObject 0 (one_session (s'\<lparr>bs_obj := r, bs_recv := b\<rparr>) p st))"
    by (simp add: complete_def Let_def b)
  have e: "s'\<lparr>bs_obj := r, bs_recv := b\<rparr> = ?s\<lparr>bs_obj := r\<rparr>" for r by simp
  have "serve on p (header_bytes h @ body @ rest) st =
      and_then (DecodeWithHeader h body 0 (int ?n)) (\<lambda>r.
      and_then (on OnRecvWholeBladeObject 0 (one_session (?s\<lparr>bs_obj := r\<rparr>) p st)) (\<lambda>w.
      Inr (in_flight w, process w)))"
    by (simp add: serve_def a c d sizeof_header_def and_then_assoc e)
  moreover have "and_then (accept on p \<lparr>sessions = [], in_flight = [], process = st\<rparr>)
        (play on ((0, 0, header_bytes h) # (0, 0, body) # es)) =
      and_then (DecodeWithHeader h body 0 (int (length body))) (\<lambda>r.
      and_then (on OnRecvWholeBladeObject 0 (one_session (?s\<lparr>bs_obj := r\<rparr>) p st)) (play on es))" for es
    by (simp add: a c d and_then_assoc e)
  ultimately show thesis using s' by (intro that [of ?s]) simp_all
qed

lemma ExecWrite_fits:
  assumes "session i w = Inr s" and "bs_obj s = Some r" and "obj_fits r" and "in_seq (bs_send s) = []"
  obtains b where "in_seq b = object_image (UpdateHeaderField r)"
    "ExecWrite i w = Inr (start_op i (s\<lparr>bs_obj := Some (UpdateHeaderField r), bs_send := b\<rparr>,
      AsyncWrite (object_image (UpdateHeaderField r)) (40 + body_size r)) w)"
proof -
  have "length (object_image (UpdateHeaderField r)) = 40 + body_size r"
    using assms(3) by (simp add: length_object_image)
  with Encode_updated [OF assms(3)] assms show thesis
    by (intro that [of "\<lparr>in_seq = object_image (UpdateHeaderField r), out_area = []\<rparr>"])
      (simp_all add: ExecWrite_def BS_DoWrite_def Let_def GetEncodedSize_exact_eq buffer_defs del: of_nat_add)
qed

lemma ExecWrite_null: "session i w = Inr s \<Longrightarrow> bs_obj s = None \<Longrightarrow> ExecWrite i w = Inl NullDeref"
  by (simp add: ExecWrite_def BS_DoWrite_def)

text \<open>The answer a session is left with, as what is then in flight.\<close>

lemma service_answer:
  assumes "Service_OnRecv pol g r st = Inr (res, st')" and "bs_send s = new_buffer"
  shows "res = None \<Longrightarrow> service_dispatch g OnRecvWholeBladeObject 0 (one_session (s\<lparr>bs_obj := r\<rparr>) pol st) = Inl NullDeref"
    and "res = Some a \<Longrightarrow> obj_fits a \<Longrightarrow>
      and_then (service_dispatch g OnRecvWholeBladeObject 0 (one_session (s\<lparr>bs_obj := r\<rparr>) pol st)) (\<lambda>w. Inr (in_flight w, process w))
        = Inr ([(0, AsyncWrite (object_image (UpdateHeaderField a)) (40 + body_size a))], st')"
proof -
  let ?s = "s\<lparr>bs_obj := res\<rparr>"
  have d: "service_dispatch g OnRecvWholeBladeObject 0 (one_session (s\<lparr>bs_obj := r\<rparr>) pol st)
      = ExecWrite 0 (one_session ?s pol st')"
    using assms(1) by (simp add: service_dispatch_def Service_on_def BS_SetBladeObject_def)
  show "service_dispatch g OnRecvWholeBladeObject 0 (one_session (s\<lparr>bs_obj := r\<rparr>) pol st) = Inl NullDeref"
    if "res = None" using that ExecWrite_null [of 0 "one_session ?s pol st'" ?s] unfolding d by simp
  show "and_then (service_dispatch g OnRecvWholeBladeObject 0 (one_session (s\<lparr>bs_obj := r\<rparr>) pol st))
      (\<lambda>w. Inr (in_flight w, process w))
        = Inr ([(0, AsyncWrite (object_image (UpdateHeaderField a)) (40 + body_size a))], st')"
    if res: "res = Some a" and fits: "obj_fits a"
  proof -
    have "session 0 (one_session ?s pol st') = Inr ?s" "bs_obj ?s = Some a" "in_seq (bs_send ?s) = []"
      using res assms(2) by (simp_all add: new_buffer_def)
    then obtain b where "ExecWrite 0 (one_session ?s pol st') = Inr (start_op 0
        (?s\<lparr>bs_obj := Some (UpdateHeaderField a), bs_send := b\<rparr>,
         AsyncWrite (object_image (UpdateHeaderField a)) (40 + body_size a)) (one_session ?s pol st'))"
      using ExecWrite_fits fits by metis
    then show ?thesis unfolding d by simp
  qed
qed

lemma service_fault:
  "Service_OnRecv pol g r st = Inl e \<Longrightarrow>
    service_dispatch g OnRecvWholeBladeObject 0 (one_session (s\<lparr>bs_obj := r\<rparr>) pol st) = Inl e"
  by (simp add: service_dispatch_def Service_on_def)

lemma service_start: "service_dispatch g OnStart i w = (if map_of (sessions w) i = None then Inl NullDeref else ExecRead i w)"
  by (simp add: service_dispatch_def Service_on_def split: option.splits)

lemma ExecRead_none: "map_of (sessions w) i = None \<Longrightarrow> ExecRead i w = Inl NullDeref"
  by (simp add: ExecRead_def session_def)

lemma service_start_read [simp]: "service_dispatch g OnStart i w = ExecRead i w"
  by (simp add: service_start ExecRead_none)

text \<open>A well-formed object, as the bytes that are sent and as what the receiver decodes.\<close>

lemma sent_facts:
  assumes "obj_wf q" and "obj_fits q"
  obtains q' where
    "DecodeWithHeader (bo_header (UpdateHeaderField q)) (body_image (UpdateHeaderField q)) 0
        (int (length (body_image (UpdateHeaderField q)))) = Inr (Some q')"
    "obj_wf q'" "obj_equiv q' (UpdateHeaderField q)" "field_map q' = field_map q" "GetType q' = GetType q"
    "GetTraceId q' = GetTraceId q" "GetServiceName q' = GetServiceName q"
    "obj_fits q'" "uint (GetPayloadLength q') = int (body_size q)"
    "length (body_image (UpdateHeaderField q)) = unat (payload_length (bo_header (UpdateHeaderField q)))"
    "length (body_image (UpdateHeaderField q)) < 2 ^ 31"
proof -
  let ?u = "UpdateHeaderField q"
  have n: "body_size q < 2 ^ 31" using assms(2) by (simp add: obj_fits_def)
  obtain q' where q': "DecodeWithHeader (bo_header ?u) (body_image ?u) 0 (int (length (body_image ?u))) = Inr (Some q')"
      "obj_wf q'" "obj_equiv q' ?u"
    using DecodeWithHeader_image [of ?u 0 "body_image ?u"] assms by (auto simp: length_body_image)
  moreover have "field_map q' = field_map q" using obj_equiv_fields [of ?u q'] q' assms by simp
  moreover have "obj_fits q'" using obj_equiv_fits [OF q'(3)] assms(2) by simp
  moreover have "bo_header q' = bo_header ?u" "bo_service_name q' = bo_service_name ?u"
    using q'(3) by (simp_all add: obj_equiv_def)
  then have "GetType q' = GetType q" "GetTraceId q' = GetTraceId q" "GetServiceName q' = GetServiceName q"
    "uint (GetPayloadLength q') = int (body_size q)"
    using n unfolding UpdateHeaderField_eq [OF assms(2)]
    by (simp_all add: accessor_defs uint_nat unat_of_nat_small del: of_nat_unat)
  moreover have "length (body_image ?u) = unat (payload_length (bo_header ?u))" "length (body_image ?u) < 2 ^ 31"
    using assms(2) n by (simp_all add: length_body_image unat_of_nat_small)
  ultimately show thesis using that by blast
qed

text \<open>What a server does with the bytes of a well-formed object, in terms of its dispatch.\<close>

lemma serve_sent:
  assumes "obj_wf q" and "obj_fits q"
  obtains q' where "obj_wf q'" "obj_equiv q' (UpdateHeaderField q)" "field_map q' = field_map q" "GetType q' = GetType q"
    "GetTraceId q' = GetTraceId q" "GetServiceName q' = GetServiceName q"
    "\<And>r st'. Service_OnRecv pol g (Some q') st = Inr (Some r, st') \<Longrightarrow> obj_fits r \<Longrightarrow>
      serve (service_dispatch g) pol (object_image (UpdateHeaderField q)) st
        = Inr ([(0, AsyncWrite (object_image (UpdateHeaderField r)) (40 + body_size r))], st')"
    "\<And>st'. Service_OnRecv pol g (Some q') st = Inr (None, st') \<Longrightarrow>
      serve (service_dispatch g) pol (object_image (UpdateHeaderField q)) st = Inl NullDeref"
    "\<And>e. Service_OnRecv pol g (Some q') st = Inl e \<Longrightarrow>
      serve (service_dispatch g) pol (object_image (UpdateHeaderField q)) st = Inl e"
proof -
  let ?u = "UpdateHeaderField q"
  obtain q' where q': "DecodeWithHeader (bo_header ?u) (body_image ?u) 0 (int (length (body_image ?u))) = Inr (Some q')"
      "obj_wf q'" "obj_equiv q' ?u" and f: "field_map q' = field_map q" "GetType q' = GetType q"
      "GetTraceId q' = GetTraceId q" "GetServiceName q' = GetServiceName q"
    and len: "length (body_image ?u) = unat (payload_length (bo_header ?u))" "length (body_image ?u) < 2 ^ 31"
    by (rule sent_facts [OF assms])
  obtain s where s: "bs_send s = new_buffer"
    and eq: "serve (service_dispatch g) pol (object_image ?u) st =
      and_then (service_dispatch g OnRecvWholeBladeObject 0 (one_session (s\<lparr>bs_obj := Some q'\<rparr>) pol st))
        (\<lambda>w. Inr (in_flight w, process w))"
    using serve_eq [where on = "service_dispatch g" and p = pol and st = st and rest = "[]", OF service_start_read len] q'(1)
    by (auto simp: object_image_def)
  have "serve (service_dispatch g) pol (object_image ?u) st
      = Inr ([(0, AsyncWrite (object_image (UpdateHeaderField r)) (40 + body_size r))], st')"
    if "Service_OnRecv pol g (Some q') st = Inr (Some r, st')" "obj_fits r" for r st'
    unfolding eq using that by (intro service_answer(2) [OF _ s refl])
  moreover have "serve (service_dispatch g) pol (object_image ?u) st = Inl NullDeref"
    if "Service_OnRecv pol g (Some q') st = Inr (None, st')" for st'
    unfolding eq service_answer(1) [OF that s refl] by simp
  moreover have "serve (service_dispatch g) pol (object_image ?u) st = Inl e"
    if "Service_OnRecv pol g (Some q') st = Inl e" for e
    unfolding eq service_fault [OF that] by simp
  ultimately show thesis using q'(2,3) f by (intro that [of q'])
qed

text \<open>
  C24. One exchange of a server. A peer connects to a process that runs a service policy and sends the
  encoding of a well-formed object. The handler then works on a decoded copy of that object. What it
  answers is encoded in full and put in flight, with the state the handler left; a handler that
  returns null, or throws, ends the process.
\<close>

theorem Service_exchange:
  assumes "obj_wf q" and "obj_fits q"
  shows "\<exists>q'. obj_wf q' \<and> obj_equiv q' (UpdateHeaderField q) \<and> field_map q' = field_map q
    \<and> (\<forall>r st'. Service_OnRecv pol g (Some q') st = Inr (Some r, st') \<and> obj_fits r \<longrightarrow>
        serve (service_dispatch g) pol (object_image (UpdateHeaderField q)) st
          = Inr ([(0, AsyncWrite (object_image (UpdateHeaderField r)) (40 + body_size r))], st'))
    \<and> (\<forall>st'. Service_OnRecv pol g (Some q') st = Inr (None, st') \<longrightarrow>
        serve (service_dispatch g) pol (object_image (UpdateHeaderField q)) st = Inl NullDeref)
    \<and> (\<forall>e. Service_OnRecv pol g (Some q') st = Inl e \<longrightarrow>
        serve (service_dispatch g) pol (object_image (UpdateHeaderField q)) st = Inl e)"
  by (rule serve_sent [OF assms, of pol g st]) blast

theorem Service_exchange_witness:
  "\<exists>q'. obj_wf q' \<and> serve (service_dispatch 7) (ServiceSessionPolicy 80)
      (object_image (UpdateHeaderField (NewKeepAlive 1 ''s''))) ()
    = Inr ([(0, AsyncWrite (object_image (UpdateHeaderField q')) (40 + body_size q'))], ())"
proof -
  let ?q = "NewKeepAlive 1 ''s''"
  obtain q' where q': "obj_wf q'" "obj_equiv q' (UpdateHeaderField ?q)"
    "\<And>r st'. Service_OnRecv (ServiceSessionPolicy 80) 7 (Some q') () = Inr (Some r, st') \<Longrightarrow> obj_fits r \<Longrightarrow>
        serve (service_dispatch 7) (ServiceSessionPolicy 80) (object_image (UpdateHeaderField ?q)) ()
          = Inr ([(0, AsyncWrite (object_image (UpdateHeaderField r)) (40 + body_size r))], st')"
    using Service_exchange [OF _ small_keep_alive, of "ServiceSessionPolicy 80" 7 "()"] by auto
  have "GetType (UpdateHeaderField ?q) = kBTKeepAlive"
    using UpdateHeaderField_eq [OF small_keep_alive] by (simp add: accessor_defs message_defs)
  with q'(2) have "GetType q' = kBTKeepAlive" by (simp add: obj_equiv_def accessor_defs)
  moreover have "obj_fits q'" using obj_equiv_fits [OF q'(2)] small_keep_alive by simp
  ultimately show ?thesis using q'(1,3)
    by (intro exI [of _ q']) (simp add: Service_OnRecv_def Clone_def)
qed

end
