(* ===== verification/Atreus_Policy.thy ===== *)
theory Atreus_Policy
  imports Atreus_Managers Blade_Session
begin

text \<open>
  atreus/policy: the session policies of the two servers of an atreus process, \<^verbatim>\<open>Kartos\<close> (forwards
  requests to the services of this host) and \<^verbatim>\<open>Loki\<close> (the side the local services talk to: registers
  them, and forwards their requests to the host that ice names). Both forward by opening a session
  with the client policy, whose father is the session of the request.
\<close>

section \<open>State and parameters\<close>

record atreus_state =
  at_services :: services
  at_data :: data_manager

text \<open>
  The configuration flags, the network, asio's \<^verbatim>\<open>make_address\<close> (whether an address parses), the
  identifiers the handler draws, and the critical sections of the process' other threads that fall between the two
  sections of \<^verbatim>\<open>Query\<close> and \<^verbatim>\<open>Deregister\<close>.
\<close>

record atreus_env =
  this_ip :: string
  ice_ip :: string
  chaos_ip :: string
  env_net :: network
  address_ok :: "string \<Rightarrow> bool"
  draw :: "nat \<Rightarrow> u32"
  others :: "sm_section list"

definition MakeAddress :: "atreus_env \<Rightarrow> string \<Rightarrow> string result" where
  "MakeAddress env ip = (if address_ok env ip then Inr ip else Inl SystemError)"

definition MakeTcpEndpoint :: "atreus_env \<Rightarrow> port \<Rightarrow> string \<Rightarrow> (string \<times> port) result" where
  "MakeTcpEndpoint env prt ip = and_then (MakeAddress env ip) (\<lambda>a. Inr (a, prt))"

lemma MakeTcpEndpoint_eq: "MakeTcpEndpoint env prt ip = (if address_ok env ip then Inr (ip, prt) else Inl SystemError)"
  by (simp add: MakeTcpEndpoint_def MakeAddress_def)

text \<open>The validator of the three address flags: what it returns and prints. The flags of a running process have passed it.\<close>

definition ValidateIp :: "atreus_env \<Rightarrow> string \<Rightarrow> string \<Rightarrow> (bool \<times> string) result" where
  "ValidateIp env flag_name val =
     catch_all (and_then (MakeAddress env val) (\<lambda>_. Inr (True, '''')))
       (Inr (False, ''Invalid Format of '' @ flag_name @ '', please check.'' @ [CHR 0x0A]))"

lemma ValidateIp_iff: "map_sum id fst (ValidateIp env flag_name val) = Inr (address_ok env val)"
  by (simp add: ValidateIp_def MakeAddress_def)

datatype atreus_policy = KartosPolicy | LokiPolicy | ClientPolicy string

type_synonym atreus_world = "(atreus_policy, atreus_state) world"

text \<open>
  The body of a \<^verbatim>\<open>try\<close> block: what it changed stays changed when it throws, so it gives the world together with the
  fault. \<open>attempt r w f\<close> goes on with \<open>f\<close> when \<open>r\<close> did not fail.
\<close>

type_synonym try_result = "fault option \<times> atreus_world"

definition attempt :: "'a result \<Rightarrow> atreus_world \<Rightarrow> ('a \<Rightarrow> try_result) \<Rightarrow> try_result" where
  "attempt r w f = (case r of Inl e \<Rightarrow> (Some e, w) | Inr x \<Rightarrow> f x)"

definition finish :: "atreus_world result \<Rightarrow> atreus_world \<Rightarrow> try_result" where
  "finish r w = attempt r w (\<lambda>w. (None, w))"

definition catch_if :: "(fault \<Rightarrow> bool) \<Rightarrow> try_result \<Rightarrow> atreus_world result" where
  "catch_if caught r = (case r of (None, w) \<Rightarrow> Inr w | (Some e, w) \<Rightarrow> if caught e then Inr w else Inl e)"

lemma try_simps [simp]:
  "attempt (Inl e) w f = (Some e, w)" "attempt (Inr x) w f = f x"
  "finish (Inl e) w = (Some e, w)" "finish (Inr w') w = (None, w')"
  "catch_if c (None, w) = Inr w" "c e \<Longrightarrow> catch_if c (Some e, w) = Inr w" "\<not> c e \<Longrightarrow> catch_if c (Some e, w) = Inl e"
  by (simp_all add: attempt_def finish_def catch_if_def)

section \<open>Forwarding\<close>

text \<open>
  \<^verbatim>\<open>std::make_shared<BladeSession>(..., endpoint, ClientSessionPolicy::Use(name))\<close>, \<^verbatim>\<open>Hold(name, self)\<close> and
  \<^verbatim>\<open>Start()\<close>.
\<close>

definition start_child :: "string \<Rightarrow> string \<times> port \<Rightarrow> nat \<Rightarrow> atreus_world \<Rightarrow> atreus_world result" where
  "start_child name ep self w =
     (let (nes, w) = new_session (BS_Hold name self (BladeSession (Some ep))) (ClientPolicy name) w
      in Client_on name (\<lambda>_ _. Inr) OnStart nes w)"

section \<open>Kartos\<close>

definition Kartos_try :: "atreus_env \<Rightarrow> nat \<Rightarrow> blade_object \<Rightarrow> atreus_world \<Rightarrow> try_result" where
  "Kartos_try env self obj w =
     (if GetType obj = kBTRequest then
        attempt (GetString obj kRequestService) w (\<lambda>qsrv_name.
        let st = process w in
        attempt (AtreusDM_DoQuery qsrv_name (at_data st)) w (\<lambda>dm.
        let w = w\<lparr>process := st\<lparr>at_data := dm\<rparr>\<rparr> in
        attempt (AtreusDM_DoBytes qsrv_name (to_int32 (uint (GetPayloadLength obj))) dm) w (\<lambda>dm.
        let (prt, sm) = AtreusSM_Query (others env) qsrv_name (at_services st);
            w = w\<lparr>process := st\<lparr>at_data := dm, at_services := sm\<rparr>\<rparr>
        in case prt of
             None \<Rightarrow> (Some InvalidArgument, w)
           | Some prt \<Rightarrow>
               attempt (MakeTcpEndpoint env prt (this_ip env)) w (\<lambda>ep.
               finish (start_child ''kartos'' ep self w) w))))
      else (None, w))"

definition Kartos_OnRecv :: "atreus_env \<Rightarrow> nat \<Rightarrow> atreus_world \<Rightarrow> atreus_world result" where
  "Kartos_OnRecv env self w =
     and_then (session self w) (\<lambda>s.
     case bs_obj s of
       None \<Rightarrow> Inl NullDeref
     | Some obj \<Rightarrow> catch_if (\<lambda>e. e \<in> {NoSuchFieldException, InvalidArgument}) (Kartos_try env self obj w))"

definition Kartos_on :: "atreus_env \<Rightarrow> (atreus_policy, atreus_state) dispatch" where
  "Kartos_on env e self w =
     (case e of
        OnStart \<Rightarrow> ExecRead self w
      | OnRecvWholeBladeObject \<Rightarrow> Kartos_OnRecv env self w
      | OnChildDie _ \<Rightarrow> ExecWrite self w
      | _ \<Rightarrow> Inr w)"

section \<open>Loki\<close>

definition Loki_register :: "atreus_env \<Rightarrow> nat \<Rightarrow> blade_object \<Rightarrow> atreus_world \<Rightarrow> try_result" where
  "Loki_register env self obj w =
     attempt (GetI32 obj kRegisterPort) w (\<lambda>v.
     let prt = ucast v :: port;
         name = GetServiceName obj;
         w = w\<lparr>process := (process w)\<lparr>at_services := AtreusSM_Register name prt (at_services (process w))\<rparr>\<rparr>;
         sd_message = NewRegister (draw env 0) name (this_ip env) prt
     in attempt (CallExt (env_net env) (Some sd_message) kIcePort (ice_ip env)) w (\<lambda>_.
        finish (ExecWrite self w) w))"

definition Loki_deregister :: "atreus_env \<Rightarrow> nat \<Rightarrow> blade_object \<Rightarrow> atreus_world \<Rightarrow> try_result" where
  "Loki_deregister env self obj w =
     (let name = GetServiceName obj;
          w = w\<lparr>process := (process w)\<lparr>at_services := AtreusSM_Deregister (others env) name (at_services (process w))\<rparr>\<rparr>;
          sd_message = NewDeregister (draw env 0) name (this_ip env)
      in attempt (CallExt (env_net env) (Some sd_message) kIcePort (ice_ip env)) w (\<lambda>_.
         finish (ExecWrite self w) w))"

text \<open>The request branch: \<^verbatim>\<open>port\<close> is always null there, so ice is always asked.\<close>

definition Loki_no_service :: "atreus_env \<Rightarrow> nat \<Rightarrow> blade_object \<Rightarrow> atreus_world \<Rightarrow> try_result" where
  "Loki_no_service env self obj w =
     attempt (GetString obj kRequestService) w (\<lambda>callee.
     let res = NewResponse_traced (draw env 1) callee (GetTraceId obj) (GetServiceName obj);
         res = snd (AddByte kNoService kZeroByte res)
     in attempt (AtreusDM_DoError callee (at_data (process w))) w (\<lambda>dm.
        let w = w\<lparr>process := (process w)\<lparr>at_data := dm\<rparr>\<rparr> in
        attempt (session self w) w (\<lambda>s.
        let w = set_session self (BS_SetBladeObject (Some res) s) w in
        finish (ExecWrite self w) w)))"

definition Loki_request :: "atreus_env \<Rightarrow> nat \<Rightarrow> blade_object \<Rightarrow> atreus_world \<Rightarrow> try_result" where
  "Loki_request env self obj w =
     attempt (GetString obj kRequestService) w (\<lambda>srv_name.
     let query_obj = NewQuery (draw env 0) kLokiServiceName srv_name in
     attempt (CallExt (env_net env) (Some query_obj) kIcePort (ice_ip env)) w (\<lambda>result.
     case result of
       None \<Rightarrow> Loki_no_service env self obj w
     | Some result \<Rightarrow>
         if GetFieldType result kNoAnswer \<noteq> FT_None then Loki_no_service env self obj w
         else attempt (GetString result kAnswerIp) w (\<lambda>ip.
              attempt (MakeTcpEndpoint env kKartosPort ip) w (\<lambda>ep.
              finish (start_child ''loki'' ep self w) w))))"

definition Loki_try :: "atreus_env \<Rightarrow> nat \<Rightarrow> blade_object \<Rightarrow> atreus_world \<Rightarrow> try_result" where
  "Loki_try env self obj w =
     (if GetType obj = kBTRegister then Loki_register env self obj w
      else if GetType obj = kBTDeregister then Loki_deregister env self obj w
      else if GetTraceId obj = kBTRequest then Loki_request env self obj w
      else (None, w))"

definition Loki_OnRecv :: "atreus_env \<Rightarrow> nat \<Rightarrow> atreus_world \<Rightarrow> atreus_world result" where
  "Loki_OnRecv env self w =
     and_then (session self w) (\<lambda>s.
     case bs_obj s of
       None \<Rightarrow> Inl NullDeref
     | Some obj \<Rightarrow> catch_if is_exception (Loki_try env self obj w))"

definition Loki_on :: "atreus_env \<Rightarrow> (atreus_policy, atreus_state) dispatch" where
  "Loki_on env e self w =
     (case e of
        OnStart \<Rightarrow> ExecRead self w
      | OnRecvWholeBladeObject \<Rightarrow> Loki_OnRecv env self w
      | OnChildDie _ \<Rightarrow> ExecWrite self w
      | _ \<Rightarrow> Inr w)"

text \<open>The virtual call on the policy of a session; the father of a client session is never a client.\<close>

definition father_on :: "atreus_env \<Rightarrow> (atreus_policy, atreus_state) dispatch" where
  "father_on env e i w =
     (case map_of (sessions w) i of
        Some (_, KartosPolicy) \<Rightarrow> Kartos_on env e i w
      | Some (_, LokiPolicy) \<Rightarrow> Loki_on env e i w
      | _ \<Rightarrow> Inl NullDeref)"

definition Atreus_on :: "atreus_env \<Rightarrow> (atreus_policy, atreus_state) dispatch" where
  "Atreus_on env e i w =
     (case map_of (sessions w) i of
        Some (_, ClientPolicy name) \<Rightarrow> Client_on name (father_on env) e i w
      | _ \<Rightarrow> father_on env e i w)"

section \<open>A forwarded exchange\<close>

text \<open>The session of a request and the client session that forwards it.\<close>

definition pair_world ::
  "blade_session \<Rightarrow> atreus_policy \<Rightarrow> blade_session \<Rightarrow> string \<Rightarrow> atreus_state \<Rightarrow> (nat \<times> async_op) list \<Rightarrow> atreus_world" where
  "pair_world s p c n st ops = \<lparr>sessions = [(1, (c, ClientPolicy n)), (0, (s, p))], in_flight = ops, process = st\<rparr>"

lemma pair_world_simps [simp]:
  "session 0 (pair_world s p c n st ops) = Inr s" "session 1 (pair_world s p c n st ops) = Inr c"
  "session (Suc 0) (pair_world s p c n st ops) = Inr c"
  "set_session 0 s' (pair_world s p c n st ops) = pair_world s' p c n st ops"
  "set_session 1 c' (pair_world s p c n st ops) = pair_world s p c' n st ops"
  "set_session (Suc 0) c' (pair_world s p c n st ops) = pair_world s p c' n st ops"
  "start_op 0 (s', op) (pair_world s p c n st ops) = pair_world s' p c n st (ops @ [(0, op)])"
  "start_op 1 (c', op) (pair_world s p c n st ops) = pair_world s p c' n st (ops @ [(1, op)])"
  "start_op (Suc 0) (c', op) (pair_world s p c n st ops) = pair_world s p c' n st (ops @ [(1, op)])"
  "in_flight (pair_world s p c n st ops) = ops" "process (pair_world s p c n st ops) = st"
  "(pair_world s p c n st ops)\<lparr>in_flight := ops'\<rparr> = pair_world s p c n st ops'"
  "sessions (pair_world s p c n st ops) = [(1, (c, ClientPolicy n)), (0, (s, p))]"
  by (simp_all add: pair_world_def session_def set_session_def start_op_def)

lemma client_on [simp]:
  "Atreus_on env e (Suc 0) (pair_world s p c n st ops) = Client_on n (father_on env) e (Suc 0) (pair_world s p c n st ops)"
  by (simp add: Atreus_on_def)

lemma father_child_die:
  "p \<in> {KartosPolicy, LokiPolicy} \<Longrightarrow> father_on env (OnChildDie j) 0 (pair_world s p c n st ops) = ExecWrite 0 (pair_world s p c n st ops)"
  by (auto simp: father_on_def Kartos_on_def Loki_on_def)

lemma play_one: "map_of (in_flight w) i = Some op \<Longrightarrow> complete on i op ec got w = Inr w' \<Longrightarrow> play on ((i, ec, got) # es) w = play on es w'"
  by simp

lemma ExecWrite_pair:
  assumes "bs_obj c = Some r" and "obj_fits r" and "in_seq (bs_send c) = []"
  obtains b where "in_seq b = object_image (UpdateHeaderField r)"
    "ExecWrite 1 (pair_world s p c n st ops) = Inr (pair_world s p (c\<lparr>bs_obj := Some (UpdateHeaderField r), bs_send := b\<rparr>) n st
      (ops @ [(1, AsyncWrite (object_image (UpdateHeaderField r)) (40 + body_size r))]))"
proof -
  have "session 1 (pair_world s p c n st ops) = Inr c" by simp
  from ExecWrite_fits [OF this assms] that show thesis by (metis pair_world_simps(8))
qed

text \<open>Connecting and writing: the child sends the object its father holds, and waits for a header.\<close>

lemma child_sends:
  assumes c: "c = BS_Hold n 0 (BladeSession (Some ep))"
    and q: "bs_obj s = Some q" "obj_fits q"
  obtains c' where "in_seq (bs_recv c') = []" "out_area (bs_recv c') = replicate 40 0" "BS_GetSession n c' = Some 0"
    "\<And>es. play (Atreus_on env) ((1, 0, []) # (1, 0, object_image (UpdateHeaderField q)) # es) (pair_world s p c n st [(1, AsyncConnect)])
      = play (Atreus_on env) es (pair_world s p c' n st [(1, AsyncReadHeader)])"
proof -
  let ?c = "c\<lparr>bs_obj := Some q\<rparr>" and ?img = "object_image (UpdateHeaderField q)" and ?n = "40 + body_size q"
  have hold: "BS_GetSession n c = Some 0" "bs_recv c = new_buffer" "in_seq (bs_send c) = []"
    by (simp_all add: c BS_Hold_def BS_GetSession_def BladeSession_def map_of_emplace new_buffer_def)
  obtain b where b: "in_seq b = ?img" "ExecWrite 1 (pair_world s p ?c n st []) = Inr (pair_world s p
      (?c\<lparr>bs_obj := Some (UpdateHeaderField q), bs_send := b\<rparr>) n st [(1, AsyncWrite ?img ?n)])"
    by (rule ExecWrite_pair [of ?c q s p n st "[]"]) (use q(2) hold(3) in simp_all)
  let ?c1 = "?c\<lparr>bs_obj := Some (UpdateHeaderField q), bs_send := b\<rparr>"
  have 1: "complete (Atreus_on env) 1 AsyncConnect 0 [] (pair_world s p c n st [(1, AsyncConnect)])
      = Inr (pair_world s p ?c1 n st [(1, AsyncWrite ?img ?n)])"
    using q(1) hold b(2) by (simp add: complete_def connect_done_def Client_on_def BS_SetBladeObject_def Clone_def)
  let ?c2 = "?c1\<lparr>bs_send := Consume ?n b, bs_obj := None, bs_recv := PrepareBuffer 40 new_buffer\<rparr>"
  have len: "length ?img = ?n" using q(2) by (simp add: length_object_image)
  have 2: "complete (Atreus_on env) 1 (AsyncWrite ?img ?n) 0 ?img (pair_world s p ?c1 n st [(1, AsyncWrite ?img ?n)])
      = Inr (pair_world s p ?c2 n st [(1, AsyncReadHeader)])"
    using len hold(2) by (simp add: complete_def write_done_def Client_on_def ExecRead_def BS_DoReadHeader_def sizeof_header_def)
  have "play (Atreus_on env) ((1, 0, []) # (1, 0, ?img) # es) (pair_world s p c n st [(1, AsyncConnect)])
      = play (Atreus_on env) es (pair_world s p ?c2 n st [(1, AsyncReadHeader)])" for es
    by (simp add: 1 [simplified] 2 [simplified])
  then show thesis using hold by (intro that [of ?c2]) (simp_all add: BS_GetSession_def buffer_defs)
qed

text \<open>Reading the answer: the father writes it back.\<close>

lemma child_receives:
  assumes p: "p \<in> {KartosPolicy, LokiPolicy}"
    and c: "in_seq (bs_recv c) = []" "out_area (bs_recv c) = replicate 40 0" "BS_GetSession n c = Some 0"
    and len: "length body = unat (payload_length h)" "length body < 2 ^ 31"
    and r: "DecodeWithHeader h body 0 (int (length body)) = Inr (Some r)" "obj_fits r"
    and s: "in_seq (bs_send s) = []"
  obtains s' c' where "play (Atreus_on env) [(1, 0, header_bytes h), (1, 0, body)] (pair_world s p c n st [(1, AsyncReadHeader)])
      = Inr (pair_world s' p c' n st [(0, AsyncWrite (object_image (UpdateHeaderField r)) (40 + body_size r))])"
    "in_seq (bs_send s') = object_image (UpdateHeaderField r)"
proof -
  let ?n = "length body" and ?on = "Atreus_on env"
  from header_done_ok [of 1 "pair_world s p c n st []" c, OF _ c(1,2), of ?on h] obtain c1 where
    h: "header_done ?on 1 0 (header_bytes h) (pair_world s p c n st [])
        = Inr (pair_world s p c1 n st [(1, AsyncReadBody ?n)])"
    and c1: "bs_header c1 = Some h" "in_seq (bs_recv c1) = []" "out_area (bs_recv c1) = replicate ?n 0"
      "bs_hold c1 = bs_hold c"
    using len(1) by auto
  from body_done_ok [of 1 "pair_world s p c1 n st []" c1 body h ?on, OF _ c1(2,3,1) len(2)] r(1) obtain b where
    b: "body_done ?on 1 ?n 0 body (pair_world s p c1 n st []) =
        ?on OnRecvWholeBladeObject 1 (pair_world s p (c1\<lparr>bs_obj := Some r, bs_recv := b\<rparr>) n st [])" by auto
  let ?c = "c1\<lparr>bs_obj := Some r, bs_recv := b\<rparr>" and ?s = "s\<lparr>bs_obj := Some r\<rparr>"
  have "session 0 (pair_world ?s p ?c n st []) = Inr ?s" by simp
  then obtain a where a: "in_seq a = object_image (UpdateHeaderField r)"
    "ExecWrite 0 (pair_world ?s p ?c n st []) = Inr (start_op 0
      (?s\<lparr>bs_obj := Some (UpdateHeaderField r), bs_send := a\<rparr>,
       AsyncWrite (object_image (UpdateHeaderField r)) (40 + body_size r)) (pair_world ?s p ?c n st []))"
    by (rule ExecWrite_fits [where r = r]) (use s r(2) in simp_all)
  let ?s' = "?s\<lparr>bs_obj := Some (UpdateHeaderField r), bs_send := a\<rparr>"
  have hold: "BS_GetSession n ?c = Some 0" using c(3) c1(4) by (simp add: BS_GetSession_def)
  have "?on OnRecvWholeBladeObject 1 (pair_world s p ?c n st [])
      = Inr (pair_world ?s' p ?c n st [(0, AsyncWrite (object_image (UpdateHeaderField r)) (40 + body_size r))])"
    using hold a(2) father_child_die [OF p] by (simp add: Client_on_def BS_SetBladeObject_def Clone_def)
  then have "play ?on [(1, 0, header_bytes h), (1, 0, body)] (pair_world s p c n st [(1, AsyncReadHeader)])
      = Inr (pair_world ?s' p ?c n st [(0, AsyncWrite (object_image (UpdateHeaderField r)) (40 + body_size r))])"
    using h b by (simp add: complete_def)
  with a(1) show thesis by (intro that [of ?s' ?c]) simp_all
qed

lemma start_child_pair:
  "start_child n ep 0 (one_session s p st)
    = Inr (pair_world s p (BS_Hold n 0 (BladeSession (Some ep))) n st [(1, AsyncConnect)])"
  by (simp add: start_child_def new_session_def Client_on_def ExecConnect_def BS_DoConnect_def one_session_def
      session_def start_op_def set_session_def pair_world_def)

lemma atreus_start [simp]:
  "p \<in> {KartosPolicy, LokiPolicy} \<Longrightarrow> Atreus_on env OnStart 0 (one_session s p st) = ExecRead 0 (one_session s p st)"
  by (auto simp: Atreus_on_def father_on_def Kartos_on_def Loki_on_def)

lemma on_received:
  "Atreus_on env OnRecvWholeBladeObject 0 (one_session s KartosPolicy st) = Kartos_OnRecv env 0 (one_session s KartosPolicy st)"
  "Atreus_on env OnRecvWholeBladeObject 0 (one_session s LokiPolicy st) = Loki_OnRecv env 0 (one_session s LokiPolicy st)"
  by (simp_all add: Atreus_on_def father_on_def Kartos_on_def Loki_on_def)

text \<open>The outcome of \<open>Kartos_OnRecv\<close> on a request, by what the registry holds.\<close>

lemma Kartos_request:
  assumes s: "bs_obj s = Some q" "obj_wf q" "GetType q = kBTRequest" "field_map q kRequestService = Some (VString name)"
    and dm: "and_then (AtreusDM_DoQuery name (at_data st)) (AtreusDM_DoBytes name (to_int32 (uint (GetPayloadLength q)))) = Inr dm"
    and env: "others env = []" "address_ok env (this_ip env)"
  shows "Kartos_OnRecv env 0 (one_session s KartosPolicy st) =
    (case map_of (at_services st) name of
       None \<Rightarrow> Inr (one_session s KartosPolicy (st\<lparr>at_data := dm\<rparr>))
     | Some prt \<Rightarrow> Inr (pair_world s KartosPolicy (BS_Hold ''kartos'' 0 (BladeSession (Some (this_ip env, prt)))) ''kartos''
         (st\<lparr>at_data := dm\<rparr>) [(1, AsyncConnect)]))"
proof -
  have g: "GetString q kRequestService = Inr name" using s by (simp add: getter_iffs)
  obtain dm1 where d: "AtreusDM_DoQuery name (at_data st) = Inr dm1"
    "AtreusDM_DoBytes name (to_int32 (uint (GetPayloadLength q))) dm1 = Inr dm"
    using dm by (auto simp: and_then_Inr_iff)
  have "st\<lparr>at_data := dm, at_services := at_services st\<rparr> = st\<lparr>at_data := dm\<rparr>" by simp
  with s(1,3) g d env show ?thesis
    by (cases "map_of (at_services st) name")
      (simp_all add: Kartos_OnRecv_def Kartos_try_def AtreusSM_Query_def AtreusSM_Contains_def subscript_def
        kv_emplace_def MakeTcpEndpoint_eq start_child_pair del: One_nat_def)
qed

lemma Kartos_ignores:
  assumes "bs_obj s = Some q" and "obj_wf q"
    and "GetType q \<noteq> kBTRequest \<or> (\<forall>name. field_map q kRequestService \<noteq> Some (VString name))"
  shows "Kartos_OnRecv env 0 (one_session s KartosPolicy st) = Inr (one_session s KartosPolicy st)"
proof (cases "GetType q = kBTRequest")
  case True
  with assms have "GetString q kRequestService = Inl NoSuchFieldException"
    by (auto intro: GetString_missing)
  with True assms(1) show ?thesis by (simp add: Kartos_OnRecv_def Kartos_try_def)
next
  case False
  with assms(1) show ?thesis by (simp add: Kartos_OnRecv_def Kartos_try_def)
qed

text \<open>The bytes of a message as the two completions of a read deliver them.\<close>

definition arriving :: "nat \<Rightarrow> blade_object \<Rightarrow> (nat \<times> error_code \<times> mem) list" where
  "arriving i obj = [(i, 0, header_bytes (bo_header (UpdateHeaderField obj))), (i, 0, body_image (UpdateHeaderField obj))]"

definition connected :: "atreus_env \<Rightarrow> atreus_policy \<Rightarrow> atreus_state \<Rightarrow> (nat \<times> error_code \<times> mem) list \<Rightarrow> atreus_world result" where
  "connected env p st es = and_then (accept (Atreus_on env) p \<lparr>sessions = [], in_flight = [], process = st\<rparr>) (play (Atreus_on env) es)"

text \<open>What a session has after a well-formed object arrived.\<close>

lemma connected_arriving:
  assumes "p \<in> {KartosPolicy, LokiPolicy}" and "obj_wf q" and "obj_fits q"
  obtains s q' where "bs_send s = new_buffer" "obj_wf q'" "obj_equiv q' (UpdateHeaderField q)" "field_map q' = field_map q"
    "GetType q' = GetType q" "GetTraceId q' = GetTraceId q" "GetServiceName q' = GetServiceName q"
    "obj_fits q'" "uint (GetPayloadLength q') = int (body_size q)" "bs_obj s = Some q'"
    "\<And>es. connected env p st (arriving 0 q @ es) = and_then (Atreus_on env OnRecvWholeBladeObject 0 (one_session s p st)) (play (Atreus_on env) es)"
proof -
  let ?u = "UpdateHeaderField q"
  obtain q' where q': "DecodeWithHeader (bo_header ?u) (body_image ?u) 0 (int (length (body_image ?u))) = Inr (Some q')"
      "obj_wf q'" "obj_equiv q' ?u" "field_map q' = field_map q" "GetType q' = GetType q" "GetTraceId q' = GetTraceId q"
      "GetServiceName q' = GetServiceName q" "obj_fits q'" "uint (GetPayloadLength q') = int (body_size q)"
    and len: "length (body_image ?u) = unat (payload_length (bo_header ?u))" "length (body_image ?u) < 2 ^ 31"
    by (rule sent_facts [OF assms(2,3)])
  obtain s where s: "bs_send s = new_buffer"
    and eq: "\<And>es. and_then (accept (Atreus_on env) p \<lparr>sessions = [], in_flight = [], process = st\<rparr>)
        (play (Atreus_on env) ((0, 0, header_bytes (bo_header ?u)) # (0, 0, body_image ?u) # es)) =
      and_then (DecodeWithHeader (bo_header ?u) (body_image ?u) 0 (int (length (body_image ?u)))) (\<lambda>r.
      and_then (Atreus_on env OnRecvWholeBladeObject 0 (one_session (s\<lparr>bs_obj := r\<rparr>) p st)) (play (Atreus_on env) es))"
    by (rule serve_eq [where on = "Atreus_on env" and p = p and st = st and rest = "[]", OF atreus_start [OF assms(1)] len]) (rule that)
  let ?s = "s\<lparr>bs_obj := Some q'\<rparr>"
  have "bs_send ?s = new_buffer" "bs_obj ?s = Some q'" using s by simp_all
  moreover have "connected env p st (arriving 0 q @ es) =
      and_then (Atreus_on env OnRecvWholeBladeObject 0 (one_session ?s p st)) (play (Atreus_on env) es)" for es
    using eq [of es] unfolding q'(1) connected_def arriving_def by simp
  ultimately show thesis using that q'(2-9) by blast
qed

text \<open>
  The whole exchange of a client session: it sends the object its father holds, and the well-formed
  answer it reads is what the father writes.
\<close>

lemma forwarded:
  assumes p: "p \<in> {KartosPolicy, LokiPolicy}" and s: "bs_send s = new_buffer" "bs_obj s = Some q'" "obj_fits q'"
    and r: "obj_wf r" "obj_fits r"
  obtains r' w2 where "obj_wf r'" "obj_equiv r' (UpdateHeaderField r)"
    "play (Atreus_on env) ([(1, 0, []), (1, 0, object_image (UpdateHeaderField q'))] @ arriving 1 r)
        (pair_world s p (BS_Hold n 0 (BladeSession (Some ep))) n st [(1, AsyncConnect)]) = Inr w2"
    "in_flight w2 = [(0, AsyncWrite (object_image (UpdateHeaderField r')) (40 + body_size r))]" "process w2 = st"
proof -
  let ?u = "UpdateHeaderField r" and ?on = "Atreus_on env"
  obtain r' where r': "DecodeWithHeader (bo_header ?u) (body_image ?u) 0 (int (length (body_image ?u))) = Inr (Some r')"
      "obj_wf r'" "obj_equiv r' ?u" "obj_fits r'"
    and len: "length (body_image ?u) = unat (payload_length (bo_header ?u))" "length (body_image ?u) < 2 ^ 31"
    by (rule sent_facts [OF r])
  obtain c where c: "in_seq (bs_recv c) = []" "out_area (bs_recv c) = replicate 40 0" "BS_GetSession n c = Some 0"
    and send: "\<And>es. play ?on ((1, 0, []) # (1, 0, object_image (UpdateHeaderField q')) # es)
        (pair_world s p (BS_Hold n 0 (BladeSession (Some ep))) n st [(1, AsyncConnect)])
      = play ?on es (pair_world s p c n st [(1, AsyncReadHeader)])"
    using child_sends [OF refl s(2,3)] by metis
  obtain s' c' where recv: "play ?on [(1, 0, header_bytes (bo_header ?u)), (1, 0, body_image ?u)]
      (pair_world s p c n st [(1, AsyncReadHeader)])
      = Inr (pair_world s' p c' n st [(0, AsyncWrite (object_image (UpdateHeaderField r')) (40 + body_size r'))])"
    by (rule child_receives [where s = s and env = env and st = st, OF p c len r'(1,4)]) (use s(1) in \<open>simp_all add: new_buffer_def\<close>)
  have "body_size r' = body_size r" using obj_equiv_size [OF r'(3)] r(2) by simp
  with r'(2,3) send recv show thesis
    by (intro that [of r' "pair_world s' p c' n st [(0, AsyncWrite (object_image (UpdateHeaderField r')) (40 + body_size r'))]"])
      (simp_all add: arriving_def)
qed

text \<open>
  C22. \<^verbatim>\<open>Kartos\<close> is a proxy. A request for a registered service arrives on a fresh connection: one query
  and its size are counted, and a client session is connected to the service's port on this host.
  When that connection is accepted, the request's copy written and a well-formed answer read, the
  answer, unchanged but for its size fields, is written to the caller; what is sent to the service is the request.
\<close>

theorem Kartos_forwards:
  assumes "obj_wf q" and "obj_fits q" and "GetType q = kBTRequest" and "field_map q kRequestService = Some (VString name)"
    and "obj_wf r" and "obj_fits r"
    and "map_of (at_services st) name = Some prt" and "others env = []" and "address_ok env (this_ip env)"
    and "and_then (AtreusDM_DoQuery name (at_data st)) (AtreusDM_DoBytes name (int (body_size q))) = Inr dm"
  shows "\<exists>q' r' w1 w2 c. obj_wf q' \<and> obj_equiv q' (UpdateHeaderField q) \<and> obj_wf r' \<and> obj_equiv r' (UpdateHeaderField r)
    \<and> connected env KartosPolicy st (arriving 0 q) = Inr w1 \<and> in_flight w1 = [(1, AsyncConnect)]
    \<and> session 1 w1 = Inr c \<and> bs_endpoint c = Some (this_ip env, prt) \<and> process w1 = st\<lparr>at_data := dm\<rparr>
    \<and> play (Atreus_on env) ([(1, 0, []), (1, 0, object_image (UpdateHeaderField q'))] @ arriving 1 r) w1 = Inr w2
    \<and> in_flight w2 = [(0, AsyncWrite (object_image (UpdateHeaderField r')) (40 + body_size r))]
    \<and> process w2 = process w1"
proof -
  let ?c = "BS_Hold ''kartos'' 0 (BladeSession (Some (this_ip env, prt)))" and ?st = "st\<lparr>at_data := dm\<rparr>" and ?on = "Atreus_on env"
  obtain s q' where s: "bs_send s = new_buffer" "bs_obj s = Some q'"
    and q': "obj_wf q'" "obj_equiv q' (UpdateHeaderField q)" "field_map q' = field_map q" "GetType q' = GetType q"
      "obj_fits q'" "uint (GetPayloadLength q') = int (body_size q)"
    and eq: "\<And>es. connected env KartosPolicy st (arriving 0 q @ es) =
        and_then (?on OnRecvWholeBladeObject 0 (one_session s KartosPolicy st)) (play ?on es)"
    by (rule connected_arriving [where p = KartosPolicy and env = env and st = st, OF _ assms(1,2)]) auto
  have n: "body_size q < 2 ^ 31" using assms(2) by (simp add: obj_fits_def)
  let ?w1 = "pair_world s KartosPolicy ?c ''kartos'' ?st [(1, AsyncConnect)]"
  have w1: "connected env KartosPolicy st (arriving 0 q) = Inr ?w1"
    using eq [of "[]"] Kartos_request [OF s(2) q'(1), of name st dm env] q'(3-6) assms(3,4,7-10) n
    by (simp add: on_received)
  obtain r' w2 where "obj_wf r'" "obj_equiv r' (UpdateHeaderField r)"
    "play ?on ([(1, 0, []), (1, 0, object_image (UpdateHeaderField q'))] @ arriving 1 r) ?w1 = Inr w2"
    "in_flight w2 = [(0, AsyncWrite (object_image (UpdateHeaderField r')) (40 + body_size r))]" "process w2 = ?st"
    by (rule forwarded [where p = KartosPolicy and n = "''kartos''", OF _ s q'(5) assms(5,6)]) auto
  moreover have "bs_endpoint ?c = Some (this_ip env, prt)" by (simp add: BS_Hold_def BladeSession_def)
  ultimately show ?thesis
    using q'(1,2) w1 by (intro exI [of _ q'] exI [of _ r'] exI [of _ ?w1] exI [of _ w2] exI [of _ ?c]) simp
qed

section \<open>The branches of Loki\<close>

lemma ExecWrite_one_session:
  assumes "bs_send s = new_buffer" and "bs_obj s = Some q" and "obj_fits q"
  obtains s' where "ExecWrite 0 (one_session s p st)
    = Inr ((one_session s' p st)\<lparr>in_flight := [(0, AsyncWrite (object_image (UpdateHeaderField q)) (40 + body_size q))]\<rparr>)"
proof -
  have "session 0 (one_session s p st) = Inr s" "in_seq (bs_send s) = []" using assms(1) by (simp_all add: new_buffer_def)
  then show thesis using ExecWrite_fits [of 0 "one_session s p st" s q] assms(2,3) that
    by (metis start_one_session)
qed

lemma Loki_register_eq:
  assumes s: "bs_send s = new_buffer" "bs_obj s = Some q" "obj_fits q" and q: "obj_wf q" "GetType q = kBTRegister" "field_map q kRegisterPort = Some (VI32 v)"
    and st': "st' = st\<lparr>at_services := AtreusSM_Register (GetServiceName q) (ucast v) (at_services st)\<rparr>"
    and ice: "ice = CallExt (env_net env) (Some (NewRegister (draw env 0) (GetServiceName q) (this_ip env) (ucast v))) kIcePort (ice_ip env)"
  shows "(case ice of
      Inr _ \<Rightarrow> \<exists>s'. Loki_OnRecv env 0 (one_session s LokiPolicy st) = Inr ((one_session s' LokiPolicy st')
          \<lparr>in_flight := [(0, AsyncWrite (object_image (UpdateHeaderField q)) (40 + body_size q))]\<rparr>)
    | Inl e \<Rightarrow> Loki_OnRecv env 0 (one_session s LokiPolicy st) =
        (if is_exception e then Inr (one_session s LokiPolicy st') else Inl e))"
proof -
  have "GetI32 q kRegisterPort = Inr v" using q by (simp add: getter_iffs)
  moreover obtain s' where "ExecWrite 0 (one_session s LokiPolicy st')
    = Inr ((one_session s' LokiPolicy st')\<lparr>in_flight := [(0, AsyncWrite (object_image (UpdateHeaderField q)) (40 + body_size q))]\<rparr>)"
    using ExecWrite_one_session [OF s] by metis
  ultimately show ?thesis using s(2) q(2)
    by (cases ice) (auto simp: Loki_OnRecv_def Loki_try_def Loki_register_def Let_def st' ice [symmetric])
qed

lemma Loki_deregister_eq:
  assumes s: "bs_send s = new_buffer" "bs_obj s = Some q" "obj_fits q" and q: "GetType q = kBTDeregister"
    and st': "st' = st\<lparr>at_services := AtreusSM_Deregister (others env) (GetServiceName q) (at_services st)\<rparr>"
    and ice: "ice = CallExt (env_net env) (Some (NewDeregister (draw env 0) (GetServiceName q) (this_ip env))) kIcePort (ice_ip env)"
  shows "(case ice of
      Inr _ \<Rightarrow> \<exists>s'. Loki_OnRecv env 0 (one_session s LokiPolicy st) = Inr ((one_session s' LokiPolicy st')
          \<lparr>in_flight := [(0, AsyncWrite (object_image (UpdateHeaderField q)) (40 + body_size q))]\<rparr>)
    | Inl e \<Rightarrow> Loki_OnRecv env 0 (one_session s LokiPolicy st) =
        (if is_exception e then Inr (one_session s LokiPolicy st') else Inl e))"
proof -
  have "GetType q \<noteq> kBTRegister" using q by (simp add: blade_type_defs)
  moreover obtain s' where "ExecWrite 0 (one_session s LokiPolicy st')
    = Inr ((one_session s' LokiPolicy st')\<lparr>in_flight := [(0, AsyncWrite (object_image (UpdateHeaderField q)) (40 + body_size q))]\<rparr>)"
    using ExecWrite_one_session [OF s] by metis
  ultimately show ?thesis using s(2) q
    by (cases ice) (auto simp: Loki_OnRecv_def Loki_try_def Loki_deregister_def Let_def st' ice [symmetric])
qed

text \<open>The answer of loki to a request for a service that ice does not know.\<close>

definition no_service :: "u32 \<Rightarrow> blade_object \<Rightarrow> string \<Rightarrow> blade_object" where
  "no_service g q callee = snd (AddByte kNoService kZeroByte (NewResponse_traced g callee (GetTraceId q) (GetServiceName q)))"

lemma Loki_no_answer:
  assumes s: "bs_send s = new_buffer" "bs_obj s = Some q" and q: "GetType q \<notin> {kBTRegister, kBTDeregister}"
      "GetTraceId q = 0" "GetString q kRequestService = Inr name"
    and ice: "CallExt (env_net env) (Some (NewQuery (draw env 0) kLokiServiceName name)) kIcePort (ice_ip env) = Inr (Some a)"
      "GetFieldType a kNoAnswer \<noteq> FT_None"
    and dm: "AtreusDM_DoError name (at_data st) = Inr dm" and fits: "obj_fits (no_service (draw env 1) q name)"
  shows "\<exists>s'. Loki_OnRecv env 0 (one_session s LokiPolicy st) = Inr ((one_session s' LokiPolicy (st\<lparr>at_data := dm\<rparr>))
      \<lparr>in_flight := [(0, AsyncWrite (object_image (UpdateHeaderField (no_service (draw env 1) q name)))
         (40 + body_size (no_service (draw env 1) q name)))]\<rparr>)"
proof -
  let ?w = "one_session s LokiPolicy st" and ?res = "no_service (draw env 1) q name"
  have br: "Loki_try env 0 q ?w = Loki_request env 0 q ?w" using q(1,2) by (simp add: Loki_try_def kBTRequest_def)
  have "bs_send (s\<lparr>bs_obj := Some ?res\<rparr>) = new_buffer" "bs_obj (s\<lparr>bs_obj := Some ?res\<rparr>) = Some ?res" using s by simp_all
  then obtain s' where "ExecWrite 0 (one_session (s\<lparr>bs_obj := Some ?res\<rparr>) LokiPolicy (st\<lparr>at_data := dm\<rparr>))
    = Inr ((one_session s' LokiPolicy (st\<lparr>at_data := dm\<rparr>))
      \<lparr>in_flight := [(0, AsyncWrite (object_image (UpdateHeaderField ?res)) (40 + body_size ?res))]\<rparr>)"
    using ExecWrite_one_session fits by metis
  with q(3) ice s(2) br dm show ?thesis
    by (intro exI [of _ s']) (simp add: Loki_OnRecv_def Loki_request_def Loki_no_service_def Let_def BS_SetBladeObject_def no_service_def)
qed

lemma Loki_request_eq:
  assumes s: "bs_send s = new_buffer" "bs_obj s = Some q" and q: "obj_wf q" "GetType q \<notin> {kBTRegister, kBTDeregister}"
      "GetTraceId q = 0" "field_map q kRequestService = Some (VString name)"
    and ice: "CallExt (env_net env) (Some (NewQuery (draw env 0) kLokiServiceName name)) kIcePort (ice_ip env) = Inr (Some a)" "obj_wf a"
  shows "(if field_map a kNoAnswer = None then
        (case field_map a kAnswerIp of
           Some (VString ip) \<Rightarrow>
             Loki_OnRecv env 0 (one_session s LokiPolicy st) =
               Inr (if address_ok env ip
                    then pair_world s LokiPolicy (BS_Hold ''loki'' 0 (BladeSession (Some (ip, kKartosPort)))) ''loki'' st [(1, AsyncConnect)]
                    else one_session s LokiPolicy st)
         | _ \<Rightarrow> Loki_OnRecv env 0 (one_session s LokiPolicy st) = Inr (one_session s LokiPolicy st))
      else \<forall>dm. AtreusDM_DoError name (at_data st) = Inr dm \<and> obj_fits (no_service (draw env 1) q name) \<longrightarrow>
        (\<exists>s'. Loki_OnRecv env 0 (one_session s LokiPolicy st) = Inr ((one_session s' LokiPolicy (st\<lparr>at_data := dm\<rparr>))
          \<lparr>in_flight := [(0, AsyncWrite (object_image (UpdateHeaderField (no_service (draw env 1) q name)))
             (40 + body_size (no_service (draw env 1) q name)))]\<rparr>)))"
proof -
  let ?w = "one_session s LokiPolicy st" and ?res = "no_service (draw env 1) q name"
  have g: "GetString q kRequestService = Inr name" using q by (simp add: getter_iffs)
  have br: "Loki_try env 0 q ?w = Loki_request env 0 q ?w" using q(2,3) by (simp add: Loki_try_def kBTRequest_def)
  show ?thesis
  proof (cases "field_map a kNoAnswer")
    case None
    then have n: "GetFieldType a kNoAnswer = FT_None" using ice(2) by (simp add: GetFieldType_fields)
    show ?thesis
    proof (cases "\<exists>ip. field_map a kAnswerIp = Some (VString ip)")
      case True
      then obtain ip where ip: "field_map a kAnswerIp = Some (VString ip)" by blast
      then have "GetString a kAnswerIp = Inr ip" using ice(2) by (simp add: getter_iffs)
      with g n ice(1) s(2) br ip None show ?thesis
        by (simp add: Loki_OnRecv_def Loki_request_def Let_def MakeTcpEndpoint_eq start_child_pair del: One_nat_def)
    next
      case False
      then have "GetString a kAnswerIp = Inl NoSuchFieldException" using ice(2) by (intro GetString_missing) blast+
      with g n ice(1) s(2) br False None show ?thesis
        by (auto simp: Loki_OnRecv_def Loki_request_def Let_def split: option.splits field_value.splits)
    qed
  next
    case (Some v)
    then have n: "GetFieldType a kNoAnswer \<noteq> FT_None" using ice(2) by (cases v) (simp_all add: GetFieldType_fields)
    with Some Loki_no_answer [OF s q(2,3) g ice(1)] show ?thesis by simp
  qed
qed

lemma Loki_ignores:
  assumes "bs_obj s = Some q" and "GetType q \<notin> {kBTRegister, kBTDeregister}" and "GetTraceId q \<noteq> 0"
  shows "Loki_OnRecv env 0 (one_session s LokiPolicy st) = Inr (one_session s LokiPolicy st)"
  using assms by (simp add: Loki_OnRecv_def Loki_try_def kBTRequest_def)

text \<open>The rest of a schedule plays no role when nothing follows.\<close>

lemma and_then_play_Nil [simp]: "and_then m (play on []) = m"
  by (cases m) simp_all

text \<open>The same for messages that arrive on a fresh connection.\<close>

lemma Loki_registration_connected:
  assumes "obj_wf q" and "obj_fits q"
    and "(m, sm') \<in> (if GetType q = kBTRegister \<and> field_map q kRegisterPort = Some (VI32 v)
      then {(NewRegister (draw env 0) (GetServiceName q) (this_ip env) (ucast v),
             AtreusSM_Register (GetServiceName q) (ucast v) (at_services st))}
      else if GetType q = kBTDeregister
      then {(NewDeregister (draw env 0) (GetServiceName q) (this_ip env),
             AtreusSM_Deregister (others env) (GetServiceName q) (at_services st))}
      else {})"
  shows "case CallExt (env_net env) (Some m) kIcePort (ice_ip env) of
      Inr _ \<Rightarrow> \<exists>q' w. connected env LokiPolicy st (arriving 0 q) = Inr w \<and> process w = st\<lparr>at_services := sm'\<rparr>
        \<and> obj_wf q' \<and> obj_equiv q' (UpdateHeaderField q)
        \<and> in_flight w = [(0, AsyncWrite (object_image (UpdateHeaderField q')) (40 + body_size q))]
    | Inl e \<Rightarrow>
        if is_exception e then \<exists>w. connected env LokiPolicy st (arriving 0 q) = Inr w
          \<and> process w = st\<lparr>at_services := sm'\<rparr> \<and> in_flight w = []
        else connected env LokiPolicy st (arriving 0 q) = Inl e"
proof -
  let ?ice = "CallExt (env_net env) (Some m) kIcePort (ice_ip env)" and ?st = "st\<lparr>at_services := sm'\<rparr>"
  obtain s q' where s: "bs_send s = new_buffer" "bs_obj s = Some q'"
    and q': "obj_wf q'" "obj_equiv q' (UpdateHeaderField q)" "field_map q' = field_map q" "GetType q' = GetType q"
      "GetServiceName q' = GetServiceName q" "obj_fits q'"
    and eq: "\<And>es. connected env LokiPolicy st (arriving 0 q @ es) =
        and_then (Atreus_on env OnRecvWholeBladeObject 0 (one_session s LokiPolicy st)) (play (Atreus_on env) es)"
    by (rule connected_arriving [where p = LokiPolicy and env = env and st = st, OF _ assms(1,2)]) auto
  have size: "body_size q' = body_size q" using obj_equiv_size [OF q'(2)] assms(2) by simp
  have "(case ?ice of
      Inr _ \<Rightarrow> \<exists>s'. Loki_OnRecv env 0 (one_session s LokiPolicy st) = Inr ((one_session s' LokiPolicy ?st)
          \<lparr>in_flight := [(0, AsyncWrite (object_image (UpdateHeaderField q')) (40 + body_size q'))]\<rparr>)
    | Inl e \<Rightarrow> Loki_OnRecv env 0 (one_session s LokiPolicy st) =
        (if is_exception e then Inr (one_session s LokiPolicy ?st) else Inl e))"
  proof (cases "GetType q = kBTRegister \<and> field_map q kRegisterPort = Some (VI32 v)")
    case True
    with assms(3) have m: "m = NewRegister (draw env 0) (GetServiceName q) (this_ip env) (ucast v)"
      "sm' = AtreusSM_Register (GetServiceName q) (ucast v) (at_services st)" by simp_all
    show ?thesis using True q'(3-5) by (intro Loki_register_eq [OF s q'(6,1)]) (simp_all add: m)
  next
    case False
    with assms(3) have "(m, sm') \<in> (if GetType q = kBTDeregister
      then {(NewDeregister (draw env 0) (GetServiceName q) (this_ip env),
             AtreusSM_Deregister (others env) (GetServiceName q) (at_services st))} else {})" by simp
    then have m: "m = NewDeregister (draw env 0) (GetServiceName q) (this_ip env)" "GetType q = kBTDeregister"
      "sm' = AtreusSM_Deregister (others env) (GetServiceName q) (at_services st)" by (auto split: if_splits)
    show ?thesis using q'(4,5) m by (intro Loki_deregister_eq [OF s q'(6)]) simp_all
  qed
  with q'(1,2) size show ?thesis
    using eq [of "[]"] by (cases ?ice) (auto simp: on_received)
qed


text \<open>
  Registering at \<^verbatim>\<open>Loki\<close>. A registration (a withdrawal) with a port field changes the local registry
  and is passed on to ice under this host's address and the low 16 bits of the port. Whatever ice
  answers, the message itself is then sent back. When passing it on throws, the change of the registry stays, and nothing is
  sent back: the connection is dropped. When it is undefined behaviour (ice closed the connection), so is the handler.
\<close>

theorem Loki_registrations:
  assumes "obj_wf q" and "obj_fits q"
    and "(m, sm') \<in> (if GetType q = kBTRegister \<and> field_map q kRegisterPort = Some (VI32 v)
      then {(NewRegister (draw env 0) (GetServiceName q) (this_ip env) (ucast v),
             AtreusSM_Register (GetServiceName q) (ucast v) (at_services st))}
      else if GetType q = kBTDeregister
      then {(NewDeregister (draw env 0) (GetServiceName q) (this_ip env),
             AtreusSM_Deregister (others env) (GetServiceName q) (at_services st))}
      else {})"
  shows "case CallExt (env_net env) (Some m) kIcePort (ice_ip env) of
      Inr _ \<Rightarrow> \<exists>q' w. connected env LokiPolicy st (arriving 0 q) = Inr w \<and> process w = st\<lparr>at_services := sm'\<rparr>
        \<and> obj_wf q' \<and> obj_equiv q' (UpdateHeaderField q)
        \<and> in_flight w = [(0, AsyncWrite (object_image (UpdateHeaderField q')) (40 + body_size q))]
    | Inl e \<Rightarrow>
        if is_exception e then \<exists>w. connected env LokiPolicy st (arriving 0 q) = Inr w
          \<and> process w = st\<lparr>at_services := sm'\<rparr> \<and> in_flight w = []
        else connected env LokiPolicy st (arriving 0 q) = Inl e"
  using assms by (rule Loki_registration_connected)
lemma no_service_equiv: "GetTraceId q' = GetTraceId q \<Longrightarrow> GetServiceName q' = GetServiceName q \<Longrightarrow> no_service g q' = no_service g q"
  by (simp add: no_service_def fun_eq_iff)

text \<open>The same for a request that arrives on a fresh connection.\<close>

lemma Loki_request_connected:
  assumes q: "obj_wf q" "obj_fits q" "GetType q \<notin> {kBTRegister, kBTDeregister}" "GetTraceId q = 0"
      "field_map q kRequestService = Some (VString name)"
    and ice: "CallExt (env_net env) (Some (NewQuery (draw env 0) kLokiServiceName name)) kIcePort (ice_ip env) = Inr (Some a)" "obj_wf a"
  obtains s q' where "bs_send s = new_buffer" "bs_obj s = Some q'" "obj_wf q'" "obj_equiv q' (UpdateHeaderField q)" "obj_fits q'"
    "\<And>ip. field_map a kNoAnswer = None \<Longrightarrow> field_map a kAnswerIp = Some (VString ip) \<Longrightarrow> address_ok env ip \<Longrightarrow>
      connected env LokiPolicy st (arriving 0 q) =
        Inr (pair_world s LokiPolicy (BS_Hold ''loki'' 0 (BladeSession (Some (ip, kKartosPort)))) ''loki'' st [(1, AsyncConnect)])"
    "\<And>dm. field_map a kNoAnswer \<noteq> None \<Longrightarrow> AtreusDM_DoError name (at_data st) = Inr dm \<Longrightarrow> obj_fits (no_service (draw env 1) q name) \<Longrightarrow>
      \<exists>w. connected env LokiPolicy st (arriving 0 q) = Inr w \<and> process w = st\<lparr>at_data := dm\<rparr>
        \<and> in_flight w = [(0, AsyncWrite (object_image (UpdateHeaderField (no_service (draw env 1) q name)))
            (40 + body_size (no_service (draw env 1) q name)))]"
proof -
  obtain s q' where s: "bs_send s = new_buffer" "bs_obj s = Some q'"
    and q': "obj_wf q'" "obj_equiv q' (UpdateHeaderField q)" "field_map q' = field_map q" "GetType q' = GetType q"
      "GetTraceId q' = GetTraceId q" "GetServiceName q' = GetServiceName q" "obj_fits q'"
    and eq: "\<And>es. connected env LokiPolicy st (arriving 0 q @ es) =
        and_then (Atreus_on env OnRecvWholeBladeObject 0 (one_session s LokiPolicy st)) (play (Atreus_on env) es)"
    by (rule connected_arriving [where p = LokiPolicy and env = env and st = st, OF _ q(1,2)]) auto
  have n: "no_service g q' = no_service g q" for g by (rule no_service_equiv [OF q'(5,6)])
  have out: "connected env LokiPolicy st (arriving 0 q) = Loki_OnRecv env 0 (one_session s LokiPolicy st)"
    using eq [of "[]"] by (simp add: on_received)
  note branch = Loki_request_eq [OF s q'(1), of name env a st, OF _ _ _ ice, unfolded q'(3-5) n out [symmetric], OF q(3-5)]
  show thesis
  proof (rule that [OF s q'(1,2,7)])
    show "connected env LokiPolicy st (arriving 0 q) =
        Inr (pair_world s LokiPolicy (BS_Hold ''loki'' 0 (BladeSession (Some (ip, kKartosPort)))) ''loki'' st [(1, AsyncConnect)])"
      if "field_map a kNoAnswer = None" "field_map a kAnswerIp = Some (VString ip)" "address_ok env ip" for ip
      using branch that by simp
    show "\<exists>w. connected env LokiPolicy st (arriving 0 q) = Inr w \<and> process w = st\<lparr>at_data := dm\<rparr>
        \<and> in_flight w = [(0, AsyncWrite (object_image (UpdateHeaderField (no_service (draw env 1) q name)))
            (40 + body_size (no_service (draw env 1) q name)))]"
      if "field_map a kNoAnswer \<noteq> None" "AtreusDM_DoError name (at_data st) = Inr dm" "obj_fits (no_service (draw env 1) q name)" for dm
      using branch that by auto
  qed
qed


text \<open>
  C36. What the two servers drop. Kartos answers neither a message that is no request, nor a request
  without a service name, nor a request for a service it does not have (which it counts as a query); Loki does not answer a message with a
  trace id that is neither a registration nor a withdrawal, because its request branch compares the trace id, not the type,
  with \<^verbatim>\<open>kBTRequest\<close>. In all these cases nothing is left in flight, so the connection is closed without an answer.
\<close>

theorem Atreus_drops:
  assumes "obj_wf q" and "obj_fits q" and "others env = []" and "address_ok env (this_ip env)"
  shows "(GetType q \<noteq> kBTRequest \<or> (\<forall>name. field_map q kRequestService \<noteq> Some (VString name)) \<longrightarrow>
      (\<exists>w. connected env KartosPolicy st (arriving 0 q) = Inr w \<and> in_flight w = [] \<and> process w = st))
    \<and> (GetType q = kBTRequest \<and> field_map q kRequestService = Some (VString name) \<and> map_of (at_services st) name = None
        \<and> and_then (AtreusDM_DoQuery name (at_data st)) (AtreusDM_DoBytes name (int (body_size q))) = Inr dm \<longrightarrow>
      (\<exists>w. connected env KartosPolicy st (arriving 0 q) = Inr w \<and> in_flight w = [] \<and> process w = st\<lparr>at_data := dm\<rparr>))
    \<and> (GetType q \<notin> {kBTRegister, kBTDeregister} \<and> GetTraceId q \<noteq> 0 \<longrightarrow>
      (\<exists>w. connected env LokiPolicy st (arriving 0 q) = Inr w \<and> in_flight w = [] \<and> process w = st))"
proof -
  have n: "body_size q < 2 ^ 31" using assms(2) by (simp add: obj_fits_def)
  obtain s q' where s: "bs_obj s = Some q'"
    and q': "obj_wf q'" "field_map q' = field_map q" "GetType q' = GetType q" "uint (GetPayloadLength q') = int (body_size q)"
    and eq: "\<And>es. connected env KartosPolicy st (arriving 0 q @ es) =
        and_then (Atreus_on env OnRecvWholeBladeObject 0 (one_session s KartosPolicy st)) (play (Atreus_on env) es)"
    by (rule connected_arriving [where p = KartosPolicy and env = env and st = st, OF _ assms(1,2)]) auto
  obtain s1 q1 where s1: "bs_obj s1 = Some q1" and q1: "GetType q1 = GetType q" "GetTraceId q1 = GetTraceId q"
    and eq1: "\<And>es. connected env LokiPolicy st (arriving 0 q @ es) =
        and_then (Atreus_on env OnRecvWholeBladeObject 0 (one_session s1 LokiPolicy st)) (play (Atreus_on env) es)"
    by (rule connected_arriving [where p = LokiPolicy and env = env and st = st, OF _ assms(1,2)]) auto
  have K: "connected env KartosPolicy st (arriving 0 q) = Kartos_OnRecv env 0 (one_session s KartosPolicy st)"
    and L: "connected env LokiPolicy st (arriving 0 q) = Loki_OnRecv env 0 (one_session s1 LokiPolicy st)"
    using eq [of "[]"] eq1 [of "[]"] by (simp_all add: on_received)
  show ?thesis
    using Kartos_ignores [OF s q'(1), of env st] Kartos_request [OF s q'(1), of name st dm env]
      Loki_ignores [OF s1, of env st] assms(3,4) n
    by (simp add: K L q'(2-4) q1)
qed

lemma serve_not_decoded:
  assumes "on OnStart 0 (one_session (BladeSession None) p st) = ExecRead 0 (one_session (BladeSession None) p st)"
    and "length body = unat (payload_length h)" "length body < 2 ^ 31"
    and "\<And>s. bs_obj s = None \<Longrightarrow> on OnRecvWholeBladeObject 0 (one_session s p st) = Inl NullDeref"
  shows "DecodeWithHeader h body 0 (int (length body)) = Inl e \<Longrightarrow> serve on p (header_bytes h @ body @ rest) st = Inl e"
    and "DecodeWithHeader h body 0 (int (length body)) = Inr None \<Longrightarrow> serve on p (header_bytes h @ body @ rest) st = Inl NullDeref"
  by (rule serve_eq [where on = on and p = p and st = st and rest = rest, OF assms(1-3)]; use assms(4) in simp)+

text \<open>
  C31. One message ends a server. When the body of a message does not decode, the exception (or the
  null dereference) leaves the event loop, whatever the policy: every service, ice and chaos included, kartos and
  loki. Forty bytes are enough: a header that announces an empty body.
\<close>

theorem malformed_message_ends_process:
  assumes "length body = unat (payload_length h)" and "length body < 2 ^ 31"
  shows "(\<forall>e. DecodeWithHeader h body 0 (int (length body)) = Inl e \<longrightarrow>
        serve (service_dispatch g) pol (header_bytes h @ body @ rest) st = Inl e
      \<and> serve (Atreus_on env) KartosPolicy (header_bytes h @ body @ rest) st' = Inl e
      \<and> serve (Atreus_on env) LokiPolicy (header_bytes h @ body @ rest) st' = Inl e)
    \<and> (DecodeWithHeader h body 0 (int (length body)) = Inr None \<longrightarrow>
        serve (service_dispatch g) pol (header_bytes h @ body @ rest) st = Inl NullDeref
      \<and> serve (Atreus_on env) KartosPolicy (header_bytes h @ body @ rest) st' = Inl NullDeref
      \<and> serve (Atreus_on env) LokiPolicy (header_bytes h @ body @ rest) st' = Inl NullDeref)
    \<and> (body = [] \<longrightarrow> DecodeWithHeader h body 0 (int (length body)) = Inl RemainLengthNotEnoughException)"
proof -
  have S: "service_dispatch g OnRecvWholeBladeObject 0 (one_session s pol st) = Inl NullDeref" if "bs_obj s = None" for s
    using that by (simp add: service_dispatch_def Service_on_def Service_OnRecv_def)
  have A: "Atreus_on env OnRecvWholeBladeObject 0 (one_session s KartosPolicy st') = Inl NullDeref"
    "Atreus_on env OnRecvWholeBladeObject 0 (one_session s LokiPolicy st') = Inl NullDeref" if "bs_obj s = None" for s
    using that by (simp_all add: on_received Kartos_OnRecv_def Loki_OnRecv_def)
  have start: "Atreus_on env OnStart 0 (one_session s KartosPolicy st') = ExecRead 0 (one_session s KartosPolicy st')"
    "Atreus_on env OnStart 0 (one_session s LokiPolicy st') = ExecRead 0 (one_session s LokiPolicy st')" for s
    by simp_all
  note service = serve_not_decoded [where on = "service_dispatch g" and p = pol and st = st and rest = rest, OF service_start_read assms S]
  note kartos = serve_not_decoded [where on = "Atreus_on env" and p = KartosPolicy and st = st' and rest = rest, OF start(1) assms A(1)]
  note loki = serve_not_decoded [where on = "Atreus_on env" and p = LokiPolicy and st = st' and rest = rest, OF start(2) assms A(2)]
  have "DecodeWithHeader h [] 0 0 = Inl RemainLengthNotEnoughException" if "body = []"
    using DecodeWithHeader_outcome [of 0 0 "[]" h] assms that by (auto split: if_splits)
  then show ?thesis by (simp add: service kartos loki)
qed

section \<open>Witnesses\<close>

definition demo_env :: "network \<Rightarrow> atreus_env" where
  "demo_env net = \<lparr>this_ip = ''1'', ice_ip = ''2'', chaos_ip = ''3'', env_net = net, address_ok = (\<lambda>_. True),
     draw = (\<lambda>k. word_of_nat k), others = []\<rparr>"

definition demo_state :: atreus_state where
  "demo_state = \<lparr>at_services = [(''s'', 80)], at_data = new_dm\<rparr>"

lemma small_request: "obj_fits (NewRequest 1 ''c'' ''s'')"
  by (simp add: obj_fits_def sizeof_header_def)

theorem Kartos_forwards_witness:
  "\<exists>w1. connected (demo_env (\<lambda>_ _. Inl SystemError)) KartosPolicy demo_state (arriving 0 (NewRequest 1 ''c'' ''s'')) = Inr w1
    \<and> in_flight w1 = [(1, AsyncConnect)]"
proof -
  have "and_then (AtreusDM_DoQuery ''s'' (at_data demo_state)) (AtreusDM_DoBytes ''s'' (int (body_size (NewRequest 1 ''c'' ''s''))))
    = Inr (new_dm\<lparr>querys := [(''s'', 1)], bytes := [(''s'', 14)]\<rparr>)"
    by (simp add: AtreusDM_DoQuery_def AtreusDM_DoBytes_def demo_state_def new_dm_def count_add_def count_half_def
        int_add_def int_range_def int_half_def count_of_def kv_emplace_def kv_modify_def)
  moreover have "GetType (NewRequest 1 ''c'' ''s'') = kBTRequest"
    "field_map (NewRequest 1 ''c'' ''s'') kRequestService = Some (VString ''s'')"
    "map_of (at_services demo_state) ''s'' = Some 80" "others (demo_env net) = []" "address_ok (demo_env net) (this_ip (demo_env net))" for net
    by (simp_all add: GetType_def demo_state_def demo_env_def)
  ultimately show ?thesis
    using Kartos_forwards [OF constructors_wf(1) small_request _ _ constructors_wf(5) small_keep_alive] by meson
qed

text \<open>A network without ice: connecting is refused.\<close>

definition no_ice :: network where
  "no_ice = (\<lambda>_ _. Inr \<lparr>pr_connect = 1, pr_write = 0, pr_read = 2, pr_reply = (\<lambda>_. [])\<rparr>)"

lemma CallExt_no_ice: "CallExt no_ice (Some m) prt ip = Inr (Some m)"
  by (simp add: CallExt_def no_ice_def Start_def SetObject_def GetObject_def deref_clone_def Clone_def)

theorem Loki_registrations_witness:
  "\<exists>w. connected (demo_env no_ice) LokiPolicy demo_state (arriving 0 (NewRegister 1 ''t'' '''' 81)) = Inr w
    \<and> map_of (at_services (process w)) ''t'' = Some 81"
proof -
  let ?q = "NewRegister 1 ''t'' '''' 81" and ?e = "demo_env no_ice"
  have fits: "obj_fits ?q" by (simp add: obj_fits_def sizeof_header_def)
  have "GetType ?q = kBTRegister" "GetServiceName ?q = ''t''" by (simp_all add: accessor_defs)
  moreover have "field_map ?q kRegisterPort = Some (VI32 81)" by (simp add: protocol_names)
  ultimately obtain w where w: "connected ?e LokiPolicy demo_state (arriving 0 ?q) = Inr w"
    "process w = demo_state\<lparr>at_services := AtreusSM_Register ''t'' 81 (at_services demo_state)\<rparr>"
    using Loki_registrations [OF constructors_wf(3) fits, of "NewRegister 0 ''t'' ''1'' 81" _ 81 ?e demo_state]
    by (auto simp: demo_env_def CallExt_no_ice)
  then show ?thesis by (intro exI [of _ w]) (simp add: demo_state_def AtreusSM_Register_def map_of_emplace)
qed

lemma no_service_size [simp]: "body_size (no_service g q callee) = 42 + length callee + length (GetServiceName q)"
  by (simp add: no_service_def body_size_def message_defs new_object_def accessor_defs members_def typed_fields_defs
      AddString_def AddByte_def Contains_def kv_emplace_def field_space_def protocol_names)

text \<open>An ice that never knows an answer.\<close>

definition empty_ice :: network where
  "empty_ice = (\<lambda>_ _. Inr \<lparr>pr_connect = 0, pr_write = 0, pr_read = 2,
     pr_reply = (\<lambda>_. object_image (UpdateHeaderField (NewAnswer_none 9 ''#ICE'')))\<rparr>)"

lemma CallExt_empty_ice:
  assumes "obj_fits m"
  obtains a where "CallExt empty_ice (Some m) prt ip = Inr (Some a)" "obj_wf a" "field_map a = [kNoAnswer \<mapsto> VByte 0]"
proof -
  let ?p = "\<lparr>pr_connect = 0, pr_write = 0, pr_read = 2,
     pr_reply = (\<lambda>_. object_image (UpdateHeaderField (NewAnswer_none 9 ''#ICE'')))\<rparr>" and ?a = "NewAnswer_none 9 ''#ICE''"
  have fits: "obj_fits ?a" by (simp add: obj_fits_def sizeof_header_def)
  obtain a where a: "exchange ?p m = Inr (Some a, 0)" "obj_wf a" "obj_equiv a (UpdateHeaderField ?a)"
    using exchange_answered [of ?p ?a m "[]"] fits by auto
  have "field_map a = field_map ?a" using obj_equiv_fields [OF _ a(3)] fits by simp
  moreover have "CallExt empty_ice (Some m) prt ip = Inr (Some a)"
    using calls_exchange(1) [of m ?p empty_ice ip prt, OF assms] a(1) by (simp add: empty_ice_def deref_clone_def Clone_def)
  ultimately show thesis using a(2) that by simp
qed


theorem Atreus_drops_witness:
  "(\<exists>w. connected (demo_env no_ice) KartosPolicy demo_state (arriving 0 (NewKeepAlive 1 ''s'')) = Inr w \<and> in_flight w = [])"
  using Atreus_drops [OF constructors_wf(5) small_keep_alive, of "demo_env no_ice" demo_state]
  by (simp add: GetType_def blade_type_defs demo_env_def) blast

theorem malformed_message_ends_process_witness:
  "serve (service_dispatch 7) (ServiceSessionPolicy 80) (header_bytes default_header) () = Inl RemainLengthNotEnoughException
    \<and> serve (Atreus_on (demo_env no_ice)) LokiPolicy (header_bytes default_header) demo_state = Inl RemainLengthNotEnoughException"
  using malformed_message_ends_process [of "[]" default_header 7 "ServiceSessionPolicy 80" "[]" "()" "demo_env no_ice" demo_state]
  by (simp add: default_header_def)

end
