(* ===== verification/Atreus_Watchdog.thy ===== *)
theory Atreus_Watchdog
  imports Atreus_Policy Transition_Systems
begin

text \<open>
  atreus/core/watchdog: the two periodic tasks of an atreus process, \<^verbatim>\<open>Check\<close> (probe every local service
  with a keep-alive and withdraw those that do not answer) and \<^verbatim>\<open>Report\<close> (send the four counters to
  chaos), and the timers of \<^verbatim>\<open>BladeServer::ScheduledTask\<close> that run them, on a clock that can be set.
\<close>

section \<open>Check\<close>

text \<open>
  The callback of the iteration, which runs under the registry's write lock; the state it threads is the number of
  identifiers drawn and the list \<^verbatim>\<open>need_deregister\<close>.
\<close>

definition check_callback ::
  "atreus_env \<Rightarrow> nat \<times> (string \<times> port) list \<Rightarrow> string \<Rightarrow> port \<Rightarrow> (nat \<times> (string \<times> port) list) result" where
  "check_callback env acc name prt =
     (case acc of (k, need_deregister) \<Rightarrow>
        let message = NewKeepAlive (draw env k) kKartosServiceName in
        and_then (CallExtNotSure (env_net env) (Some message) prt (this_ip env)) (\<lambda>result.
        Inr (Suc k, if result = None then need_deregister @ [(name, prt)] else need_deregister)))"

fun deregister_dead :: "atreus_env \<Rightarrow> nat \<Rightarrow> (string \<times> port) list \<Rightarrow> atreus_state \<Rightarrow> atreus_state result" where
  "deregister_dead env k [] st = Inr st"
| "deregister_dead env k (i # need_deregister) st =
     (let st = st\<lparr>at_services := AtreusSM_Deregister_UNSAFE (fst i) (at_services st)\<rparr>;
          sd_message = NewDeregister (draw env k) (fst i) (this_ip env)
      in and_then (CallExt (env_net env) (Some sd_message) kIcePort (ice_ip env)) (\<lambda>_.
         and_then (AtreusDM_DoShutdown (fst i) (at_data st)) (\<lambda>dm.
         deregister_dead env (Suc k) need_deregister (st\<lparr>at_data := dm\<rparr>))))"

definition Watchdog_Check :: "atreus_env \<Rightarrow> atreus_state \<Rightarrow> atreus_state result" where
  "Watchdog_Check env st =
     and_then (AtreusSM_Iterate_UNSAFE (check_callback env) (at_services st) (0, [])) (\<lambda>(k, need_deregister).
     deregister_dead env k need_deregister st)"

section \<open>Report\<close>

definition Watchdog_Report :: "atreus_env \<Rightarrow> atreus_state \<Rightarrow> atreus_state result" where
  "Watchdog_Report env st =
     (let (rep, dm) = AtreusDM_QueryReport (draw env 0) (at_data st) in
      and_then (CallExt (env_net env) (Some rep) kChaosPort (chaos_ip env)) (\<lambda>_.
      let (rep, dm) = AtreusDM_ErrorReport (draw env 1) dm in
      and_then (CallExt (env_net env) (Some rep) kChaosPort (chaos_ip env)) (\<lambda>_.
      let (rep, dm) = AtreusDM_ShutdownReport (draw env 2) dm in
      and_then (CallExt (env_net env) (Some rep) kChaosPort (chaos_ip env)) (\<lambda>_.
      let (rep, dm) = AtreusDM_BytesReport (draw env 3) dm in
      and_then (CallExt (env_net env) (Some rep) kChaosPort (chaos_ip env)) (\<lambda>_.
      Inr (st\<lparr>at_data := dm\<rparr>))))))"

section \<open>Timers\<close>

text \<open>
  \<^verbatim>\<open>ScheduledTask\<close>: a timer that expires \<open>duration\<close> seconds from now; its handler runs the task and schedules
  it again, from the time the task returned. A task gets the timer's error code.
\<close>

record 's timer =
  expires :: int
  duration :: int
  task :: "error_code \<Rightarrow> 's \<Rightarrow> 's result"

definition ScheduledTask :: "int \<Rightarrow> int \<Rightarrow> (error_code \<Rightarrow> 's \<Rightarrow> 's result) \<Rightarrow> 's timer" where
  "ScheduledTask now d f = \<lparr>expires = now + d, duration = d, task = f\<rparr>"

definition timer_handler :: "int \<Rightarrow> error_code \<Rightarrow> 's timer \<Rightarrow> 's \<Rightarrow> ('s timer \<times> 's) result" where
  "timer_handler returned ec t s =
     and_then (task t ec s) (\<lambda>s. Inr (ScheduledTask returned (duration t) (task t), s))"

definition Watchdog_Start :: "int \<Rightarrow> atreus_env \<Rightarrow> int \<Rightarrow> int \<Rightarrow> atreus_state timer list" where
  "Watchdog_Start now env keep_alive_duration report_duration =
     [ScheduledTask now keep_alive_duration (\<lambda>ec. Watchdog_Check env),
      ScheduledTask now report_duration (\<lambda>ec. Watchdog_Report env)]"

text \<open>
  The event loop: one thread, so a timer that is due is run when the clock shows \<open>t\<close>, its task takes \<open>took\<close> seconds,
  and the clock then shows \<open>t'\<close>. The clock of a \<^verbatim>\<open>system_timer\<close> is that of the host, which can be
  set, while a task runs or between the tasks: \<open>t'\<close> may be anything.
\<close>

record timer_loop =
  clock :: int
  timers :: "atreus_state timer list"
  state :: atreus_state
  runs :: "nat \<Rightarrow> nat" \<comment> \<open>ghost: how often each timer has run\<close>
  elapsed :: int \<comment> \<open>ghost: the time that has passed\<close>
  ahead :: int \<comment> \<open>ghost: how far the clock has been set ahead, in all\<close>
  set_back :: int \<comment> \<open>ghost: how far it has been set back, in all\<close>

definition clock_at :: "int \<Rightarrow> int \<Rightarrow> int \<Rightarrow> timer_loop \<Rightarrow> timer_loop" where
  "clock_at t took t' l = l\<lparr>clock := t', elapsed := elapsed l + (t - clock l) + took,
     ahead := ahead l + max 0 (t' - (t + took)), set_back := set_back l + max 0 (t + took - t')\<rparr>"

inductive timer_step :: "timer_loop \<Rightarrow> timer_loop \<Rightarrow> bool" where
  fire: "i < length (timers l) \<Longrightarrow> clock l \<le> t \<Longrightarrow> expires (timers l ! i) \<le> t \<Longrightarrow> 0 \<le> took \<Longrightarrow>
    timer_handler t' ec (timers l ! i) (state l) = Inr (tm, st) \<Longrightarrow>
    timer_step l ((clock_at t took t' l)\<lparr>timers := (timers l)[i := tm], state := st, runs := (runs l)(i := Suc (runs l i))\<rparr>)"
| adjust: "clock l \<le> t \<Longrightarrow> timer_step l (clock_at t 0 t' l)"

inductive_cases timer_stepE: "timer_step l l'"

section \<open>The rate of the periodic tasks\<close>

text \<open>
  Since the start at \<open>now\<close>, each timer ran at most once per period, of the time that has passed and that
  the clock has skipped; this also counts the period that it now waits for.
\<close>

definition rate_init :: "int \<Rightarrow> 's timer list \<Rightarrow> nat \<Rightarrow> bool" where
  "rate_init now ts i \<longleftrightarrow> i < length ts \<and> expires (ts ! i) = now + duration (ts ! i)"

definition loop_init :: "int \<Rightarrow> atreus_state timer list \<Rightarrow> timer_loop \<Rightarrow> bool" where
  "loop_init now ts l \<longleftrightarrow> clock l = now \<and> timers l = ts \<and> runs l = (\<lambda>_. 0) \<and> elapsed l = 0 \<and> ahead l = 0 \<and> set_back l = 0
     \<and> (\<forall>i < length ts. rate_init now ts i)"

definition rate_inv :: "int \<Rightarrow> atreus_state timer list \<Rightarrow> timer_loop \<Rightarrow> bool" where
  "rate_inv now ts l \<longleftrightarrow> map duration (timers l) = map duration ts \<and> clock l = now + elapsed l + ahead l - set_back l
     \<and> (\<forall>i < length ts. duration (ts ! i) * int (runs l i) \<le> elapsed l + ahead l
        \<and> duration (ts ! i) * int (Suc (runs l i)) \<le> elapsed l + ahead l + (expires (timers l ! i) - clock l))"

lemma clock_at_simps [simp]:
  "clock (clock_at t took t' l) = t'" "timers (clock_at t took t' l) = timers l" "runs (clock_at t took t' l) = runs l"
  "elapsed (clock_at t took t' l) = elapsed l + (t - clock l) + took"
  "ahead (clock_at t took t' l) = ahead l + max 0 (t' - (t + took))"
  "set_back (clock_at t took t' l) = set_back l + max 0 (t + took - t')"
  by (simp_all add: clock_at_def)

lemma handler_timer: "timer_handler t' ec tm s = Inr (tm', s') \<Longrightarrow> expires tm' = t' + duration tm \<and> duration tm' = duration tm"
  by (auto simp: timer_handler_def ScheduledTask_def and_then_Inr_iff)

lemma rate_start: "loop_init now ts l \<Longrightarrow> rate_inv now ts l"
  by (auto simp: loop_init_def rate_init_def rate_inv_def)

lemma rate_clock:
  assumes "rate_inv now ts l" and "clock l \<le> t" and "0 \<le> took"
  shows "rate_inv now ts (clock_at t took t' l)"
proof -
  have "duration (ts ! i) * int (runs l i) \<le> elapsed l + (t - clock l) + took + (ahead l + max 0 (t' - (t + took)))
      \<and> duration (ts ! i) * int (Suc (runs l i))
        \<le> elapsed l + (t - clock l) + took + (ahead l + max 0 (t' - (t + took))) + (expires (timers l ! i) - t')"
    if "i < length ts" for i
  proof -
    have "duration (ts ! i) * int (runs l i) \<le> elapsed l + ahead l"
      "duration (ts ! i) * int (Suc (runs l i)) \<le> elapsed l + ahead l + (expires (timers l ! i) - clock l)"
      using assms(1) that unfolding rate_inv_def by blast+
    with assms(2,3) show ?thesis by linarith
  qed
  moreover have "t' = now + (elapsed l + (t - clock l) + took) + (ahead l + max 0 (t' - (t + took))) - (set_back l + max 0 (t + took - t'))"
    using assms(1) by (auto simp: rate_inv_def max_def)
  ultimately show ?thesis using assms(1) by (simp add: rate_inv_def)
qed

lemma rate_fire:
  assumes "rate_inv now ts l" and "i < length (timers l)" and "clock l \<le> t" and "expires (timers l ! i) \<le> t" and "0 \<le> took"
    and "timer_handler t' ec (timers l ! i) (state l) = Inr (tm, st)"
  shows "rate_inv now ts ((clock_at t took t' l)\<lparr>timers := (timers l)[i := tm], state := st, runs := (runs l)(i := Suc (runs l i))\<rparr>)"
proof -
  let ?c = "clock_at t took t' l"
  have at: "rate_inv now ts ?c" by (rule rate_clock [OF assms(1,3,5)])
  have d: "map duration (timers l) = map duration ts" using assms(1) by (simp add: rate_inv_def)
  then have len: "length (timers l) = length ts" by (metis length_map)
  have di: "duration (timers l ! i) = duration (ts ! i)" using d assms(2) len by (metis nth_map)
  note tm = handler_timer [OF assms(6)]
  have "map duration ((timers l)[i := tm]) = map duration ts"
    using d tm assms(2) by (metis length_map list_update_id map_update nth_map)
  moreover have "duration (ts ! i) * int (Suc (runs l i)) \<le> elapsed ?c + ahead ?c"
  proof -
    have "duration (ts ! i) * int (Suc (runs l i)) \<le> elapsed l + ahead l + (expires (timers l ! i) - clock l)"
      using assms(1,2) len unfolding rate_inv_def by metis
    then show ?thesis using assms(3-5) unfolding clock_at_simps by linarith
  qed
  moreover have "expires tm - t' = duration (ts ! i)" using tm di by simp
  moreover have "duration (ts ! i) * int (Suc (Suc (runs l i))) = duration (ts ! i) * int (Suc (runs l i)) + duration (ts ! i)"
    by (simp add: algebra_simps)
  ultimately show ?thesis using at assms(2) len
    by (auto simp: rate_inv_def nth_list_update simp del: of_nat_Suc)
qed

lemma rate_step: "rate_inv now ts l \<Longrightarrow> timer_step l l' \<Longrightarrow> rate_inv now ts l'"
  by (erule timer_stepE) (auto intro: rate_fire rate_clock)

interpretation timers: invariant_system "loop_init now ts" timer_step "rate_inv now ts" for now ts
  by unfold_locales (erule rate_start, erule (1) rate_step)

text \<open>
  C40. The periodic tasks of the watchdog never run more often than configured: whatever the delays
  of the event loop, the tasks and their duration, at every moment the number of checks times the
  keep-alive duration is at most the time since the start, and so for the reports. The clock is the host's, which can be
  set: how far it was set ahead counts as time that has passed. How far it was set back does not count.
\<close>

theorem Watchdog_rate:
  assumes "reach (loop_init now (Watchdog_Start now env kad rpd)) timer_step l"
  shows "kad * int (runs l 0) \<le> elapsed l + ahead l \<and> rpd * int (runs l 1) \<le> elapsed l + ahead l
    \<and> clock l - now = elapsed l + ahead l - set_back l"
proof -
  have "rate_inv now (Watchdog_Start now env kad rpd) l" using timers.inv_reach [OF assms] .
  then show ?thesis by (auto simp: rate_inv_def Watchdog_Start_def ScheduledTask_def less_Suc_eq)
qed

text \<open>A host without services, whose check returns at once.\<close>

definition idle_loop :: "int \<Rightarrow> atreus_env \<Rightarrow> int \<Rightarrow> int \<Rightarrow> atreus_state \<Rightarrow> int \<Rightarrow> nat \<Rightarrow> timer_loop" where
  "idle_loop now env kad rpd st t n = \<lparr>clock = t,
     timers = [ScheduledTask t kad (\<lambda>ec. Watchdog_Check env), ScheduledTask now rpd (\<lambda>ec. Watchdog_Report env)],
     state = st, runs = (\<lambda>_. 0)(0 := n), elapsed = t - now, ahead = 0, set_back = 0\<rparr>"

lemma idle_loop_init: "loop_init now (Watchdog_Start now env kad rpd) (idle_loop now env kad rpd st now 0)"
  by (auto simp: idle_loop_def loop_init_def rate_init_def Watchdog_Start_def ScheduledTask_def less_Suc_eq)

lemma idle_loop_fires:
  assumes "at_services st = []" and "t \<le> t'" and "t + kad \<le> t'"
  shows "timer_step (idle_loop now env kad rpd st t n) (idle_loop now env kad rpd st t' (Suc n))"
proof -
  have "Watchdog_Check env st = Inr st"
    using assms(1) by (cases st) (simp add: Watchdog_Check_def AtreusSM_Iterate_UNSAFE_def)
  then have "timer_handler t' 0 (ScheduledTask t kad (\<lambda>ec. Watchdog_Check env)) st
      = Inr (ScheduledTask t' kad (\<lambda>ec. Watchdog_Check env), st)"
    by (simp add: timer_handler_def ScheduledTask_def)
  then show ?thesis using timer_step.fire [of 0 "idle_loop now env kad rpd st t n" t' 0 t' 0] assms(2,3)
    by (simp add: idle_loop_def ScheduledTask_def clock_at_def)
qed

text \<open>Two checks of such a host with ten seconds between them, at the earliest moments; then the clock is set back.\<close>

theorem Watchdog_rate_witness:
  "10 * int (runs (clock_at 20 0 5 (idle_loop 0 (demo_env no_ice) 10 30 (demo_state\<lparr>at_services := []\<rparr>) 20 2)) 0) \<le> (20 :: int)"
proof -
  let ?l = "idle_loop 0 (demo_env no_ice) 10 30 (demo_state\<lparr>at_services := []\<rparr>)"
  have "timer_step (?l 0 0) (?l 10 1)" "timer_step (?l 10 1) (?l 20 2)"
    using idle_loop_fires [of "demo_state\<lparr>at_services := []\<rparr>" 0 10 10 0]
      idle_loop_fires [of "demo_state\<lparr>at_services := []\<rparr>" 10 20 10 0 "demo_env no_ice" 30 1]
    by (simp_all add: numeral_2_eq_2)
  moreover have "timer_step (?l 20 2) (clock_at 20 0 5 (?l 20 2))"
    by (rule timer_step.adjust) (simp add: idle_loop_def)
  ultimately have "reach (loop_init 0 (Watchdog_Start 0 (demo_env no_ice) 10 30)) timer_step (clock_at 20 0 5 (?l 20 2))"
    by (meson reach_step reach_init [where init = "loop_init now ts" for now ts, OF idle_loop_init])
  from Watchdog_rate [OF this] show ?thesis by (simp add: idle_loop_def)
qed

text \<open>
  Nothing checks the sign of the period that the configuration gives. With one that is not positive the watchdog
  can check any number of times while no time passes.
\<close>

lemma nonpositive_period_spins:
  assumes "at_services st = []" and "kad \<le> 0"
  shows "reach (loop_init now (Watchdog_Start now env kad rpd)) timer_step (idle_loop now env kad rpd st now n)"
proof (induction n)
  case (Suc n)
  then show ?case by (rule reach_step) (use idle_loop_fires [OF assms(1), of now now kad] assms(2) in simp)
qed (rule reach_init [where init = "loop_init now ts" for ts, OF idle_loop_init])

section \<open>What a check removes\<close>

text \<open>The keep-alive exchange with the service on a port, for the \<open>k\<close>th identifier drawn.\<close>

definition answers :: "atreus_env \<Rightarrow> nat \<Rightarrow> port \<Rightarrow> blade_object option result" where
  "answers env k prt = CallExtNotSure (env_net env) (Some (NewKeepAlive (draw env k) kKartosServiceName)) prt (this_ip env)"

lemma check_iterate:
  assumes "\<forall>(n, p) \<in> set ps. \<forall>k. \<exists>r. answers env k p = Inr r \<and> (r \<noteq> None \<longleftrightarrow> alive p)"
  shows "AtreusSM_Iterate_UNSAFE (check_callback env) ps (k, need)
    = Inr (k + length ps, need @ filter (\<lambda>(n, p). \<not> alive p) ps)"
  using assms
proof (induction ps arbitrary: k need)
  case Nil
  then show ?case by (simp add: AtreusSM_Iterate_UNSAFE_def)
next
  case (Cons e ps)
  obtain n p where e: "e = (n, p)" by (cases e)
  with Cons.prems obtain r where r: "answers env k p = Inr r" "r \<noteq> None \<longleftrightarrow> alive p" by fastforce
  have "AtreusSM_Iterate_UNSAFE (check_callback env) (e # ps) (k, need)
      = AtreusSM_Iterate_UNSAFE (check_callback env) ps (Suc k, if alive p then need else need @ [(n, p)])"
    using r by (auto simp: AtreusSM_Iterate_UNSAFE_def e check_callback_def Let_def answers_def)
  also have "\<dots> = Inr (k + length (e # ps), need @ filter (\<lambda>(n, p). \<not> alive p) (e # ps))"
    using Cons.prems by (subst Cons.IH) (auto simp: e)
  finally show ?case .
qed

lemma Deregister_UNSAFE_map: "map_of (AtreusSM_Deregister_UNSAFE n s) = (map_of s)(n := None)"
  by (auto simp: AtreusSM_Deregister_UNSAFE_def AtreusSM_Contains_UNSAFE_def kv_erase_def delete_conv' fun_eq_iff)

lemma Deregister_UNSAFE_wf: "kv_wf s \<Longrightarrow> kv_wf (AtreusSM_Deregister_UNSAFE n s)"
  by (auto simp: AtreusSM_Deregister_UNSAFE_def)

lemma deregister_dead_ok:
  assumes "distinct (map fst need)" and "kv_wf (at_services st)" and "dm_ok (at_data st)"
    and "\<forall>n \<in> fst ` set need. \<forall>k. \<exists>r. CallExt (env_net env) (Some (NewDeregister (draw env k) n (this_ip env))) kIcePort (ice_ip env) = Inr r"
    and "\<forall>n \<in> fst ` set need. count_of (shutdowns (at_data st)) n < 2 ^ 31 - 1"
  shows "\<exists>st' m. deregister_dead env k need st = Inr st' \<and> kv_wf (at_services st')
    \<and> map_of (at_services st') = (map_of (at_services st)) |` (- fst ` set need)
    \<and> at_data st' = (at_data st)\<lparr>shutdowns := m\<rparr> \<and> dm_ok (at_data st')
    \<and> count_of m = (\<lambda>n. count_of (shutdowns (at_data st)) n + (if n \<in> fst ` set need then 1 else 0))"
  using assms
proof (induction need arbitrary: st k)
  case Nil
  then show ?case by (intro exI [of _ st] exI [of _ "shutdowns (at_data st)"]) simp
next
  case (Cons e need)
  obtain n p where e: "e = (n, p)" by (cases e)
  let ?dm = "at_data st" and ?sm = "AtreusSM_Deregister_UNSAFE n (at_services st)"
  have ok: "counts_ok (shutdowns ?dm)" using Cons.prems(3) by (simp add: dm_ok_def)
  then have "- (2 ^ 31) \<le> count_of (shutdowns ?dm) n" by (simp add: counts_ok_def int_range_def)
  then have "int_range (count_of (shutdowns ?dm) n + 1)"
    using Cons.prems(5) e by (simp add: int_range_def)
  with counts.bump_ok [OF ok] obtain m1 where m1: "count_add n 1 (shutdowns ?dm) = Inr m1" "counts_ok m1"
    "count_of m1 = (count_of (shutdowns ?dm))(n := count_of (shutdowns ?dm) n + 1)" by blast
  obtain r where r: "CallExt (env_net env) (Some (NewDeregister (draw env k) n (this_ip env))) kIcePort (ice_ip env) = Inr r"
    using Cons.prems(4) e by fastforce
  let ?st = "st\<lparr>at_services := ?sm, at_data := ?dm\<lparr>shutdowns := m1\<rparr>\<rparr>"
  have n: "n \<notin> fst ` set need" using Cons.prems(1) e by simp
  have "dm_ok (at_data ?st)" using Cons.prems(3) m1(2) by (simp add: dm_ok_def)
  moreover have "kv_wf (at_services ?st)" using Cons.prems(2) Deregister_UNSAFE_wf by simp
  moreover have "\<forall>i \<in> fst ` set need. count_of (shutdowns (at_data ?st)) i < 2 ^ 31 - 1"
    using Cons.prems(5) n by (auto simp: m1(3))
  ultimately obtain st' m where st': "deregister_dead env (Suc k) need ?st = Inr st'" "kv_wf (at_services st')"
    "map_of (at_services st') = (map_of ?sm) |` (- fst ` set need)" "at_data st' = ?dm\<lparr>shutdowns := m\<rparr>" "dm_ok (at_data st')"
    "count_of m = (\<lambda>i. count_of m1 i + (if i \<in> fst ` set need then 1 else 0))"
    using Cons.IH [of ?st "Suc k"] Cons.prems(1,4) by auto
  have "deregister_dead env k (e # need) st = Inr st'"
    using r m1(1) st'(1) by (simp add: e AtreusDM_DoShutdown_def)
  moreover have "map_of (at_services st') = (map_of (at_services st)) |` (- fst ` set (e # need))"
    unfolding st'(3) Deregister_UNSAFE_map by (rule ext) (simp add: restrict_map_def e)
  moreover have "count_of m = (\<lambda>i. count_of (shutdowns ?dm) i + (if i \<in> fst ` set (e # need) then 1 else 0))"
    using n by (auto simp: st'(6) m1(3) e fun_eq_iff)
  ultimately show ?case using st'(2,4,5) by blast
qed

text \<open>
  C28. A check. When every service either answers the keep-alive or fails to (no exchange ends in
  undefined behaviour), and passing the withdrawals on to ice does not fault, \<^verbatim>\<open>Check\<close> removes from
  the registry exactly the services that did not answer, counts one shutdown for each of them, and
  changes nothing else.
\<close>

theorem Watchdog_Check_exact:
  assumes "kv_wf (at_services st)" and "dm_ok (at_data st)"
    and "\<forall>n p k. map_of (at_services st) n = Some p \<longrightarrow> (\<exists>r. answers env k p = Inr r \<and> (r \<noteq> None \<longleftrightarrow> alive p))"
    and "\<forall>n k. \<exists>r. CallExt (env_net env) (Some (NewDeregister (draw env k) n (this_ip env))) kIcePort (ice_ip env) = Inr r"
    and "\<forall>n. count_of (shutdowns (at_data st)) n < 2 ^ 31 - 1"
  shows "\<exists>st' m. Watchdog_Check env st = Inr st' \<and> kv_wf (at_services st') \<and> at_data st' = (at_data st)\<lparr>shutdowns := m\<rparr>
    \<and> map_of (at_services st') = (\<lambda>n. case map_of (at_services st) n of None \<Rightarrow> None | Some p \<Rightarrow> if alive p then Some p else None)
    \<and> count_of m = (\<lambda>n. count_of (shutdowns (at_data st)) n
        + (case map_of (at_services st) n of None \<Rightarrow> 0 | Some p \<Rightarrow> if alive p then 0 else 1))"
proof -
  let ?ps = "at_services st" and ?dead = "filter (\<lambda>(n, p). \<not> alive p) (at_services st)"
  have mem: "(n, p) \<in> set ?ps \<longleftrightarrow> map_of ?ps n = Some p" for n p
    using assms(1) by (auto simp: kv_wf_def)
  have "\<forall>(n, p) \<in> set ?ps. \<forall>k. \<exists>r. answers env k p = Inr r \<and> (r \<noteq> None \<longleftrightarrow> alive p)"
    using assms(3) mem by blast
  from check_iterate [OF this, of 0 "[]"]
  have check: "Watchdog_Check env st = deregister_dead env (length ?ps) ?dead st" by (simp add: Watchdog_Check_def)
  have "distinct (map fst ?dead)" using assms(1) by (simp add: kv_wf_def distinct_map_filter)
  from deregister_dead_ok [OF this assms(1,2), of env "length ?ps"] assms(4,5)
  obtain st' m where st': "Watchdog_Check env st = Inr st'" "kv_wf (at_services st')"
    "map_of (at_services st') = (map_of ?ps) |` (- fst ` set ?dead)" "at_data st' = (at_data st)\<lparr>shutdowns := m\<rparr>"
    "count_of m = (\<lambda>n. count_of (shutdowns (at_data st)) n + (if n \<in> fst ` set ?dead then 1 else 0))"
    unfolding check by blast
  have dead: "n \<in> fst ` set ?dead \<longleftrightarrow> (\<exists>p. map_of ?ps n = Some p \<and> \<not> alive p)" for n
    by (force simp: mem)
  have "map_of (at_services st') = (\<lambda>n. case map_of ?ps n of None \<Rightarrow> None | Some p \<Rightarrow> if alive p then Some p else None)"
    unfolding st'(3) by (rule ext) (auto simp: restrict_map_def dead simp del: set_filter split: option.split)
  moreover have "count_of m = (\<lambda>n. count_of (shutdowns (at_data st)) n
        + (case map_of ?ps n of None \<Rightarrow> 0 | Some p \<Rightarrow> if alive p then 0 else 1))"
    unfolding st'(5) by (rule ext) (auto simp: dead simp del: set_filter split: option.split)
  ultimately show ?thesis using st' by blast
qed

text \<open>Port 80 answers by sending back what it receives; everything else refuses the connection.\<close>

definition one_alive :: network where
  "one_alive ip prt = (if prt = 80 then Inr echo_peer else no_ice ip prt)"

lemma CallExt_refused: "prt \<noteq> 80 \<Longrightarrow> CallExt one_alive (Some m) prt ip = Inr (Some m)"
  "prt \<noteq> 80 \<Longrightarrow> CallExtNotSure one_alive (Some m) prt ip = Inr None"
  by (simp_all add: one_alive_def CallExt_def CallExtNotSure_def no_ice_def Start_def SetObject_def GetObject_def deref_clone_def Clone_def)

lemma CallExt_echo:
  assumes "obj_wf m" and "obj_fits m"
  obtains r where "CallExtNotSure one_alive (Some m) 80 ip = Inr (Some r)"
proof -
  have "pr_reply echo_peer (object_image (UpdateHeaderField m)) = object_image (UpdateHeaderField m) @ []"
    by (simp add: echo_peer_def)
  then obtain r where "exchange echo_peer m = Inr (Some r, 0)"
    using exchange_answered [of echo_peer m m "[]"] assms by (auto simp: echo_peer_def)
  then have "CallExtNotSure one_alive (Some m) 80 ip = Inr (Some r)"
    using calls_exchange(2) [of m echo_peer one_alive ip 80] assms(2)
    by (simp add: one_alive_def echo_peer_def deref_clone_def Clone_def)
  then show thesis by (rule that)
qed

theorem Watchdog_Check_exact_witness:
  "\<exists>st'. Watchdog_Check (demo_env one_alive) (demo_state\<lparr>at_services := [(''a'', 80), (''b'', 81)]\<rparr>) = Inr st'
    \<and> map_of (at_services st') = [''a'' \<mapsto> 80] \<and> count_of (shutdowns (at_data st')) ''b'' = 1"
proof -
  let ?e = "demo_env one_alive" and ?st = "demo_state\<lparr>at_services := [(''a'', 80), (''b'', 81)]\<rparr>"
  have p80: "\<exists>r. answers ?e k 80 = Inr (Some r)" for k
    by (rule CallExt_echo [of "NewKeepAlive (draw ?e k) kKartosServiceName"])
      (auto simp: answers_def demo_env_def obj_fits_def sizeof_header_def protocol_names)
  have p81: "answers ?e k 81 = Inr None" for k
    by (simp add: answers_def demo_env_def CallExt_refused)
  have "\<forall>n p k. map_of (at_services ?st) n = Some p \<longrightarrow> (\<exists>r. answers ?e k p = Inr r \<and> (r \<noteq> None \<longleftrightarrow> p = 80))"
  proof (intro allI impI)
    fix n p k
    assume "map_of (at_services ?st) n = Some p"
    then consider "p = 80" | "p = 81" by (auto split: if_splits)
    then show "\<exists>r. answers ?e k p = Inr r \<and> (r \<noteq> None \<longleftrightarrow> p = 80)" using p80 [of k] p81 [of k] by cases auto
  qed
  moreover have "\<forall>n k. \<exists>r. CallExt (env_net ?e) (Some (NewDeregister (draw ?e k) n (this_ip ?e))) kIcePort (ice_ip ?e) = Inr r"
    by (simp add: demo_env_def CallExt_refused kIcePort_def)
  moreover have "kv_wf (at_services ?st)" "dm_ok (at_data ?st)" "\<forall>n. count_of (shutdowns (at_data ?st)) n < 2 ^ 31 - 1"
    by (simp_all add: kv_wf_def demo_state_def new_dm_def dm_ok_def count_of_def)
  ultimately obtain st' m where "Watchdog_Check ?e ?st = Inr st'" "at_data st' = (at_data ?st)\<lparr>shutdowns := m\<rparr>"
    "map_of (at_services st') = (\<lambda>n. case map_of (at_services ?st) n of None \<Rightarrow> None | Some p \<Rightarrow> if p = 80 then Some p else None)"
    "count_of m = (\<lambda>n. count_of (shutdowns (at_data ?st)) n
        + (case map_of (at_services ?st) n of None \<Rightarrow> 0 | Some p \<Rightarrow> if p = 80 then 0 else 1))"
    using Watchdog_Check_exact [of ?st ?e "\<lambda>p. p = 80"] by blast
  then show ?thesis
    by (intro exI [of _ st']) (auto simp: demo_state_def new_dm_def count_of_def)
qed

section \<open>What a report loses\<close>

text \<open>
  Reports to a chaos that cannot be reached. The counters are cleared before they are sent and
  the outcome of the call is not looked at: when connecting is refused all four counters are
  lost, although no byte of them left the process.
\<close>

theorem Watchdog_Report_unreachable:
  assumes "env_net env (chaos_ip env) kChaosPort = Inr p" and "pr_connect p \<noteq> 0"
  shows "Watchdog_Report env st = Inr (st\<lparr>at_data := new_dm\<rparr>)"
proof -
  have call: "CallExt (env_net env) (Some m) kChaosPort (chaos_ip env) = Inr (Some m)" for m
    using assms by (simp add: CallExt_def Start_def SetObject_def GetObject_def deref_clone_def Clone_def)
  show ?thesis
    by (cases "at_data st") (simp add: Watchdog_Report_def call dm_report_defs new_dm_def)
qed

theorem Watchdog_Report_unreachable_witness:
  "Watchdog_Report (demo_env no_ice) (demo_state\<lparr>at_data := new_dm\<lparr>querys := [(''s'', 7)]\<rparr>\<rparr>)
    = Inr (demo_state\<lparr>at_data := new_dm\<rparr>)"
proof -
  have "env_net (demo_env no_ice) (chaos_ip (demo_env no_ice)) kChaosPort
      = Inr \<lparr>pr_connect = 1, pr_write = 0, pr_read = 2, pr_reply = (\<lambda>_. [])\<rparr>" by (simp add: demo_env_def no_ice_def)
  from Watchdog_Report_unreachable [OF this] show ?thesis by simp
qed

end
