(* ===== verification/Blade_Server.thy ===== *)
theory Blade_Server
  imports Blade_Session Transition_Systems
begin

text \<open>
  blade/blade\_server: a port, the policy that accepted connections get a clone of, and the event loop
  of \<^verbatim>\<open>io_context::run\<close> as a step relation. A step accepts a connection or completes any operation in
  flight with any error code and any bytes. The locale \<open>event_loop\<close> is what a loop needs from the policies of
  its sessions; inside it are proved, for every policy that provides it, that the sessions never get in each
  other's way, that nothing but a message body can end the process, and that the work per connection is bounded.
\<close>

section \<open>The server\<close>

record 'p blade_server =
  listen_port :: "port option"
  accept_policy :: "'p option"

definition BladeServer :: "port \<Rightarrow> 'p \<Rightarrow> 'p blade_server" where
  "BladeServer prt policy = \<lparr>listen_port = Some prt, accept_policy = Some policy\<rparr>"

definition BladeServer_none :: "'p blade_server" where \<comment> \<open>the server of the watchdog: timers only\<close>
  "BladeServer_none = \<lparr>listen_port = None, accept_policy = None\<rparr>"

definition BladeServer_SetPolicy :: "'p option \<Rightarrow> 'p blade_server \<Rightarrow> 'p blade_server" where
  "BladeServer_SetPolicy policy self = self\<lparr>accept_policy := policy\<rparr>"

text \<open>
  The event loop of one thread. The dispatch differs from step to step, by what the network and the clock
  give the handlers; \<open>ons\<close> are the possible ones. No message has \<open>2 ^ 31 - 40\<close> bytes or more: a peer may
  announce longer ones, but the decoder is not safe on them (\<open>Blade_Opr\<close>), so nothing holds of a process that reads one.
\<close>

inductive loop_step :: "('p, 's) dispatch set \<Rightarrow> 'p \<Rightarrow> ('p, 's) world \<Rightarrow> ('p, 's) world \<Rightarrow> bool" for ons p where
  accepted: "on \<in> ons \<Longrightarrow> accept on p w = Inr w' \<Longrightarrow> loop_step ons p w w'"
| completed: "on \<in> ons \<Longrightarrow> (i, op) \<in> set (in_flight w) \<Longrightarrow> length got + 40 < 2 ^ 31 \<Longrightarrow>
    complete on i op ec got w = Inr w' \<Longrightarrow> loop_step ons p w w'"

inductive_cases loop_stepE: "loop_step ons p w w'"

definition loop_start :: "('p, 's) world \<Rightarrow> bool" where
  "loop_start w \<longleftrightarrow> sessions w = [] \<and> in_flight w = []"

section \<open>The sessions of a loop\<close>

text \<open>
  \<open>cl\<close> tells the policies of client sessions, with the name under which they hold their father. The
  \<open>owner\<close> of a session is the accepted session on whose behalf it works: its father, or itself.
\<close>

definition owner :: "('p \<Rightarrow> string option) \<Rightarrow> ('p, 's) world \<Rightarrow> nat \<Rightarrow> nat" where
  "owner cl w i =
     (case map_of (sessions w) i of
        None \<Rightarrow> i
      | Some (s, p) \<Rightarrow> (case cl p of None \<Rightarrow> i | Some n \<Rightarrow>
          (case BS_GetSession n s of None \<Rightarrow> i | Some f \<Rightarrow> f)))"

text \<open>What the buffers of a session hold while an operation is in flight.\<close>

fun op_ready :: "async_op \<Rightarrow> blade_session \<Rightarrow> bool" where
  "op_ready AsyncConnect s \<longleftrightarrow> in_seq (bs_send s) = []"
| "op_ready (AsyncWrite m n) s \<longleftrightarrow> True"
| "op_ready AsyncReadHeader s \<longleftrightarrow> in_seq (bs_recv s) = [] \<and> out_area (bs_recv s) = replicate 40 0"
| "op_ready (AsyncReadBody n) s \<longleftrightarrow> in_seq (bs_recv s) = [] \<and> out_area (bs_recv s) = replicate n 0
     \<and> (\<exists>h. bs_header s = Some h \<and> n = unat (payload_length h))"

definition father_ready :: "('p \<Rightarrow> string option) \<Rightarrow> ('p, 's) world \<Rightarrow> async_op \<Rightarrow> nat \<Rightarrow> bool" where
  "father_ready cl w op f \<longleftrightarrow> (\<exists>sf pf. map_of (sessions w) f = Some (sf, pf) \<and> cl pf = None
     \<and> (op = AsyncConnect \<longrightarrow> (\<exists>q. bs_obj sf = Some q \<and> obj_fits q)))"

definition op_ok :: "('p \<Rightarrow> string option) \<Rightarrow> ('p, 's) world \<Rightarrow> nat \<Rightarrow> async_op \<Rightarrow> bool" where
  "op_ok cl w i op \<longleftrightarrow> (\<exists>s p. map_of (sessions w) i = Some (s, p) \<and> op_ready op s
     \<and> (case cl p of
          None \<Rightarrow> op \<noteq> AsyncConnect
        | Some n \<Rightarrow> in_seq (bs_recv s) = [] \<and> (\<exists>f. BS_GetSession n s = Some f \<and> father_ready cl w op f)))"

definition sessions_ok :: "('p, 's) world \<Rightarrow> bool" where
  "sessions_ok w \<longleftrightarrow> (\<forall>i. map_of (sessions w) i \<noteq> None \<longleftrightarrow> i < length (sessions w))"

definition loop_inv :: "('p \<Rightarrow> string option) \<Rightarrow> ('p, 's) world \<Rightarrow> bool" where
  "loop_inv cl w \<longleftrightarrow> sessions_ok w \<and> (\<forall>(i, op) \<in> set (in_flight w). op_ok cl w i op)
     \<and> distinct (map (\<lambda>(i, op). owner cl w i) (in_flight w))"

text \<open>How many completions an operation can still lead to, on the side of the accepted session and of a client.\<close>

fun stage :: "bool \<Rightarrow> async_op \<Rightarrow> nat" where
  "stage client AsyncConnect = 5"
| "stage client (AsyncWrite _ _) = (if client then 4 else 1)"
| "stage client AsyncReadHeader = (if client then 3 else 7)"
| "stage client (AsyncReadBody _) = (if client then 2 else 6)"

definition is_client :: "('p \<Rightarrow> string option) \<Rightarrow> ('p, 's) world \<Rightarrow> nat \<Rightarrow> bool" where
  "is_client cl w i \<longleftrightarrow> (\<exists>s p. map_of (sessions w) i = Some (s, p) \<and> cl p \<noteq> None)"

definition work :: "('p \<Rightarrow> string option) \<Rightarrow> ('p, 's) world \<Rightarrow> nat" where
  "work cl w = (\<Sum>(i, op) \<leftarrow> in_flight w. stage (is_client cl w i) op)"

text \<open>
  What a handler of session \<open>i\<close> may do to the world: change that session and its owner, and start at
  most one operation, for the same owner and of a stage below \<open>b\<close>.
\<close>

definition moves :: "('p \<Rightarrow> string option) \<Rightarrow> ('p, 's) world \<Rightarrow> nat \<Rightarrow> nat \<Rightarrow> ('p, 's) world \<Rightarrow> bool" where
  "moves cl w i b w' \<longleftrightarrow> sessions_ok w'
     \<and> (\<forall>k < length (sessions w). k \<noteq> i \<longrightarrow> k \<noteq> owner cl w i \<longrightarrow> map_of (sessions w') k = map_of (sessions w) k)
     \<and> (in_flight w' = in_flight w
        \<or> (\<exists>j op. in_flight w' = in_flight w @ [(j, op)] \<and> op_ok cl w' j op \<and> owner cl w' j = owner cl w i
             \<and> stage (is_client cl w' j) op < b))"

lemma sessions_ok_less: "sessions_ok w \<Longrightarrow> map_of (sessions w) i = Some x \<Longrightarrow> i < length (sessions w)"
  by (metis option.distinct(1) sessions_ok_def)

lemma map_entry_length [simp]: "length (AList.map_entry i f xs) = length xs"
  by (induction xs) auto

lemma sessions_set [simp]:
  "map_of (sessions (set_session i s w)) k = (if k = i then map_option (\<lambda>(_, p). (s, p)) (map_of (sessions w) i) else map_of (sessions w) k)"
  "length (sessions (set_session i s w)) = length (sessions w)"
  by (simp_all add: set_session_def map_of_entry)

lemma sessions_start [simp]: "sessions (start_op i r w) = sessions (set_session i (fst r) w)"
  by (simp add: start_op_def Let_def)

lemma op_ok_iffs:
  "map_of (sessions w) i = Some (s, p) \<Longrightarrow> cl p = None \<Longrightarrow> op_ok cl w i op \<longleftrightarrow> op_ready op s \<and> op \<noteq> AsyncConnect"
  "map_of (sessions w) i = Some (s, p) \<Longrightarrow> cl p = Some n \<Longrightarrow> op_ok cl w i op \<longleftrightarrow>
     op_ready op s \<and> in_seq (bs_recv s) = [] \<and> (\<exists>f. BS_GetSession n s = Some f \<and> father_ready cl w op f)"
  by (simp_all add: op_ok_def)

lemma op_okE:
  assumes "op_ok cl w i op"
  obtains (server) s p where "map_of (sessions w) i = Some (s, p)" "cl p = None" "op_ready op s" "op \<noteq> AsyncConnect"
      "owner cl w i = i" "\<not> is_client cl w i"
  | (client) s p n f sf pf where "map_of (sessions w) i = Some (s, p)" "cl p = Some n" "op_ready op s" "in_seq (bs_recv s) = []"
      "BS_GetSession n s = Some f" "map_of (sessions w) f = Some (sf, pf)" "cl pf = None"
      "op = AsyncConnect \<longrightarrow> (\<exists>q. bs_obj sf = Some q \<and> obj_fits q)" "owner cl w i = f" "is_client cl w i" "f \<noteq> i"
  using assms by (fastforce simp: op_ok_def owner_def is_client_def father_ready_def split: option.splits)

lemma owner_owner: "op_ok cl w k op \<Longrightarrow> owner cl w (owner cl w k) = owner cl w k"
  by (erule op_okE) (simp_all add: owner_def)

text \<open>What is in flight for one owner depends on its session and the owner's only.\<close>

lemma op_ok_cong:
  assumes "op_ok cl w k op" and "map_of (sessions w') k = map_of (sessions w) k"
    and "map_of (sessions w') (owner cl w k) = map_of (sessions w) (owner cl w k)"
  shows "op_ok cl w' k op \<and> owner cl w' k = owner cl w k \<and> is_client cl w' k = is_client cl w k"
  using assms(1)
proof (cases rule: op_okE)
  case (server s p)
  with assms(2) show ?thesis by (simp add: op_ok_iffs owner_def is_client_def)
next
  case (client s p n f sf pf)
  with assms(2,3) show ?thesis by (simp add: op_ok_iffs owner_def is_client_def father_ready_def)
qed

lemma sessions_only:
  assumes "sessions w' = sessions w"
  shows "father_ready cl w' = father_ready cl w" "op_ok cl w' = op_ok cl w" "owner cl w' = owner cl w"
    "is_client cl w' = is_client cl w" "sessions_ok w' = sessions_ok w"
proof -
  show f: "father_ready cl w' = father_ready cl w" using assms by (simp add: father_ready_def fun_eq_iff)
  show "op_ok cl w' = op_ok cl w" unfolding op_ok_def assms f ..
qed (use assms in \<open>simp_all add: owner_def is_client_def sessions_ok_def fun_eq_iff\<close>)

lemma op_ok_frames [simp]:
  "op_ok cl (w\<lparr>in_flight := ops\<rparr>) = op_ok cl w" "owner cl (w\<lparr>in_flight := ops\<rparr>) = owner cl w"
  "is_client cl (w\<lparr>in_flight := ops\<rparr>) = is_client cl w" "sessions_ok (w\<lparr>in_flight := ops\<rparr>) = sessions_ok w"
  "op_ok cl (w\<lparr>process := st\<rparr>) = op_ok cl w" "owner cl (w\<lparr>process := st\<rparr>) = owner cl w"
  "is_client cl (w\<lparr>process := st\<rparr>) = is_client cl w" "sessions_ok (w\<lparr>process := st\<rparr>) = sessions_ok w"
  by (rule sessions_only; simp)+

lemma other_owner:
  assumes "op_ok cl w k op'" and "op_ok cl w i op" and "owner cl w k \<noteq> owner cl w i"
  shows "k \<noteq> i" "k \<noteq> owner cl w i" "owner cl w k \<noteq> i"
  using assms owner_owner [OF assms(1)] owner_owner [OF assms(2)] by auto

lemma owner_less: "sessions_ok w \<Longrightarrow> op_ok cl w k op \<Longrightarrow> k < length (sessions w) \<and> owner cl w k < length (sessions w)"
  by (erule op_okE) (auto dest: sessions_ok_less)

lemma moves_other:
  assumes m: "moves cl w i b w'" and ok: "sessions_ok w" "op_ok cl w i op" "op_ok cl w k op'" "owner cl w k \<noteq> owner cl w i"
  shows "op_ok cl w' k op' \<and> owner cl w' k = owner cl w k \<and> is_client cl w' k = is_client cl w k"
proof (rule op_ok_cong [OF ok(3)])
  note o = other_owner [OF ok(3,2,4)] and l = owner_less [OF ok(1,3)]
  show "map_of (sessions w') k = map_of (sessions w) k" using m o l by (simp add: moves_def)
  show "map_of (sessions w') (owner cl w k) = map_of (sessions w) (owner cl w k)"
    using m o l ok(4) by (simp add: moves_def)
qed

lemma moves_inv:
  assumes inv: "loop_inv cl w" and i: "(i, op) \<in> set (in_flight w)"
    and m: "moves cl (w\<lparr>in_flight := remove1 (i, op) (in_flight w)\<rparr>) i (stage (is_client cl w i) op) w'"
  shows "loop_inv cl w' \<and> work cl w' < work cl w"
proof -
  let ?o = "\<lambda>(i, op). owner cl w i" and ?w = "w\<lparr>in_flight := remove1 (i, op) (in_flight w)\<rparr>"
  obtain xs ys where fl: "in_flight w = xs @ (i, op) # ys" "(i, op) \<notin> set xs" using i by (meson split_list_first)
  then have r: "remove1 (i, op) (in_flight w) = xs @ ys" by (simp add: remove1_append)
  have ok: "sessions_ok ?w" "op_ok cl ?w i op" and d: "distinct (map ?o (in_flight w))"
    using inv i by (auto simp: loop_inv_def)
  then have ds: "distinct (map ?o (xs @ ys))" "owner cl w i \<notin> ?o ` set (xs @ ys)" using fl(1) by auto
  have other: "op_ok cl w' k op' \<and> owner cl w' k = owner cl w k \<and> is_client cl w' k = is_client cl w k"
    if k: "(k, op') \<in> set (xs @ ys)" for k op'
  proof -
    have "op_ok cl w k op'" using k inv fl(1) by (auto simp: loop_inv_def)
    moreover have "owner cl w k \<noteq> owner cl w i" using k ds(2) by force
    ultimately show ?thesis using moves_other [OF m ok, of k op'] by simp
  qed
  have owners: "map (\<lambda>(i, op). owner cl w' i) (xs @ ys) = map ?o (xs @ ys)"
    by (intro map_cong refl) (use other in fastforce)
  have works: "map (\<lambda>(i, op). stage (is_client cl w' i) op) (xs @ ys) = map (\<lambda>(i, op). stage (is_client cl w i) op) (xs @ ys)"
    by (intro map_cong refl) (use other in fastforce)
  let ?s = "sum_list (map (\<lambda>(i, op). stage (is_client cl w i) op) (xs @ ys))"
  have oks: "\<forall>(k, op') \<in> set (xs @ ys). op_ok cl w' k op'" using other by blast
  have pos: "0 < stage c op" for c by (cases op) simp_all
  have w: "work cl w = ?s + stage (is_client cl w i) op" by (simp add: work_def fl(1))
  have ok': "sessions_ok w'" using m by (simp add: moves_def)
  from m r consider (none) "in_flight w' = xs @ ys"
    | (one) j op' where "in_flight w' = (xs @ ys) @ [(j, op')]" "op_ok cl w' j op'" "owner cl w' j = owner cl w i"
        "stage (is_client cl w' j) op' < stage (is_client cl w i) op"
    by (auto simp: moves_def)
  then show ?thesis
  proof cases
    case none
    then have "work cl w' = ?s" by (simp only: work_def works)
    moreover have "loop_inv cl w'" unfolding loop_inv_def none owners using oks ok' ds(1) by blast
    ultimately show ?thesis using w pos by simp
  next
    case one
    then have "work cl w' = ?s + stage (is_client cl w' j) op'"
      unfolding work_def one(1) map_append [of _ "xs @ ys"] works by simp
    moreover have "distinct (map (\<lambda>(i, op). owner cl w' i) (in_flight w'))"
      unfolding one(1) map_append [of _ "xs @ ys"] owners distinct_append using one(3) ds by (simp del: map_append set_append)
    then have "loop_inv cl w'" unfolding loop_inv_def using oks ok' one(1,2) by auto
    ultimately show ?thesis using w one(4) by simp
  qed
qed

section \<open>What a handler may do\<close>

lemma session_lookup: "session i w = Inr s \<longleftrightarrow> (\<exists>p. map_of (sessions w) i = Some (s, p))"
  by (auto simp: session_def split: option.splits)

lemma owner_set:
  assumes "map_of (sessions w) j = Some (s, p)" and "bs_hold s' = bs_hold s \<or> cl p = None"
  shows "owner cl (set_session j s' w) = owner cl w"
proof (rule ext)
  fix k
  show "owner cl (set_session j s' w) k = owner cl w k"
    using assms by (cases "k = j"; cases "cl p") (auto simp: owner_def BS_GetSession_def split: option.splits)
qed

lemma moves_process [simp]:
  "moves cl (w\<lparr>process := st\<rparr>) i b w' = moves cl w i b w'" "moves cl w i b (w'\<lparr>process := st\<rparr>) = moves cl w i b w'"
  by (simp_all add: moves_def)

lemma moves_refl: "sessions_ok w \<Longrightarrow> moves cl w i b w"
  by (simp add: moves_def)

lemma moves_set:
  assumes "map_of (sessions w) j = Some (s, p)" and "bs_hold s' = bs_hold s \<or> cl p = None" and "j = i \<or> j = owner cl w i"
    and "moves cl (set_session j s' w) i b w'"
  shows "moves cl w i b w'"
  using assms(3,4) unfolding moves_def owner_set [of w j s p s' cl, OF assms(1,2)] by auto

lemma lookup_set_None: "map_of (sessions (set_session i s w)) k = None \<longleftrightarrow> map_of (sessions w) k = None"
  by (cases "k = i") simp_all

lemma sessions_ok_set [simp]: "sessions_ok (set_session i s w) = sessions_ok w"
  unfolding sessions_ok_def lookup_set_None by simp

lemma sessions_ok_start [simp]: "sessions_ok (start_op i r w) = sessions_ok w"
  unfolding sessions_ok_def sessions_start lookup_set_None by simp

lemma moves_self:
  "sessions_ok w \<Longrightarrow> map_of (sessions w) i = Some (s, p) \<Longrightarrow> bs_hold s' = bs_hold s \<Longrightarrow> moves cl w i b (set_session i s' w)"
  by (rule moves_set [OF _ disjI1 disjI1 [OF refl] moves_refl]) simp_all

lemma moves_server:
  assumes "sessions_ok w" and "map_of (sessions w) j = Some (s, p)" and "cl p = None" and "j = owner cl w i"
    and "op \<noteq> AsyncConnect" and "op_ready op s'" and "stage False op < b"
  shows "moves cl w i b (start_op j (s', op) w)"
proof -
  let ?w = "start_op j (s', op) w"
  have l: "map_of (sessions ?w) j = Some (s', p)" using assms(2) by simp
  have "op_ok cl ?w j op" using assms l by (simp add: op_ok_iffs)
  moreover have "owner cl ?w j = j" "\<not> is_client cl ?w j" unfolding owner_def is_client_def l using assms(3) by auto
  moreover have "sessions_ok ?w" using assms(1) by simp
  ultimately show ?thesis using assms by (simp add: moves_def)
qed

lemma moves_client:
  assumes "sessions_ok w" and "map_of (sessions w) i = Some (s, p)" and "cl p = Some n" and "BS_GetSession n s = Some f"
    and "map_of (sessions w) f = Some (sf, pf)" and "cl pf = None" and "bs_hold s' = bs_hold s"
    and "op \<noteq> AsyncConnect" and "op_ready op s'" and "in_seq (bs_recv s') = []" and "stage True op < b"
  shows "moves cl w i b (start_op i (s', op) w)"
proof -
  let ?w = "start_op i (s', op) w"
  have fi: "f \<noteq> i" using assms(2,3,5,6) by auto
  have l: "map_of (sessions ?w) i = Some (s', p)" using assms(2) by simp
  have g: "BS_GetSession n s' = Some f" using assms(4,7) by (simp add: BS_GetSession_def)
  have "father_ready cl ?w op f" using assms(5,6,8) fi by (simp add: father_ready_def)
  then have "op_ok cl ?w i op" using assms l g by (simp add: op_ok_iffs)
  moreover have "owner cl ?w i = owner cl w i" "is_client cl ?w i"
    unfolding owner_def is_client_def l assms(2) using g assms(3,4) by simp_all
  moreover have "sessions_ok ?w" using assms(1) by simp
  ultimately show ?thesis using assms by (simp add: moves_def)
qed

lemma ExecRead_eq: "session i w = Inr s \<Longrightarrow> ExecRead i w = Inr (start_op i (BS_DoReadHeader s) w)"
  by (simp add: ExecRead_def)

lemma DoReadHeader_ready: "in_seq (bs_recv s) = [] \<Longrightarrow> BS_DoReadHeader s = (s', op) \<Longrightarrow>
    op = AsyncReadHeader \<and> op_ready op s' \<and> in_seq (bs_recv s') = [] \<and> bs_hold s' = bs_hold s"
  by (auto simp: BS_DoReadHeader_def buffer_defs sizeof_header_def)

lemma ExecWrite_started:
  assumes "ExecWrite i w = Inr w'" and "session i w = Inr s"
  obtains s' m n where "w' = start_op i (s', AsyncWrite m n) w" "bs_recv s' = bs_recv s" "bs_hold s' = bs_hold s"
  using assms by (force simp: ExecWrite_def BS_DoWrite_def Let_def and_then_Inr_iff split: option.splits prod.splits)

text \<open>Whatever forty bytes arrive as a header, the read of the body they announce is started.\<close>

lemma header_done_any:
  assumes "session i w = Inr s" and "op_ready AsyncReadHeader s" and "length got = 40"
  obtains s' n where "header_done on i 0 got w = Inr (start_op i (s', AsyncReadBody n) w)" "op_ready (AsyncReadBody n) s'"
    "in_seq (bs_recv s') = []" "bs_hold s' = bs_hold s"
proof -
  let ?r = "Produce 40 (fill got (bs_recv s))"
  have r: "in_seq ?r = got" using assms(2,3) by (simp add: buffer_defs)
  obtain h where h: "GetRawBladeHeaderFromPtr got = Inr h" using GetRawBladeHeaderFromPtr_total [of got] assms(3) by auto
  let ?s = "s\<lparr>bs_obj := None, bs_header := Some h, bs_recv := PrepareBuffer (unat (payload_length h)) (Consume 40 (Consume 40 ?r))\<rparr>"
  have set: "BS_SetBladeHeader (s\<lparr>bs_recv := ?r\<rparr>) = Inr (s\<lparr>bs_obj := None, bs_recv := Consume 40 ?r, bs_header := Some h\<rparr>)"
    using r h assms(3) by (simp add: BS_SetBladeHeader_def Let_def GetSize_def GetBuffer_def sizeof_header_def)
  have "header_done on i 0 got w = Inr (start_op i (?s, AsyncReadBody (unat (payload_length h))) w)"
    using assms(1,3) set by (simp add: header_done_def Let_def sizeof_header_def BS_DoReadBody_def)
  moreover have "op_ready (AsyncReadBody (unat (payload_length h))) ?s" "in_seq (bs_recv ?s) = []" "bs_hold ?s = bs_hold s"
    using r assms(3) by (simp_all add: buffer_defs)
  ultimately show thesis by (rule that)
qed

text \<open>An object that was decoded fits: it is no larger than its bytes.\<close>

lemma body_size_add_value: "body_size (add_value k v self) \<le> body_size self + field_space k v"
  by (cases v) (simp_all add: body_size_def add_defs kv_emplace_def members_def typed_fields_defs field_space_def split: option.split)

lemma body_size_fold: "body_size (fold (\<lambda>(k, v). add_value k v) ms self) \<le> body_size self + (\<Sum>(k, v) \<leftarrow> ms. field_space k v)"
proof (induction ms arbitrary: self)
  case (Cons m ms)
  have "body_size (fold (\<lambda>(k, v). add_value k v) (m # ms) self)
      \<le> body_size (add_value (fst m) (snd m) self) + (\<Sum>(k, v) \<leftarrow> ms. field_space k v)"
    using Cons.IH [of "add_value (fst m) (snd m) self"] by (cases m) simp
  also have "\<dots> \<le> body_size self + (\<Sum>(k, v) \<leftarrow> m # ms. field_space k v)"
    using body_size_add_value [of "fst m" "snd m" self] by (simp add: split_beta)
  finally show ?case .
qed simp

lemma decoded_fits:
  assumes "DecodeWithHeader h body 0 (int (length body)) = Inr (Some q)" and "length body + 40 < 2 ^ 31"
  shows "obj_fits q"
proof -
  have "length body < 2 ^ 31" using assms(2) by simp
  from DecodeWithHeader_exact [OF this assms(1)] obtain srv ms where
    b: "body = string_image srv @ concat (map field_image ms)" and q: "q = fold (\<lambda>(k, v). add_value k v) ms (received h srv)" by blast
  have "body_size (received h srv) = 4 + length srv" by (simp add: body_size_def)
  then have "body_size q \<le> length body"
    using body_size_fold [of ms "received h srv"] by (simp add: b q length_concat_field_image)
  with assms(2) show ?thesis by (simp add: obj_fits_def sizeof_header_def)
qed

section \<open>The contract of the policies\<close>

fun is_error :: "policy_event \<Rightarrow> bool" where
  "is_error (OnErrorWhenConnect _) = True"
| "is_error (OnErrorWhenWriting _ _) = True"
| "is_error (OnErrorWhenReadingHeader _ _) = True"
| "is_error (OnErrorWhenReadingBody _ _) = True"
| "is_error _ = False"

text \<open>
  A dispatch and the classification of its policies: no error event starts anything; an accepted session reads
  first, writes once after its message, or lets a new client session work for it; a client session sends what
  its father holds, reads one answer and hands it to its father, who writes it.
\<close>

locale event_loop =
  fixes on :: "('p, 's) dispatch" and cl :: "'p \<Rightarrow> string option"
  assumes on_error: "map_of (sessions w) i \<noteq> None \<Longrightarrow> is_error e \<Longrightarrow> \<exists>st. on e i w = Inr (w\<lparr>process := st\<rparr>)"
    and on_start: "map_of (sessions w) i = Some (s, p) \<Longrightarrow> cl p = None \<Longrightarrow> on OnStart i w = ExecRead i w"
    and on_wrote: "map_of (sessions w) i = Some (s, p) \<Longrightarrow>
      on OnWrote i w = (if cl p = None then Inr w else ExecRead i w)"
    and on_connected: "map_of (sessions w) i = Some (s, p) \<Longrightarrow> cl p = Some n \<Longrightarrow> BS_GetSession n s = Some f \<Longrightarrow>
      map_of (sessions w) f = Some (sf, pf) \<Longrightarrow> bs_obj sf = Some q \<Longrightarrow>
      on OnConnected i w = ExecWrite i (set_session i (BS_SetBladeObject (Some (Clone q)) s) w)"
    and on_recv_client: "map_of (sessions w) i = Some (s, p) \<Longrightarrow> cl p = Some n \<Longrightarrow> BS_GetSession n s = Some f \<Longrightarrow>
      map_of (sessions w) f = Some (sf, pf) \<Longrightarrow> cl pf = None \<Longrightarrow> on OnRecvWholeBladeObject i w = Inr w' \<Longrightarrow>
      \<exists>q. ExecWrite f (set_session f (BS_SetBladeObject q sf) w) = Inr w'"
    and on_recv_server: "map_of (sessions w) i = Some (s, p) \<Longrightarrow> cl p = None \<Longrightarrow> sessions_ok w \<Longrightarrow>
      (\<forall>q. bs_obj s = Some q \<longrightarrow> obj_fits q) \<Longrightarrow> on OnRecvWholeBladeObject i w = Inr w' \<Longrightarrow> moves cl w i 6 w'"
begin

lemma error_moves:
  assumes "sessions_ok w" and "map_of (sessions w) i = Some (s, p)" and "bs_hold s' = bs_hold s" and "is_error e"
  shows "\<exists>w'. on e i (set_session i s' w) = Inr w' \<and> moves cl w i b w'"
proof -
  let ?w = "set_session i s' w"
  have "map_of (sessions ?w) i \<noteq> None" using assms(2) by simp
  from on_error [OF this assms(4)] obtain st where "on e i ?w = Inr (?w\<lparr>process := st\<rparr>)" by blast
  moreover have "moves cl w i b ?w"
    by (rule moves_self [OF assms(1-3)])
  ultimately show ?thesis by simp
qed

lemma set_self: "map_of (sessions w) i = Some (s, p) \<Longrightarrow> session i w = Inr s"
  by (auto simp: session_lookup)

lemma connect_moves:
  assumes ok: "sessions_ok w" "op_ok cl w i AsyncConnect"
  shows "\<exists>w'. connect_done on i ec w = Inr w' \<and> moves cl w i (stage (is_client cl w i) AsyncConnect) w'"
  using ok(2)
proof (cases rule: op_okE)
  case (client s p n f sf pf)
  then obtain q where q: "bs_obj sf = Some q" "obj_fits q" by blast
  show ?thesis
  proof (cases "ec = 0")
    case True
    let ?s = "BS_SetBladeObject (Some (Clone q)) s" and ?w = "set_session i (BS_SetBladeObject (Some (Clone q)) s) w"
    have "session i ?w = Inr ?s" "bs_obj ?s = Some q" "in_seq (bs_send ?s) = []"
      using client(1,3) by (simp_all add: set_self BS_SetBladeObject_def Clone_def)
    from ExecWrite_fits [OF this(1,2) q(2) this(3)] obtain b m n' where
      w: "ExecWrite i ?w = Inr (start_op i (?s\<lparr>bs_obj := Some (UpdateHeaderField q), bs_send := b\<rparr>, AsyncWrite m n') ?w)" by blast
    have "moves cl w i 5 (start_op i (?s\<lparr>bs_obj := Some (UpdateHeaderField q), bs_send := b\<rparr>, AsyncWrite m n') ?w)"
    proof (rule moves_set [OF client(1)])
      show "moves cl ?w i 5 (start_op i (?s\<lparr>bs_obj := Some (UpdateHeaderField q), bs_send := b\<rparr>, AsyncWrite m n') ?w)"
        using ok(1) client by (intro moves_client [where f = f and n = n and s = ?s and p = p])
          (simp_all add: BS_SetBladeObject_def BS_GetSession_def)
    qed (simp_all add: BS_SetBladeObject_def)
    with True w on_connected [OF client(1,2,5,6) q(1)] show ?thesis by (simp add: connect_done_def)
  next
    case False
    from error_moves [OF ok(1) client(1) refl, of "OnErrorWhenConnect ec"] False show ?thesis
      using on_error [of w i "OnErrorWhenConnect ec"] client(1) ok(1) by (fastforce simp: connect_done_def moves_refl)
  qed
qed simp

lemma write_moves:
  assumes ok: "sessions_ok w" "op_ok cl w i (AsyncWrite m n)"
  shows "\<exists>w'. write_done on i n ec k w = Inr w' \<and> moves cl w i (stage (is_client cl w i) (AsyncWrite m n)) w'"
proof -
  from ok(2) obtain s p where s: "map_of (sessions w) i = Some (s, p)" by (auto simp: op_ok_def)
  let ?s = "s\<lparr>bs_send := Consume n (bs_send s)\<rparr>" and ?t = "s\<lparr>bs_send := Consume n (bs_send s), bs_obj := None\<rparr>"
  let ?w = "set_session i ?t w"
  have l: "map_of (sessions ?w) i = Some (?t, p)" using s by simp
  show ?thesis
  proof (cases "ec \<noteq> 0 \<or> k \<noteq> n")
    case True
    with error_moves [OF ok(1) s, of ?s "OnErrorWhenWriting ec k"] set_self [OF s] show ?thesis
      by (simp add: write_done_def Let_def)
  next
    case False
    then have d: "write_done on i n ec k w = on OnWrote i ?w" using set_self [OF s] by (simp add: write_done_def Let_def)
    have set: "moves cl ?w i b w' \<Longrightarrow> moves cl w i b w'" for b w' by (rule moves_set [OF s]) simp_all
    from ok(2) show ?thesis
    proof (cases rule: op_okE)
      case (server s' p')
      with s have "on OnWrote i ?w = Inr ?w" using on_wrote [OF l] by simp
      with d set [OF moves_refl] ok(1) show ?thesis by simp
    next
      case (client s' p' n' f sf pf)
      with s have p: "s' = s" "p' = p" by simp_all
      obtain t op where r: "BS_DoReadHeader ?t = (t, op)" by fastforce
      have "on OnWrote i ?w = Inr (start_op i (t, op) ?w)"
        using on_wrote [OF l] client(2) p ExecRead_eq [OF set_self [OF l]] r by simp
      moreover from DoReadHeader_ready [OF _ r] client(4) p
      have t: "op = AsyncReadHeader" "op_ready op t" "in_seq (bs_recv t) = []" "bs_hold t = bs_hold ?t" by auto
      have "moves cl ?w i 4 (start_op i (t, op) ?w)"
        using ok(1) l client p t by (intro moves_client [where f = f and n = n' and s = ?t and p = p]) (simp_all add: BS_GetSession_def)
      from set [OF this] have "moves cl w i 4 (start_op i (t, op) ?w)" .
      ultimately show ?thesis using d client(10) by simp
    qed
  qed
qed

lemma header_moves:
  assumes ok: "sessions_ok w" "op_ok cl w i AsyncReadHeader"
  shows "\<exists>w'. header_done on i ec got w = Inr w' \<and> moves cl w i (stage (is_client cl w i) AsyncReadHeader) w'"
proof -
  from ok(2) obtain s p where s: "map_of (sessions w) i = Some (s, p)" "op_ready AsyncReadHeader s" by (auto simp: op_ok_def)
  show ?thesis
  proof (cases "ec \<noteq> 0 \<or> length got \<noteq> 40")
    case True
    with error_moves [OF ok(1) s(1), of "s\<lparr>bs_recv := fill got (bs_recv s)\<rparr>" "OnErrorWhenReadingHeader ec (length got)"]
      set_self [OF s(1)] show ?thesis by (simp add: header_done_def Let_def sizeof_header_def)
  next
    case False
    then have "length got = 40" by simp
    then obtain t n where t: "header_done on i 0 got w = Inr (start_op i (t, AsyncReadBody n) w)" "op_ready (AsyncReadBody n) t"
      "in_seq (bs_recv t) = []" "bs_hold t = bs_hold s" using header_done_any [OF set_self [OF s(1)] s(2)] by metis
    from ok(2) have "moves cl w i (stage (is_client cl w i) AsyncReadHeader) (start_op i (t, AsyncReadBody n) w)"
    proof (cases rule: op_okE)
      case (server s' p')
      with ok(1) s t show ?thesis by (intro moves_server [where s = s and p = p]) simp_all
    next
      case (client s' p' n' f sf pf)
      with ok(1) s t show ?thesis by (intro moves_client [where s = s and p = p and f = f and n = n']) simp_all
    qed
    with t(1) False show ?thesis by simp
  qed
qed

lemma body_moves:
  assumes ok: "sessions_ok w" "op_ok cl w i (AsyncReadBody n)" and len: "length got + 40 < 2 ^ 31"
    and d: "body_done on i n ec got w = Inr w'"
  shows "moves cl w i (stage (is_client cl w i) (AsyncReadBody n)) w'"
proof -
  from ok(2) obtain s p where s: "map_of (sessions w) i = Some (s, p)" "op_ready (AsyncReadBody n) s" by (auto simp: op_ok_def)
  show ?thesis
  proof (cases "ec \<noteq> 0 \<or> length got \<noteq> n")
    case True
    with error_moves [OF ok(1) s(1), of "s\<lparr>bs_recv := fill got (bs_recv s)\<rparr>" "OnErrorWhenReadingBody ec (length got)"]
      set_self [OF s(1)] d show ?thesis by (auto simp: body_done_def Let_def)
  next
    case False
    then have n: "n = length got" "ec = 0" by simp_all
    from s(2) n obtain h where r: "in_seq (bs_recv s) = []" "out_area (bs_recv s) = replicate (length got) 0" "bs_header s = Some h"
      by auto
    have "length got < 2 ^ 31" using len by simp
    from body_done_ok [OF set_self [OF s(1)] r this, of on] obtain b where b: "in_seq b = []"
      "and_then (DecodeWithHeader h got 0 (int (length got))) (\<lambda>r.
        on OnRecvWholeBladeObject i (set_session i (s\<lparr>bs_obj := r, bs_recv := b\<rparr>) w)) = Inr w'" using d n by auto
    then obtain r where r: "DecodeWithHeader h got 0 (int (length got)) = Inr r"
      "on OnRecvWholeBladeObject i (set_session i (s\<lparr>bs_obj := r, bs_recv := b\<rparr>) w) = Inr w'" by (auto simp: and_then_Inr_iff)
    let ?s = "s\<lparr>bs_obj := r, bs_recv := b\<rparr>" and ?w = "set_session i (s\<lparr>bs_obj := r, bs_recv := b\<rparr>) w"
    have l: "map_of (sessions ?w) i = Some (?s, p)" using s by simp
    have set: "moves cl ?w i b w' \<Longrightarrow> moves cl w i b w'" for b by (rule moves_set [OF s(1)]) simp_all
    from ok(2) show ?thesis
    proof (cases rule: op_okE)
      case (server s' p')
      have "\<forall>q. bs_obj ?s = Some q \<longrightarrow> obj_fits q" using decoded_fits [OF _ len] r(1) by auto
      from set [OF on_recv_server [OF l _ _ this r(2)]] server s(1) ok(1) show ?thesis by simp
    next
      case (client s' p' n' f sf pf)
      with s(1) have p: "s' = s" "p' = p" by simp_all
      have f: "map_of (sessions ?w) f = Some (sf, pf)" "BS_GetSession n' ?s = Some f" "cl p = Some n'"
        using client p by (simp_all add: BS_GetSession_def)
      from on_recv_client [OF l f(3,2,1) client(7) r(2)] obtain q where
        q: "ExecWrite f (set_session f (BS_SetBladeObject q sf) ?w) = Inr w'" by blast
      let ?v = "set_session f (BS_SetBladeObject q sf) ?w"
      have lf: "map_of (sessions ?v) f = Some (BS_SetBladeObject q sf, pf)" using f(1) by simp
      from ExecWrite_started [OF q set_self [OF lf]] obtain t m k where w': "w' = start_op f (t, AsyncWrite m k) ?v" by blast
      have own: "owner cl ?w i = f" unfolding owner_def l using f(2,3) by simp
      have ov: "owner cl ?v i = f" using owner_set [of ?w f sf pf "BS_SetBladeObject q sf" cl] f(1) client(7) own by simp
      have "moves cl ?v i 2 w'" unfolding w'
        by (rule moves_server [where cl = cl, OF _ lf client(7)]) (use ov ok(1) in simp_all)
      then have "moves cl ?w i 2 w'" by (rule moves_set [OF f(1), rotated -1]) (use own client(7) in simp_all)
      from set [OF this] client(10) show ?thesis by simp
    qed
  qed
qed

text \<open>A completion from a state of the invariant: any but that of a body read succeeds.\<close>

lemma complete_moves:
  assumes inv: "loop_inv cl w" and i: "(i, op) \<in> set (in_flight w)"
  shows "(\<forall>n. op \<noteq> AsyncReadBody n) \<Longrightarrow> \<exists>w'. complete on i op ec got w = Inr w'"
    and "length got + 40 < 2 ^ 31 \<Longrightarrow> complete on i op ec got w = Inr w' \<Longrightarrow>
      moves cl (w\<lparr>in_flight := remove1 (i, op) (in_flight w)\<rparr>) i (stage (is_client cl w i) op) w'"
proof -
  let ?w = "w\<lparr>in_flight := remove1 (i, op) (in_flight w)\<rparr>"
  have ok: "sessions_ok ?w" "op_ok cl ?w i op" using inv i by (auto simp: loop_inv_def)
  show "\<exists>w'. complete on i op ec got w = Inr w'" if "\<forall>n. op \<noteq> AsyncReadBody n"
    using that ok connect_moves [of ?w i ec] write_moves [of ?w i _ _ ec "length got"] header_moves [of ?w i ec got]
    by (cases op) (force simp: complete_def Let_def)+
  show "moves cl ?w i (stage (is_client cl w i) op) w'"
    if "length got + 40 < 2 ^ 31" "complete on i op ec got w = Inr w'"
    using that ok connect_moves [of ?w i ec] write_moves [of ?w i _ _ ec "length got"] header_moves [of ?w i ec got]
      body_moves [of ?w i _ got ec w']
    by (cases op) (force simp: complete_def Let_def)+
qed

end

section \<open>Invariants of an event loop\<close>

text \<open>A run of the loop, with the numbers of connections accepted and of operations completed.\<close>

inductive loop_run :: "('p, 's) dispatch set \<Rightarrow> 'p \<Rightarrow> nat \<Rightarrow> nat \<Rightarrow> ('p, 's) world \<Rightarrow> bool" for ons p where
  run_start: "loop_start w \<Longrightarrow> loop_run ons p 0 0 w"
| run_accepted: "loop_run ons p a c w \<Longrightarrow> on \<in> ons \<Longrightarrow> accept on p w = Inr w' \<Longrightarrow> loop_run ons p (Suc a) c w'"
| run_completed: "loop_run ons p a c w \<Longrightarrow> on \<in> ons \<Longrightarrow> (i, op) \<in> set (in_flight w) \<Longrightarrow> length got + 40 < 2 ^ 31 \<Longrightarrow>
    complete on i op ec got w = Inr w' \<Longrightarrow> loop_run ons p a (Suc c) w'"

lemma sessions_new:
  assumes "sessions_ok w" and "new_session s p w = (i, w1)"
  shows "i = length (sessions w)" "map_of (sessions w1) i = Some (s, p)" "in_flight w1 = in_flight w" "sessions_ok w1"
    "k < length (sessions w) \<Longrightarrow> map_of (sessions w1) k = map_of (sessions w) k"
proof -
  have w1: "i = length (sessions w)" "w1 = w\<lparr>sessions := (i, (s, p)) # sessions w\<rparr>"
    using assms(2) by (auto simp: new_session_def Let_def)
  show "i = length (sessions w)" "map_of (sessions w1) i = Some (s, p)" "in_flight w1 = in_flight w"
    "k < length (sessions w) \<Longrightarrow> map_of (sessions w1) k = map_of (sessions w) k" by (simp_all add: w1)
  have "map_of (sessions w1) j \<noteq> None \<longleftrightarrow> j < length (sessions w1)" for j
    using assms(1) unfolding sessions_ok_def w1(2) by (cases "j = i") (simp_all add: w1(1) less_Suc_eq)
  then show "sessions_ok w1" unfolding sessions_ok_def by blast
qed

locale server_loop =
  fixes ons :: "('p, 's) dispatch set" and cl :: "'p \<Rightarrow> string option" and p :: 'p
  assumes each_dispatch: "on \<in> ons \<Longrightarrow> event_loop on cl" and accepts_servers: "cl p = None"
begin

lemma accept_inv:
  assumes inv: "loop_inv cl w" and on: "on \<in> ons" and a: "accept on p w = Inr w'"
  shows "loop_inv cl w' \<and> work cl w' = work cl w + 7"
proof -
  obtain i w1 where n: "new_session (BladeSession None) p w = (i, w1)" by fastforce
  have ok: "sessions_ok w" using inv by (simp add: loop_inv_def)
  note new = sessions_new [OF ok n]
  obtain s op where r: "BS_DoReadHeader (BladeSession None) = (s, op)" by fastforce
  have "in_seq (bs_recv (BladeSession None)) = []" by (simp add: BladeSession_def new_buffer_def)
  from DoReadHeader_ready [OF this r] have s: "op = AsyncReadHeader" "op_ready op s" by auto
  have "accept on p w = ExecRead i w1"
    using event_loop.on_start [OF each_dispatch [OF on] new(2) accepts_servers] n by (simp add: accept_def)
  then have w': "w' = start_op i (s, op) w1" using a new(2) r by (simp add: ExecRead_def session_def)
  have l: "map_of (sessions w') i = Some (s, p)" using new(2) by (simp add: w')
  have fl: "in_flight w' = in_flight w @ [(i, op)]" using new(3) by (simp add: w')
  have other: "op_ok cl w' k op' \<and> owner cl w' k = owner cl w k \<and> is_client cl w' k = is_client cl w k"
    "owner cl w k < i" if "(k, op') \<in> set (in_flight w)" for k op'
  proof -
    have k: "op_ok cl w k op'" using that inv by (auto simp: loop_inv_def)
    from owner_less [OF ok k] show "owner cl w k < i" using new(1) by simp
    from owner_less [OF ok k] show "op_ok cl w' k op' \<and> owner cl w' k = owner cl w k \<and> is_client cl w' k = is_client cl w k"
      using new(1,5) by (intro op_ok_cong [OF k]) (simp_all add: w')
  qed
  have i: "op_ok cl w' i op" "owner cl w' i = i" "\<not> is_client cl w' i"
    unfolding op_ok_iffs(1) [where cl = cl, OF l accepts_servers] owner_def is_client_def l using s accepts_servers by auto
  have "map (\<lambda>(i, op). owner cl w' i) (in_flight w) = map (\<lambda>(i, op). owner cl w i) (in_flight w)"
    by (intro map_cong refl) (use other(1) in fastforce)
  moreover have "i \<notin> (\<lambda>(i, op). owner cl w i) ` set (in_flight w)" using other(2) by fastforce
  ultimately have "distinct (map (\<lambda>(i, op). owner cl w' i) (in_flight w'))"
    using inv i(2) by (simp only: fl loop_inv_def map_append distinct_append) simp
  moreover have st: "map (\<lambda>(i, op). stage (is_client cl w' i) op) (in_flight w) = map (\<lambda>(i, op). stage (is_client cl w i) op) (in_flight w)"
    by (intro map_cong refl) (use other(1) in fastforce)
  have "work cl w' = work cl w + 7" unfolding work_def fl map_append sum_list_append st using i(3) s(1) by simp
  moreover have "sessions_ok w'" using new(4) by (simp add: w')
  ultimately show ?thesis using other(1) i(1) by (auto simp: loop_inv_def fl)
qed

lemma complete_inv:
  assumes "loop_inv cl w" and "on \<in> ons" and "(i, op) \<in> set (in_flight w)" and "length got + 40 < 2 ^ 31"
    and "complete on i op ec got w = Inr w'"
  shows "loop_inv cl w' \<and> work cl w' < work cl w"
  using moves_inv [OF assms(1,3) event_loop.complete_moves(2) [OF each_dispatch [OF assms(2)] assms(1,3-5)]] .

lemma work_flight: "length (in_flight w) \<le> work cl w"
proof -
  have "1 \<le> stage c op" for c op by (cases op) simp_all
  then have "length ops \<le> (\<Sum>(i, op) \<leftarrow> ops. stage (is_client cl w i) op)" for ops
    by (induction ops) (auto simp: Suc_le_eq intro: add_less_le_mono [of 0 _ "length _", simplified])
  then show ?thesis by (simp add: work_def)
qed

lemma start_inv: "loop_start w \<Longrightarrow> loop_inv cl w \<and> work cl w = 0"
  by (simp add: loop_start_def loop_inv_def sessions_ok_def work_def)

sublocale invariant_system loop_start "loop_step ons p" "loop_inv cl"
  by unfold_locales (auto simp: start_inv elim!: loop_stepE dest: accept_inv complete_inv)

lemma run_inv: "loop_run ons p a c w \<Longrightarrow> loop_inv cl w \<and> c + work cl w \<le> 7 * a"
proof (induction rule: loop_run.induct)
  case (run_start w)
  then show ?case using start_inv by simp
next
  case (run_accepted a c w on w')
  then show ?case using accept_inv [of w on w'] by simp
next
  case (run_completed a c w on i op got ec w')
  then show ?case using complete_inv [of w on i op got ec w'] by simp
qed

lemma only_bodies_fault:
  assumes "loop_inv cl w" and "on \<in> ons" and "(i, op) \<in> set (in_flight w)" and "\<forall>n. op \<noteq> AsyncReadBody n"
  shows "\<exists>w'. complete on i op ec got w = Inr w'"
  using event_loop.complete_moves(1) [OF each_dispatch [OF assms(2)] assms(1,3,4)] .

text \<open>What the invariant says of two operations in flight.\<close>

lemma separate:
  assumes "loop_inv cl w" and "in_flight w = xs @ (i, op) # ys" and "(j, op') \<in> set (xs @ ys)"
  shows "j \<noteq> i \<and> j \<noteq> owner cl w i \<and> owner cl w j \<noteq> owner cl w i"
proof -
  have "owner cl w j \<in> (\<lambda>(i, op). owner cl w i) ` set (xs @ ys)" using assms(3) by force
  moreover have "owner cl w i \<notin> (\<lambda>(i, op). owner cl w i) ` set (xs @ ys)"
    using assms(1) unfolding loop_inv_def assms(2) set_append image_Un by simp
  ultimately have "owner cl w j \<noteq> owner cl w i" by auto
  moreover have "op_ok cl w j op'" "op_ok cl w i op" using assms by (auto simp: loop_inv_def)
  ultimately show ?thesis using other_owner by metis
qed

end

lemma write_moves_server:
  assumes "sessions_ok w" and "map_of (sessions w) i = Some (s, p)" and "cl p = None" and "ExecWrite i w = Inr w'"
  shows "moves cl w i 6 w'"
proof -
  from assms(2) have "session i w = Inr s" by (auto simp: session_lookup)
  from ExecWrite_started [OF assms(4) this] obtain t m n where w': "w' = start_op i (t, AsyncWrite m n) w" by blast
  have "i = owner cl w i" using assms(2,3) by (simp add: owner_def)
  from moves_server [where cl = cl, OF assms(1,2,3) this] show ?thesis unfolding w' by simp
qed

text \<open>What every handler keeps of the state of the process, every step of the loop keeps.\<close>

lemma complete_process:
  assumes "\<And>e i w w'. on e i w = Inr w' \<Longrightarrow> P (process w) \<Longrightarrow> P (process w')"
    and "complete on i op ec got w = Inr w'" and "P (process w)"
  shows "P (process w')"
  using assms(2,3) assms(1)
  by (cases op) (fastforce simp: complete_def connect_done_def write_done_def header_done_def body_done_def Let_def
      and_then_Inr_iff split: if_splits)+

lemma loop_step_process:
  assumes "\<And>on e i w w'. on \<in> ons \<Longrightarrow> on e i w = Inr w' \<Longrightarrow> P (process w) \<Longrightarrow> P (process w')"
    and "loop_step ons p w w'" and "P (process w)"
  shows "P (process w')"
  using assms(2)
proof (cases rule: loop_step.cases)
  case (accepted on)
  obtain i w1 where n: "new_session (BladeSession None) p w = (i, w1)" by fastforce
  then have "process w1 = process w" by (auto simp: new_session_def Let_def)
  with accepted n assms(1) [of on OnStart i w1 w'] assms(3) show ?thesis by (simp add: accept_def)
next
  case (completed on i op got ec)
  show ?thesis by (rule complete_process [where P = P, OF _ completed(4) assms(3)]) (rule assms(1) [OF completed(1)])
qed

section \<open>The loops of the service processes\<close>

lemma same_process [simp]: "\<exists>st. w = w\<lparr>process := st\<rparr>"
  by (rule exI [of _ "process w"]) simp

text \<open>ice and chaos: every session has a service policy, and none is a client.\<close>

lemma service_loop: "event_loop (service_dispatch g) (\<lambda>_. None)"
proof
  fix w :: "('a service_policy, 'a) world" and i e
  show "\<exists>st. service_dispatch g e i w = Inr (w\<lparr>process := st\<rparr>)" if l: "map_of (sessions w) i \<noteq> None" and e: "is_error e"
  proof -
    obtain s p where "map_of (sessions w) i = Some (s, p)" using l by (cases "map_of (sessions w) i") auto
    moreover have "\<exists>st. Service_on p g e i w = Inr (w\<lparr>process := st\<rparr>)"
      using e by (cases e) (auto simp: Service_on_def)
    ultimately show ?thesis by (simp add: service_dispatch_def)
  qed
next
  fix w :: "('a service_policy, 'a) world" and i s p w'
  assume l: "map_of (sessions w) i = Some (s, p)" and ok: "sessions_ok w"
    and r: "service_dispatch g OnRecvWholeBladeObject i w = Inr w'"
  then obtain q st where q: "ExecWrite i (set_session i (BS_SetBladeObject q s) (w\<lparr>process := st\<rparr>)) = Inr w'"
    by (auto simp: service_dispatch_def Service_on_def session_def and_then_Inr_iff)
  let ?w = "set_session i (BS_SetBladeObject q s) (w\<lparr>process := st\<rparr>)"
  have "moves (\<lambda>_. None) ?w i 6 w'"
    by (rule write_moves_server [OF _ _ _ q]) (use l ok in simp_all)
  then have "moves (\<lambda>_. None) (w\<lparr>process := st\<rparr>) i 6 w'" by (rule moves_set [rotated -1]) (use l in simp_all)
  then show "moves (\<lambda>_. None) w i 6 w'" by simp
qed (simp_all add: service_dispatch_def Service_on_def)

interpretation services: server_loop "range service_dispatch" "\<lambda>_. None" pol for pol
proof (rule server_loop.intro)
  show "event_loop on (\<lambda>_. None)" if "on \<in> range service_dispatch" for on
    using that by (elim rangeE) (simp only: service_loop)
qed simp

text \<open>So no message header, and no failed write, ends a process of the ice or chaos kind either.\<close>

lemma services_only_bodies_fault:
  assumes "reach loop_start (loop_step (range service_dispatch) pol) w" and "(i, op) \<in> set (in_flight w)"
    and "\<forall>n. op \<noteq> AsyncReadBody n"
  shows "\<exists>w'. complete (service_dispatch g) i op ec got w = Inr w'"
  using services.only_bodies_fault [OF services.inv_reach [OF assms(1)] rangeI assms(2,3)] .

end
