(* ===== verification/Atreus_Process.thy ===== *)
theory Atreus_Process
  imports Atreus_Watchdog Blade_Server
begin

text \<open>
  atreus/atreus.cc, core/kartos.cc and core/loki.cc: the process that runs the two servers and the watchdog in
  three threads on one registry and one set of counters. The event loops of the two servers provide the
  contract of \<open>Blade_Server\<close>; the process interleaves the steps of the three loops.
\<close>

section \<open>The event loops of Kartos and Loki\<close>

fun client_name :: "atreus_policy \<Rightarrow> string option" where
  "client_name (ClientPolicy n) = Some n"
| "client_name _ = None"

lemma client_name_None: "client_name p = None \<longleftrightarrow> p \<in> {KartosPolicy, LokiPolicy}"
  by (cases p) simp_all

lemma father_on_iffs:
  "map_of (sessions w) i = Some (s, KartosPolicy) \<Longrightarrow> father_on env e i w = Kartos_on env e i w"
  "map_of (sessions w) i = Some (s, LokiPolicy) \<Longrightarrow> father_on env e i w = Loki_on env e i w"
  by (simp_all add: father_on_def)

lemma Atreus_on_iffs:
  "map_of (sessions w) i = Some (s, KartosPolicy) \<Longrightarrow> Atreus_on env e i w = Kartos_on env e i w"
  "map_of (sessions w) i = Some (s, LokiPolicy) \<Longrightarrow> Atreus_on env e i w = Loki_on env e i w"
  "map_of (sessions w) i = Some (s, ClientPolicy n) \<Longrightarrow> Atreus_on env e i w = Client_on n (father_on env) e i w"
  by (simp_all add: Atreus_on_def father_on_def)

text \<open>The session of a request: an accepted session that holds a decoded object.\<close>

definition request_session :: "atreus_world \<Rightarrow> nat \<Rightarrow> blade_object \<Rightarrow> bool" where
  "request_session w i q \<longleftrightarrow> sessions_ok w \<and> obj_fits q
     \<and> (\<exists>s p. map_of (sessions w) i = Some (s, p) \<and> client_name p = None \<and> bs_obj s = Some q)"

lemma request_session_process [simp]: "request_session (w\<lparr>process := st\<rparr>) i q = request_session w i q"
  by (simp add: request_session_def)

lemma request_refl [simp]: "request_session w i q \<Longrightarrow> moves client_name w i 6 w"
  by (simp add: request_session_def moves_refl)

lemma start_child_moves:
  assumes "request_session w i q" and "start_child n ep i w = Inr w'"
  shows "moves client_name w i 6 w'"
proof -
  from assms(1) obtain s p where s: "sessions_ok w" "obj_fits q" "map_of (sessions w) i = Some (s, p)"
    "client_name p = None" "bs_obj s = Some q" by (auto simp: request_session_def)
  let ?c = "BS_Hold n i (BladeSession (Some ep))"
  obtain k w1 where n: "new_session ?c (ClientPolicy n) w = (k, w1)" by fastforce
  note new = sessions_new [OF s(1) n]
  have w': "w' = start_op k (?c, AsyncConnect) w1"
    using assms(2) n new(2) by (simp add: start_child_def Client_on_def ExecConnect_def BS_DoConnect_def session_def)
  have i: "i < length (sessions w)" using sessions_ok_less [OF s(1,3)] .
  have l: "map_of (sessions w') k = Some (?c, ClientPolicy n)" "map_of (sessions w') i = Some (s, p)"
    using new(1,2,5) i s(3) by (simp_all add: w')
  have g: "BS_GetSession n ?c = Some i" "in_seq (bs_send ?c) = []" "in_seq (bs_recv ?c) = []"
    by (simp_all add: BS_GetSession_def BS_Hold_def BladeSession_def map_of_emplace new_buffer_def)
  have "father_ready client_name w' AsyncConnect i"
    unfolding father_ready_def l(2) using s(2,4,5) by simp
  then have "op_ok client_name w' k AsyncConnect"
    unfolding op_ok_iffs(2) [where cl = client_name, OF l(1) client_name.simps(1)] using g by simp
  moreover have "owner client_name w' k = i" "is_client client_name w' k"
    unfolding owner_def is_client_def l(1) using g(1) by auto
  moreover have "owner client_name w i = i" unfolding owner_def s(3) using s(4) by simp
  moreover have "map_of (sessions w') j = map_of (sessions w) j" if "j < length (sessions w)" for j
    using new(1) new(5) [OF that] that by (simp add: w')
  moreover have "in_flight w' = in_flight w @ [(k, AsyncConnect)]" "sessions_ok w'" using new(3,4) by (simp_all add: w')
  ultimately show ?thesis by (simp add: moves_def)
qed

lemma request_write:
  assumes "request_session w i q" and "ExecWrite i w = Inr w'"
  shows "moves client_name w i 6 w'"
  using assms write_moves_server [where cl = client_name] by (auto simp: request_session_def)

text \<open>What is left of the world after a \<^verbatim>\<open>try\<close> block, whether it threw or not.\<close>

lemma finish_moves:
  assumes "moves client_name w i 6 w1" and "\<And>w'. r = Inr w' \<Longrightarrow> moves client_name w i 6 w'"
  shows "moves client_name w i 6 (snd (finish r w1))"
  using assms by (cases r) simp_all

lemma attempt_moves:
  assumes "moves client_name w i 6 w1" and "\<And>x. r = Inr x \<Longrightarrow> moves client_name w i 6 (snd (f x))"
  shows "moves client_name w i 6 (snd (attempt r w1 f))"
  using assms by (cases r) simp_all

lemma Kartos_try_moves:
  assumes "request_session w i q"
  shows "moves client_name w i 6 (snd (Kartos_try env i q w))"
proof -
  have w: "moves client_name w i 6 w" using assms by simp
  have child: "moves client_name w i 6 w'" if "start_child n ep i (w\<lparr>process := st\<rparr>) = Inr w'" for n ep st w'
    using start_child_moves [OF _ that] assms by simp
  show ?thesis unfolding Kartos_try_def Let_def
    using w child by (auto intro!: attempt_moves finish_moves split: prod.splits option.splits)
qed

lemma Loki_no_service_moves:
  assumes "request_session w i q"
  shows "moves client_name w i 6 (snd (Loki_no_service env i q w))"
proof -
  have w: "moves client_name w i 6 w" using assms by simp
  from assms obtain s p where s: "map_of (sessions w) i = Some (s, p)" "client_name p = None" "sessions_ok w"
    by (auto simp: request_session_def)
  have "moves client_name w i 6 (set_session i (BS_SetBladeObject r s) (w\<lparr>process := st\<rparr>))" for r st
  proof -
    have "moves client_name (w\<lparr>process := st\<rparr>) i 6 (set_session i (BS_SetBladeObject r s) (w\<lparr>process := st\<rparr>))"
      by (rule moves_self [where s = s and p = p]) (use s in \<open>simp_all add: BS_SetBladeObject_def\<close>)
    then show ?thesis by simp
  qed
  moreover have "moves client_name w i 6 w'"
    if e: "ExecWrite i (set_session i (BS_SetBladeObject r s) (w\<lparr>process := st\<rparr>)) = Inr w'" for r st w'
  proof -
    let ?v = "set_session i (BS_SetBladeObject r s) (w\<lparr>process := st\<rparr>)"
    have "moves client_name ?v i 6 w'" by (rule write_moves_server [where cl = client_name, OF _ _ s(2) e]) (use s in simp_all)
    then have "moves client_name (w\<lparr>process := st\<rparr>) i 6 w'"
      by (rule moves_set [where s = s and p = p and s' = "BS_SetBladeObject r s", rotated -1])
        (use s in \<open>simp_all add: BS_SetBladeObject_def\<close>)
    then show ?thesis by simp
  qed
  moreover have "session i (w\<lparr>process := st\<rparr>) = Inr s" for st using s(1) by (simp add: session_def)
  ultimately show ?thesis unfolding Loki_no_service_def Let_def
    using w by (auto intro!: attempt_moves finish_moves)
qed

lemma Loki_try_moves:
  assumes "request_session w i q"
  shows "moves client_name w i 6 (snd (Loki_try env i q w))"
proof -
  have w: "moves client_name w i 6 w" using assms by simp
  have child: "moves client_name w i 6 w'" if "start_child n ep i w = Inr w'" for n ep w'
    using start_child_moves [OF assms that] .
  have out: "moves client_name w i 6 w'" if e: "ExecWrite i (w\<lparr>process := st\<rparr>) = Inr w'" for st w'
    using request_write [OF _ e, of q] assms by simp
  have "moves client_name w i 6 (snd (Loki_register env i q w))"
    unfolding Loki_register_def Let_def using w out by (auto intro!: attempt_moves finish_moves)
  moreover have "moves client_name w i 6 (snd (Loki_deregister env i q w))"
    unfolding Loki_deregister_def Let_def using w out by (auto intro!: attempt_moves finish_moves)
  moreover have "moves client_name w i 6 (snd (Loki_request env i q w))"
    unfolding Loki_request_def Let_def using w child Loki_no_service_moves [OF assms]
    by (auto intro!: attempt_moves finish_moves split: option.splits)
  ultimately show ?thesis using w by (simp add: Loki_try_def)
qed

lemma catch_if_snd: "catch_if c r = Inr w' \<Longrightarrow> w' = snd r"
  by (cases r) (auto simp: catch_if_def split: option.splits if_splits)

lemma request_moves:
  assumes l: "map_of (sessions w) i = Some (s, p)" and p: "client_name p = None" and ok: "sessions_ok w"
    and q: "\<forall>q. bs_obj s = Some q \<longrightarrow> obj_fits q" and r: "Atreus_on env OnRecvWholeBladeObject i w = Inr w'"
  shows "moves client_name w i 6 w'"
proof (cases "bs_obj s")
  case None
  with l p r show ?thesis
    by (auto simp: client_name_None Atreus_on_iffs Kartos_on_def Loki_on_def Kartos_OnRecv_def Loki_OnRecv_def session_def)
next
  case (Some q')
  with l p ok q have req: "request_session w i q'" by (simp add: request_session_def)
  from Some l p r have "w' = snd (Kartos_try env i q' w) \<or> w' = snd (Loki_try env i q' w)"
    by (auto simp: client_name_None Atreus_on_iffs Kartos_on_def Loki_on_def Kartos_OnRecv_def Loki_OnRecv_def session_def
        dest: catch_if_snd)
  with Kartos_try_moves [OF req, of env] Loki_try_moves [OF req, of env] show ?thesis by auto
qed

lemma atreus_loop: "event_loop (Atreus_on env) client_name"
proof
  fix w :: atreus_world and i e
  assume l: "map_of (sessions w) i \<noteq> None" and e: "is_error e"
  obtain s p where sp: "map_of (sessions w) i = Some (s, p)" using l by (cases "map_of (sessions w) i") auto
  show "\<exists>st. Atreus_on env e i w = Inr (w\<lparr>process := st\<rparr>)"
    using sp e by (cases p; cases e) (simp_all add: Atreus_on_iffs Kartos_on_def Loki_on_def Client_on_def)
next
  fix w :: atreus_world and i s p n f sf pf w'
  assume l: "map_of (sessions w) i = Some (s, p)" "client_name p = Some n" "BS_GetSession n s = Some f"
    "map_of (sessions w) f = Some (sf, pf)" "client_name pf = None" "Atreus_on env OnRecvWholeBladeObject i w = Inr w'"
  then have p: "p = ClientPolicy n" by (cases p) simp_all
  from l p obtain q where q: "father_on env (OnChildDie i) f (set_session f (BS_SetBladeObject (Some q) sf) w) = Inr w'"
    by (auto simp: Atreus_on_iffs Client_on_def session_def Clone_def split: option.splits)
  moreover have "map_of (sessions (set_session f (BS_SetBladeObject (Some q) sf) w)) f = Some (BS_SetBladeObject (Some q) sf, pf)"
    using l(4) by simp
  ultimately show "\<exists>q. ExecWrite f (set_session f (BS_SetBladeObject q sf) w) = Inr w'"
    using l(5) by (auto simp: client_name_None father_on_iffs Kartos_on_def Loki_on_def)
next
  fix w :: atreus_world and i s p
  assume l: "map_of (sessions w) i = Some (s, p)"
  show "Atreus_on env OnStart i w = ExecRead i w" if "client_name p = None"
    using that l by (auto simp: client_name_None Atreus_on_iffs Kartos_on_def Loki_on_def)
  show "Atreus_on env OnWrote i w = (if client_name p = None then Inr w else ExecRead i w)"
    using l by (cases p) (simp_all add: Atreus_on_iffs Kartos_on_def Loki_on_def Client_on_def)
  show "Atreus_on env OnConnected i w = ExecWrite i (set_session i (BS_SetBladeObject (Some (Clone q)) s) w)"
    if "client_name p = Some n" "BS_GetSession n s = Some f" "map_of (sessions w) f = Some (sf, pf)" "bs_obj sf = Some q" for n f sf pf q
    using that l by (cases p) (simp_all add: Atreus_on_iffs Client_on_def session_def)
  show "moves client_name w i 6 w'" if "client_name p = None" "sessions_ok w" "\<forall>q. bs_obj s = Some q \<longrightarrow> obj_fits q"
    "Atreus_on env OnRecvWholeBladeObject i w = Inr w'" for w'
    using request_moves [OF l that] .
qed

section \<open>The process\<close>

definition Kartos :: "atreus_policy blade_server" where "Kartos = BladeServer kKartosPort KartosPolicy"
definition Loki :: "atreus_policy blade_server" where "Loki = BladeServer kLokiPort LokiPolicy"

interpretation kartos: server_loop "range Atreus_on" client_name KartosPolicy
proof (rule server_loop.intro)
  show "event_loop on client_name" if "on \<in> range Atreus_on" for on
    using that by (elim rangeE) (simp only: atreus_loop)
qed simp

interpretation loki: server_loop "range Atreus_on" client_name LokiPolicy
proof (rule server_loop.intro)
  show "event_loop on client_name" if "on \<in> range Atreus_on" for on by (rule kartos.each_dispatch [OF that])
qed simp

text \<open>
  The three threads that \<^verbatim>\<open>main\<close> starts. A thread runs one handler or one task at a time, on the registry and the
  counters that it shares with the two others; the critical sections of the others that fall inside a
  handler are the \<open>others\<close> of its \<open>atreus_env\<close>, which may differ from step to step like the network. When the timers
  run the two tasks of the watchdog is in \<open>Atreus_Watchdog\<close>. A fault in any thread ends the process: there is no step.
\<close>

record atreus_process =
  kartos_loop :: atreus_world
  loki_loop :: atreus_world
  shared :: atreus_state

inductive atreus_step :: "atreus_process \<Rightarrow> atreus_process \<Rightarrow> bool" where
  kartos_runs: "accept_policy Kartos = Some pol \<Longrightarrow>
    loop_step (range Atreus_on) pol ((kartos_loop a)\<lparr>process := shared a\<rparr>) w \<Longrightarrow>
    atreus_step a (a\<lparr>kartos_loop := w, shared := process w\<rparr>)"
| loki_runs: "accept_policy Loki = Some pol \<Longrightarrow>
    loop_step (range Atreus_on) pol ((loki_loop a)\<lparr>process := shared a\<rparr>) w \<Longrightarrow>
    atreus_step a (a\<lparr>loki_loop := w, shared := process w\<rparr>)"
| watchdog_checks: "Watchdog_Check env (shared a) = Inr st \<Longrightarrow> atreus_step a (a\<lparr>shared := st\<rparr>)"
| watchdog_reports: "Watchdog_Report env (shared a) = Inr st \<Longrightarrow> atreus_step a (a\<lparr>shared := st\<rparr>)"

inductive_cases atreus_stepE: "atreus_step a a'"

definition atreus_start :: "atreus_process \<Rightarrow> bool" where
  "atreus_start a \<longleftrightarrow> loop_start (kartos_loop a) \<and> loop_start (loki_loop a)
     \<and> at_services (shared a) = [] \<and> at_data (shared a) = new_dm"

section \<open>The shared state\<close>

definition shared_ok :: "atreus_state \<Rightarrow> bool" where
  "shared_ok st \<longleftrightarrow> kv_wf (at_services st) \<and> dm_ok (at_data st)"

lemma count_add_dm:
  "dm_ok dm \<Longrightarrow> AtreusDM_DoQuery n dm = Inr dm' \<Longrightarrow> dm_ok dm'"
  "dm_ok dm \<Longrightarrow> AtreusDM_DoError n dm = Inr dm' \<Longrightarrow> dm_ok dm'"
  "dm_ok dm \<Longrightarrow> AtreusDM_DoShutdown n dm = Inr dm' \<Longrightarrow> dm_ok dm'"
  using atreus_querys.bump_Inr [of dm n 1 dm'] atreus_errors.bump_Inr [of dm n 1 dm'] atreus_shutdowns.bump_Inr [of dm n 1 dm']
  by (simp_all add: AtreusDM_DoQuery_def AtreusDM_DoError_def AtreusDM_DoShutdown_def)

lemma DoBytes_dm: "dm_ok dm \<Longrightarrow> AtreusDM_DoBytes n k dm = Inr dm' \<Longrightarrow> dm_ok dm'"
  using counts.bump_Inr [of "bytes dm" n k]
  by (auto simp: AtreusDM_DoBytes_def and_then_Inr_iff dm_ok_def counts_ok_half)

lemma AtreusSM_wf:
  "kv_wf s \<Longrightarrow> kv_wf (AtreusSM_Register n p s)"
  "kv_wf s \<Longrightarrow> kv_wf (AtreusSM_Deregister secs n s)"
  "kv_wf s \<Longrightarrow> kv_wf (snd (AtreusSM_Query secs n s))"
  using sm_exec_wf [of s secs] by (auto simp: sm_defs)

lemma shared_ok_updates:
  "shared_ok st \<Longrightarrow> dm_ok dm \<Longrightarrow> shared_ok (st\<lparr>at_data := dm\<rparr>)"
  "shared_ok st \<Longrightarrow> kv_wf s \<Longrightarrow> shared_ok (st\<lparr>at_services := s\<rparr>)"
  by (simp_all add: shared_ok_def)

lemma attempt_shared:
  assumes "shared_ok (process w)" and "\<And>x. r = Inr x \<Longrightarrow> shared_ok (process (snd (f x)))"
  shows "shared_ok (process (snd (attempt r w f)))"
  using assms by (cases r) simp_all

lemma finish_shared:
  assumes "shared_ok (process w)" and "\<And>w'. r = Inr w' \<Longrightarrow> process w' = process w"
  shows "shared_ok (process (snd (finish r w)))"
  using assms by (cases r) simp_all

lemma Exec_process:
  "ExecRead i w = Inr w' \<Longrightarrow> process w' = process w" "ExecWrite i w = Inr w' \<Longrightarrow> process w' = process w"
  "ExecConnect i w = Inr w' \<Longrightarrow> process w' = process w"
  by (auto simp: ExecRead_def ExecWrite_def ExecConnect_def and_then_Inr_iff)

lemma start_child_process: "start_child n ep i w = Inr w' \<Longrightarrow> process w' = process w"
  by (auto simp: start_child_def Client_on_def new_session_def Let_def dest: Exec_process)

lemma forward_shared:
  assumes "shared_ok (process w)"
  shows "shared_ok (process (snd (attempt r w (\<lambda>ep. finish (start_child n ep i w) w))))"
  by (rule attempt_shared [OF assms], rule finish_shared [OF assms]) (rule start_child_process)

lemma Kartos_try_shared:
  assumes ok: "shared_ok (process w)"
  shows "shared_ok (process (snd (Kartos_try env i q w)))"
proof -
  let ?st = "process w"
  have fwd: "shared_ok (process (snd (case prt of None \<Rightarrow> (Some InvalidArgument, v)
      | Some prt \<Rightarrow> attempt (r prt) v (\<lambda>ep. finish (start_child ''kartos'' ep i v) v))))"
    if "shared_ok (process v)" for v prt r using that forward_shared by (simp split: option.split)
  have dm: "shared_ok (?st\<lparr>at_data := dm\<rparr>)" "dm_ok dm" if "AtreusDM_DoQuery n (at_data ?st) = Inr dm" for n dm
    using ok count_add_dm(1) [OF _ that] by (simp_all add: shared_ok_def)
  have query: "shared_ok (?st\<lparr>at_data := dm', at_services := snd (AtreusSM_Query secs n (at_services ?st))\<rparr>)"
    if "AtreusDM_DoQuery n (at_data ?st) = Inr dm" "AtreusDM_DoBytes n k dm = Inr dm'" for n k dm dm' secs
    using ok DoBytes_dm [OF dm(2) [OF that(1)] that(2)] AtreusSM_wf(3) [of "at_services ?st" secs n] by (simp add: shared_ok_def)
  show ?thesis
  proof (cases "GetType q = kBTRequest")
    case True
    show ?thesis unfolding Kartos_try_def Let_def split_beta if_P [OF True]
      by (intro attempt_shared fwd) (simp_all add: ok dm query)
  qed (simp add: Kartos_try_def ok)
qed

lemma write_shared:
  assumes "shared_ok (process w)"
  shows "shared_ok (process (snd (attempt r w (\<lambda>_. finish (ExecWrite i w) w))))"
  by (rule attempt_shared [OF assms], rule finish_shared [OF assms]) (rule Exec_process)

lemma Loki_no_service_shared:
  assumes ok: "shared_ok (process w)"
  shows "shared_ok (process (snd (Loki_no_service env i q w)))"
proof -
  have dm: "shared_ok (process w\<lparr>at_data := dm\<rparr>)" if "AtreusDM_DoError n (at_data (process w)) = Inr dm" for n dm
    using ok count_add_dm(2) [OF _ that] by (simp add: shared_ok_def)
  show ?thesis unfolding Loki_no_service_def Let_def
    by (intro attempt_shared finish_shared) (simp_all add: ok dm Exec_process)
qed

lemma Loki_try_shared:
  assumes ok: "shared_ok (process w)"
  shows "shared_ok (process (snd (Loki_try env i q w)))"
proof -
  have "shared_ok (process (snd (Loki_register env i q w)))"
    unfolding Loki_register_def Let_def using ok AtreusSM_wf(1) [of "at_services (process w)"]
    by (intro attempt_shared write_shared) (simp_all add: shared_ok_def)
  moreover have "shared_ok (process (snd (Loki_deregister env i q w)))"
    unfolding Loki_deregister_def Let_def using ok AtreusSM_wf(2) [of "at_services (process w)"]
    by (intro write_shared) (simp add: shared_ok_def)
  moreover have "shared_ok (process (snd (Loki_request env i q w)))"
    unfolding Loki_request_def Let_def
    using ok Loki_no_service_shared [OF ok] start_child_process
    by (auto intro!: attempt_shared finish_shared split: option.split)
  ultimately show ?thesis using ok by (simp add: Loki_try_def)
qed

lemma father_on_shared:
  assumes "father_on env e i w = Inr w'" and "shared_ok (process w)"
  shows "shared_ok (process w')"
proof -
  from assms(1) have "Kartos_on env e i w = Inr w' \<or> Loki_on env e i w = Inr w'"
    by (auto simp: father_on_def split: option.splits prod.splits atreus_policy.splits)
  then consider (k) "Kartos_OnRecv env i w = Inr w'" | (l) "Loki_OnRecv env i w = Inr w'" | (e) "process w' = process w"
    by (cases e) (auto simp: Kartos_on_def Loki_on_def dest: Exec_process)
  then show ?thesis
  proof cases
    case k
    then obtain q where "w' = snd (Kartos_try env i q w)"
      by (auto simp: Kartos_OnRecv_def and_then_Inr_iff split: option.splits dest: catch_if_snd)
    with Kartos_try_shared [OF assms(2)] show ?thesis by simp
  next
    case l
    then obtain q where "w' = snd (Loki_try env i q w)"
      by (auto simp: Loki_OnRecv_def and_then_Inr_iff split: option.splits dest: catch_if_snd)
    with Loki_try_shared [OF assms(2)] show ?thesis by simp
  qed (use assms(2) in simp)
qed

lemma Atreus_on_shared:
  assumes "Atreus_on env e i w = Inr w'" and "shared_ok (process w)"
  shows "shared_ok (process w')"
proof -
  from assms(1) consider "father_on env e i w = Inr w'" | n where "Client_on n (father_on env) e i w = Inr w'"
    by (auto simp: Atreus_on_def split: option.splits prod.splits atreus_policy.splits)
  then show ?thesis
  proof cases
    case 2
    show ?thesis
    proof (cases "e = OnRecvWholeBladeObject")
      case True
      with 2 obtain s where s: "session i w = Inr s" by (cases "session i w") (simp_all add: Client_on_def)
      with 2 True obtain f r where "father_on env (OnChildDie i) f (set_session f r w) = Inr w'"
        by (cases "bs_obj s"; cases "BS_GetSession n s"; cases "session (the (BS_GetSession n s)) w") (auto simp: Client_on_def)
      from father_on_shared [OF this] assms(2) show ?thesis by simp
    next
      case False
      with 2 have "process w' = process w"
        by (cases e) (auto simp: Client_on_def and_then_Inr_iff split: option.splits dest!: Exec_process)
      with assms(2) show ?thesis by simp
    qed
  qed (use father_on_shared assms(2) in blast)
qed

section \<open>Reachable states\<close>

lemma deregister_dead_shared: "shared_ok st \<Longrightarrow> deregister_dead env k need st = Inr st' \<Longrightarrow> shared_ok st'"
proof (induction env k need st rule: deregister_dead.induct)
  case (2 env k i need st)
  then show ?case
    by (auto simp: Let_def and_then_Inr_iff shared_ok_def Deregister_UNSAFE_wf dest: count_add_dm(3) split: prod.splits)
qed simp

lemma watchdog_shared:
  assumes "shared_ok st"
  shows "Watchdog_Check env st = Inr st' \<Longrightarrow> shared_ok st'" "Watchdog_Report env st = Inr st' \<Longrightarrow> shared_ok st'"
proof -
  show "shared_ok st'" if "Watchdog_Check env st = Inr st'"
    using that deregister_dead_shared [OF assms] by (auto simp: Watchdog_Check_def and_then_Inr_iff)
  show "shared_ok st'" if "Watchdog_Report env st = Inr st'"
    using that assms by (auto simp: Watchdog_Report_def dm_report_defs and_then_Inr_iff shared_ok_def dm_ok_def)
qed

definition process_inv :: "atreus_process \<Rightarrow> bool" where
  "process_inv a \<longleftrightarrow> loop_inv client_name (kartos_loop a) \<and> loop_inv client_name (loki_loop a) \<and> shared_ok (shared a)"

lemma loop_inv_process [simp]: "loop_inv cl (w\<lparr>process := st\<rparr>) = loop_inv cl w"
  by (simp add: loop_inv_def)

lemma loop_shared: "loop_step (range Atreus_on) p w w' \<Longrightarrow> shared_ok (process w) \<Longrightarrow> shared_ok (process w')"
  by (rule loop_step_process [where P = shared_ok]) (auto dest: Atreus_on_shared)

lemma atreus_inv_step:
  assumes "process_inv a" and "atreus_step a a'"
  shows "process_inv a'"
  using assms(2)
proof (cases rule: atreus_step.cases)
  case (kartos_runs pol w)
  then have s: "loop_step (range Atreus_on) KartosPolicy ((kartos_loop a)\<lparr>process := shared a\<rparr>) w"
    by (simp add: Kartos_def BladeServer_def)
  show ?thesis using kartos.inv_step [OF _ s] loop_shared [OF s] assms(1) kartos_runs(1) by (simp add: process_inv_def)
next
  case (loki_runs pol w)
  then have s: "loop_step (range Atreus_on) LokiPolicy ((loki_loop a)\<lparr>process := shared a\<rparr>) w"
    by (simp add: Loki_def BladeServer_def)
  show ?thesis using loki.inv_step [OF _ s] loop_shared [OF s] assms(1) loki_runs(1) by (simp add: process_inv_def)
next
  case (watchdog_checks env st)
  with watchdog_shared(1) [OF _ watchdog_checks(2)] assms(1) show ?thesis by (simp add: process_inv_def)
next
  case (watchdog_reports env st)
  with watchdog_shared(2) [OF _ watchdog_reports(2)] assms(1) show ?thesis by (simp add: process_inv_def)
qed

interpretation atreus: invariant_system atreus_start atreus_step process_inv
proof
  show "process_inv a" if "atreus_start a" for a
    using that by (simp add: atreus_start_def process_inv_def kartos.start_inv shared_ok_def kv_wf_def dm_ok_def new_dm_def)
qed (rule atreus_inv_step)

text \<open>Accepting never fails, and starts the read of a header.\<close>

lemma accept_reads:
  assumes "sessions_ok w" and "client_name p = None"
  obtains w' where "accept (Atreus_on env) p w = Inr w'" "sessions_ok w'" "length (sessions w') = Suc (length (sessions w))"
    "in_flight w' = in_flight w @ [(length (sessions w), AsyncReadHeader)]" "process w' = process w"
proof -
  obtain i w1 where n: "new_session (BladeSession None) p w = (i, w1)" by fastforce
  note new = sessions_new [OF assms(1) n]
  have w1: "length (sessions w1) = Suc (length (sessions w))" "process w1 = process w"
    using n by (auto simp: new_session_def Let_def)
  have "Atreus_on env OnStart i w1 = ExecRead i w1" using event_loop.on_start [OF atreus_loop new(2) assms(2)] .
  then have "accept (Atreus_on env) p w = Inr (start_op i (BS_DoReadHeader (BladeSession None)) w1)"
    using n new(2) by (simp add: accept_def ExecRead_def session_def)
  then show thesis by (rule that) (use new w1 in \<open>simp_all add: BS_DoReadHeader_def\<close>)
qed

definition fresh_world :: atreus_world where
  "fresh_world = \<lparr>sessions = [], in_flight = [], process = demo_state\<rparr>"

lemma two_connections:
  obtains a where "reach atreus_start atreus_step a" "in_flight (kartos_loop a) = [(0, AsyncReadHeader), (1, AsyncReadHeader)]"
proof -
  let ?st = "\<lparr>at_services = [], at_data = new_dm\<rparr>"
  let ?a = "\<lparr>kartos_loop = fresh_world, loki_loop = fresh_world, shared = ?st\<rparr>"
  let ?w = "fresh_world\<lparr>process := ?st\<rparr>" and ?env = "demo_env no_ice"
  have 0: "reach atreus_start atreus_step ?a"
    by (rule reach_init) (simp add: atreus_start_def loop_start_def fresh_world_def)
  have pol: "accept_policy Kartos = Some KartosPolicy" by (simp add: Kartos_def BladeServer_def)
  have "sessions_ok ?w" by (simp add: sessions_ok_def fresh_world_def)
  then obtain w1 where w1: "accept (Atreus_on ?env) KartosPolicy ?w = Inr w1" "sessions_ok w1" "length (sessions w1) = 1"
    "in_flight w1 = [(0, AsyncReadHeader)]" "process w1 = ?st"
    by (rule accept_reads [of ?w KartosPolicy ?env]) (simp_all add: fresh_world_def)
  let ?a1 = "?a\<lparr>kartos_loop := w1, shared := process w1\<rparr>"
  have "atreus_step ?a ?a1"
    by (rule kartos_runs [OF pol], rule loop_step.accepted [of "Atreus_on ?env"]) (use w1(1) in simp_all)
  with 0 have 1: "reach atreus_start atreus_step ?a1" by (rule reach_step)
  obtain w2 where w2: "accept (Atreus_on ?env) KartosPolicy w1 = Inr w2"
    "in_flight w2 = [(0, AsyncReadHeader), (1, AsyncReadHeader)]"
    by (rule accept_reads [of w1 KartosPolicy ?env]) (use w1 in simp_all)
  have s: "loop_step (range Atreus_on) KartosPolicy w1 w2" by (rule loop_step.accepted [of "Atreus_on ?env"]) (use w2(1) in simp_all)
  have "(kartos_loop ?a1)\<lparr>process := shared ?a1\<rparr> = w1" by (cases w1) simp
  with kartos_runs [OF pol, of ?a1 w2] s have "atreus_step ?a1 (?a1\<lparr>kartos_loop := w2, shared := process w2\<rparr>)" by metis
  with 1 have "reach atreus_start atreus_step (?a1\<lparr>kartos_loop := w2, shared := process w2\<rparr>)" by (rule reach_step)
  then show thesis by (rule that) (use w2(2) in simp)
qed

text \<open>
  C11. The connections of a server do not get into each other's way. In every reachable state of an atreus process, each
  operation in flight belongs to a session that exists, and a client session to a father that exists and
  was accepted; any two operations in flight work for different connections. So no session
  has two operations on its buffers at once, a father is not touched while its client session runs, and
  no two client sessions answer to the same father. The registry and the counters that the three threads share stay
  well formed.
\<close>

theorem Atreus_connections_separate:
  assumes "reach atreus_start atreus_step a" and "w \<in> {kartos_loop a, loki_loop a}"
    and "in_flight w = xs @ (i, op) # ys"
  shows "(\<exists>s p. map_of (sessions w) i = Some (s, p) \<and> (case p of
        ClientPolicy n \<Rightarrow> \<exists>f sf pf. BS_GetSession n s = Some f \<and> map_of (sessions w) f = Some (sf, pf) \<and> pf \<in> {KartosPolicy, LokiPolicy}
      | _ \<Rightarrow> True))
    \<and> (\<forall>(j, op') \<in> set (xs @ ys). j \<noteq> i \<and> j \<noteq> owner client_name w i \<and> owner client_name w j \<noteq> owner client_name w i)
    \<and> kv_wf (at_services (shared a)) \<and> dm_ok (at_data (shared a))"
proof -
  have pinv: "process_inv a" using atreus.inv_reach [OF assms(1)] .
  then have inv: "loop_inv client_name w" using assms(2) by (auto simp: process_inv_def)
  then have "op_ok client_name w i op" using assms(3) by (auto simp: loop_inv_def)
  then have "\<exists>s p. map_of (sessions w) i = Some (s, p) \<and> (case p of
        ClientPolicy n \<Rightarrow> \<exists>f sf pf. BS_GetSession n s = Some f \<and> map_of (sessions w) f = Some (sf, pf) \<and> pf \<in> {KartosPolicy, LokiPolicy}
      | _ \<Rightarrow> True)"
  proof (cases rule: op_okE)
    case (server s p)
    then show ?thesis by (cases p) auto
  next
    case (client s p n f sf pf)
    then show ?thesis using client_name_None [of pf] by (cases p) auto
  qed
  then show ?thesis using kartos.separate [OF inv assms(3)] pinv by (auto simp: process_inv_def shared_ok_def)
qed

theorem Atreus_connections_separate_witness:
  "\<exists>a. reach atreus_start atreus_step a \<and> in_flight (kartos_loop a) = [(0, AsyncReadHeader), (1, AsyncReadHeader)]
    \<and> owner client_name (kartos_loop a) 1 \<noteq> owner client_name (kartos_loop a) 0"
proof -
  obtain a where a: "reach atreus_start atreus_step a" "in_flight (kartos_loop a) = [(0, AsyncReadHeader), (1, AsyncReadHeader)]"
    by (rule two_connections)
  from Atreus_connections_separate [OF a(1), of "kartos_loop a" "[]" 0 AsyncReadHeader "[(1, AsyncReadHeader)]"] a
  show ?thesis by auto
qed

text \<open>
  C10. Of the operations of the two servers, only a message body can end the process. In every reachable state, and with
  whatever error code and bytes the network completes it, an operation in flight of the event loop of Kartos or Loki other
  than the read of a body is handled without a fault: connecting, writing and reading a header never do worse than drop
  their connection. This is about the two event loops; the third thread, the watchdog, makes blocking calls, and a reply that
  is cut short or does not decode ends the process there too (\<open>CallExt\<close> and \<open>CallExtNotSure\<close> in \<open>Blade_Sync\<close>).
\<close>

theorem Atreus_only_bodies_fault:
  assumes "reach atreus_start atreus_step a" and "w \<in> {kartos_loop a, loki_loop a}"
    and "(i, op) \<in> set (in_flight w)" and "\<forall>n. op \<noteq> AsyncReadBody n"
  shows "\<exists>w'. complete (Atreus_on env) i op ec got (w\<lparr>process := shared a\<rparr>) = Inr w'"
proof -
  have "loop_inv client_name (w\<lparr>process := shared a\<rparr>)"
    using atreus.inv_reach [OF assms(1)] assms(2) by (auto simp: process_inv_def)
  from kartos.only_bodies_fault [OF this] assms(3,4) show ?thesis by simp
qed

theorem Atreus_only_bodies_fault_witness:
  "\<exists>a w'. reach atreus_start atreus_step a
    \<and> complete (Atreus_on (demo_env no_ice)) 1 AsyncReadHeader 0 [1, 2, 3] ((kartos_loop a)\<lparr>process := shared a\<rparr>) = Inr w'"
proof -
  obtain a where a: "reach atreus_start atreus_step a" "in_flight (kartos_loop a) = [(0, AsyncReadHeader), (1, AsyncReadHeader)]"
    by (rule two_connections)
  from Atreus_only_bodies_fault [OF a(1), of "kartos_loop a" 1 AsyncReadHeader "demo_env no_ice" 0 "[1, 2, 3]"] a
  show ?thesis by auto
qed

text \<open>
  C12. Bounded work per connection. Whatever peers and services do, a server of an atreus process completes at most seven
  operations for each connection it accepts, those still in flight included: header, body, connect, write,
  header and body on the client side, write. So a connection can neither loop nor fan out.
\<close>

theorem Atreus_work_bounded:
  assumes "loop_run (range Atreus_on) pol n c w" and "accept_policy Kartos = Some pol \<or> accept_policy Loki = Some pol"
  shows "c + length (in_flight w) \<le> 7 * n"
proof -
  have "c + work client_name w \<le> 7 * n"
    using assms kartos.run_inv loki.run_inv by (auto simp: Kartos_def Loki_def BladeServer_def)
  with kartos.work_flight [of w] show ?thesis by simp
qed

theorem Atreus_work_bounded_witness:
  "\<exists>w. loop_run (range Atreus_on) LokiPolicy 1 1 w \<and> 1 + length (in_flight w) \<le> 7"
proof -
  let ?on = "Atreus_on (demo_env no_ice)"
  obtain w1 where w1: "accept ?on LokiPolicy fresh_world = Inr w1" "in_flight w1 = [(0, AsyncReadHeader)]"
    by (rule accept_reads [of fresh_world LokiPolicy "demo_env no_ice"]) (simp_all add: sessions_ok_def fresh_world_def)
  have "loop_run (range Atreus_on) LokiPolicy 0 0 fresh_world" by (rule run_start) (simp add: loop_start_def fresh_world_def)
  from run_accepted [OF this _ w1(1)] have r: "loop_run (range Atreus_on) LokiPolicy 1 0 w1" by simp
  have "loop_inv client_name w1" using loki.run_inv [OF r] by simp
  from loki.only_bodies_fault [OF this, of ?on 0 AsyncReadHeader 2 "[]"] w1(2) obtain w2
    where "complete ?on 0 AsyncReadHeader 2 [] w1 = Inr w2" by auto
  with r w1(2) have "loop_run (range Atreus_on) LokiPolicy 1 1 w2"
    using run_completed [of "range Atreus_on" LokiPolicy 1 0 w1 ?on 0 AsyncReadHeader "[]" 2 w2] by simp
  moreover from Atreus_work_bounded [OF this] have "1 + length (in_flight w2) \<le> 7" by (simp add: Loki_def BladeServer_def)
  ultimately show ?thesis by blast
qed

end
