(* ===== verification/Atreus_Config.thy ===== *)
theory Atreus_Config
  imports Atreus_Watchdog
begin

text \<open>
  atreus/util/config\_provider: the flags of an atreus process, their defaults and validators. The parser is
  gflags, which is not in the repository: a parameter that gets the validators, the flags and the command line,
  and gives the flags and the arguments left, or nothing when it ends the process.
\<close>

section \<open>Flags\<close>

record flags =
  FLAGS_this_ip :: string
  FLAGS_ice_ip :: string
  FLAGS_chaos_ip :: string
  FLAGS_kad :: i32
  FLAGS_rpd :: i32

definition default_flags :: flags where
  "default_flags = \<lparr>FLAGS_this_ip = ''127.0.0.1'', FLAGS_ice_ip = ''127.0.0.1'', FLAGS_chaos_ip = ''127.0.0.1'',
     FLAGS_kad = 10, FLAGS_rpd = 10\<rparr>"

type_synonym validator = "string \<Rightarrow> string \<Rightarrow> (bool \<times> string) result" \<comment> \<open>flag and value; what it prints\<close>
type_synonym gflags = "(string \<times> validator) list \<Rightarrow> flags \<Rightarrow> string list \<Rightarrow> (flags \<times> string list) option"

definition flag_validators :: "atreus_env \<Rightarrow> (string \<times> validator) list" where
  "flag_validators env = [(''this_ip'', ValidateIp env), (''ice_ip'', ValidateIp env), (''chaos_ip'', ValidateIp env)]"

definition string_flag :: "flags \<Rightarrow> string \<Rightarrow> string option" where
  "string_flag fl = [''this_ip'' \<mapsto> FLAGS_this_ip fl, ''ice_ip'' \<mapsto> FLAGS_ice_ip fl, ''chaos_ip'' \<mapsto> FLAGS_chaos_ip fl]"

definition ConfigProvider_Init :: "gflags \<Rightarrow> atreus_env \<Rightarrow> string list \<Rightarrow> (flags \<times> string list) option" where
  "ConfigProvider_Init ParseCommandLineFlags env argv = ParseCommandLineFlags (flag_validators env) default_flags argv"

definition GetThisIp :: "flags \<Rightarrow> string" where
  "GetThisIp fl = FLAGS_this_ip fl"

definition GetIceIp :: "flags \<Rightarrow> string" where
  "GetIceIp fl = FLAGS_ice_ip fl"

definition GetKeepAliveDuration :: "flags \<Rightarrow> i32" where
  "GetKeepAliveDuration fl = FLAGS_kad fl"

definition GetReportDurtaion :: "flags \<Rightarrow> i32" where
  "GetReportDurtaion fl = FLAGS_rpd fl"

definition GetChaosIp :: "flags \<Rightarrow> string" where
  "GetChaosIp fl = FLAGS_chaos_ip fl"

text \<open>The parameters of the servers and of the watchdog in a process with these flags.\<close>

definition configured :: "flags \<Rightarrow> atreus_env \<Rightarrow> atreus_env" where
  "configured fl env = env\<lparr>this_ip := GetThisIp fl, ice_ip := GetIceIp fl, chaos_ip := GetChaosIp fl\<rparr>"

definition configured_timers :: "int \<Rightarrow> flags \<Rightarrow> atreus_env \<Rightarrow> atreus_state timer list" where
  "configured_timers now fl env = Watchdog_Start now (configured fl env)
     (sint (GetKeepAliveDuration fl)) (sint (GetReportDurtaion fl))"

lemmas config_defs = ConfigProvider_Init_def flag_validators_def string_flag_def configured_def
  GetThisIp_def GetIceIp_def GetChaosIp_def GetKeepAliveDuration_def GetReportDurtaion_def

section \<open>What the validators give\<close>

text \<open>The documented contract of gflags: the process goes on only with flags whose validators returned true.\<close>

definition passes :: "(string \<times> validator) list \<Rightarrow> flags \<Rightarrow> bool" where
  "passes vs fl \<longleftrightarrow> list_all (\<lambda>(name, v). case string_flag fl name of None \<Rightarrow> True
     | Some val \<Rightarrow> (case v name val of Inr (ok, _) \<Rightarrow> ok | Inl _ \<Rightarrow> False)) vs"

definition validating :: "gflags \<Rightarrow> bool" where
  "validating parse \<longleftrightarrow> (\<forall>vs fl argv fl' rest. parse vs fl argv = Some (fl', rest) \<longrightarrow> passes vs fl')"

lemma Init_addresses:
  assumes "validating parse" and "ConfigProvider_Init parse env argv = Some (fl, rest)"
  shows "address_ok env (GetThisIp fl)" "address_ok env (GetIceIp fl)" "address_ok env (GetChaosIp fl)"
proof -
  have "passes (flag_validators env) fl" 
    using assms unfolding validating_def ConfigProvider_Init_def by blast
  then show "address_ok env (GetThisIp fl)" "address_ok env (GetIceIp fl)" "address_ok env (GetChaosIp fl)"
    by (simp_all add: passes_def config_defs ValidateIp_def MakeAddress_def split: if_splits)
qed

text \<open>So the endpoints that Kartos makes of its own address exist.\<close>

lemma Init_endpoint:
  assumes "validating parse" and "ConfigProvider_Init parse env argv = Some (fl, rest)"
  shows "MakeTcpEndpoint (configured fl env) prt (this_ip (configured fl env)) = Inr (GetThisIp fl, prt)"
  using Init_addresses(1) [OF assms] by (simp add: MakeTcpEndpoint_eq configured_def)

text \<open>A parser that knows one flag of the two without a validator.\<close>

definition kad_parser :: gflags where
  "kad_parser vs fl argv = (let fl' = (if ''-kad=0'' \<in> set argv then fl\<lparr>FLAGS_kad := 0\<rparr> else fl) in
     if passes vs fl' then Some (fl', filter (\<lambda>a. a \<noteq> ''-kad=0'') argv) else None)"

lemma kad_parser_validating: "validating kad_parser"
  by (auto simp: validating_def kad_parser_def Let_def split: if_splits)

text \<open>
  The periods have no validator. A process that was started with a period of zero, as the parser must accept it,
  can check any number of times while no time passes.
\<close>

lemma zero_period_accepted:
  assumes "address_ok env ''127.0.0.1''" and "at_services (st :: atreus_state) = []"
  obtains fl where "ConfigProvider_Init kad_parser env [''-kad=0''] = Some (fl, [])"
    "\<And>n. \<exists>l. reach (loop_init now (configured_timers now fl env)) timer_step l \<and> clock l = now \<and> runs l 0 = n"
proof -
  let ?fl = "default_flags\<lparr>FLAGS_kad := 0\<rparr>"
  have "ConfigProvider_Init kad_parser env [''-kad=0''] = Some (?fl, [])"
    using assms(1) by (simp add: kad_parser_def passes_def config_defs default_flags_def ValidateIp_def MakeAddress_def)
  moreover have "\<exists>l. reach (loop_init now (configured_timers now ?fl env)) timer_step l \<and> clock l = now \<and> runs l 0 = n" for n
    using nonpositive_period_spins [OF assms(2), of 0 now "configured ?fl env" "sint (GetReportDurtaion ?fl)" n]
    by (intro exI [of _ "idle_loop now (configured ?fl env) 0 (sint (GetReportDurtaion ?fl)) st now n"])
      (simp add: configured_timers_def GetKeepAliveDuration_def idle_loop_def)
  ultimately show thesis by (rule that)
qed

end
