(* ===== verification/Atreus_Blocking.thy ===== *)
theory Atreus_Blocking
  imports Blade_RWLock
begin

text \<open>
  What the threads of a host wait for: the lock of the registry and the answers of blocking calls. This
  is the part of \<^verbatim>\<open>Watchdog::Check\<close>, of \<^verbatim>\<open>ServiceManager::Query\<close> under Kartos, of \<^verbatim>\<open>ServiceManager::Register\<close>
  and \<^verbatim>\<open>Deregister\<close> under Loki, and of \<^verbatim>\<open>SyncSession::Call\<close> in a service, that decides who can go on; what they
  compute is in the other theories.

  Kartos, Loki, the watchdog and each service are one thread: while the handler of a service is in a \<^verbatim>\<open>Call\<close>, it answers
  nobody, keep-alives included. A call goes to the Loki of the host, which asks ice where the callee is, and from
  there to the Kartos of this or of another host; requests come in from other hosts too. \<^verbatim>\<open>Check\<close> holds the lock for
  writing from its first line to its last, and waits for the answer of each service in turn.
\<close>

section \<open>Who waits for what\<close>

datatype wd_pc =
    WdIdle
  | WdCounts \<comment> \<open>inside \<^verbatim>\<open>GetSize\<close>, for the log\<close>
  | WdCounted
  | WdAsleep \<comment> \<open>waits for the lock\<close>
  | WdProbing "string list" "string list" \<comment> \<open>holds the lock; still to be probed, and did not answer\<close>
  | WdAwaits string "string list" "string list" \<comment> \<open>has sent a keep-alive to this one, and reads its answer\<close>

type_synonym request = "string option \<times> string" \<comment> \<open>caller (none: a caller of another host) and callee\<close>

datatype ka_pc =
    KaIdle
  | KaAsleep request nat \<comment> \<open>waits for the lock; that many sections of \<^verbatim>\<open>Query\<close> follow this one\<close>
  | KaReads request nat \<comment> \<open>inside a section of \<^verbatim>\<open>Query\<close>\<close>

datatype loki_msg = LmRegister string | LmDeregister string | LmRequest string string

datatype update = Adds string | Erases string

datatype lk_pc =
    LkIdle
  | LkTestAsleep string \<comment> \<open>waits for the lock, to test for a name it is to deregister\<close>
  | LkTests string \<comment> \<open>inside \<^verbatim>\<open>Contains\<close>\<close>
  | LkTested string
  | LkWriteAsleep update
  | LkWrites update \<comment> \<open>inside the section that changes the registry\<close>
  | LkTells update \<comment> \<open>calls ice\<close>
  | LkAsks string string \<comment> \<open>asks ice for the host of the callee\<close>

datatype srv_pc =
    SvServing \<comment> \<open>in its event loop\<close>
  | SvCalling string \<comment> \<open>blocked in \<^verbatim>\<open>SyncSession::Call\<close>\<close>
  | SvEnded

record host =
  registry_lock :: rw_lock
  registered :: "string list"
  named :: "string set" \<comment> \<open>the services for which ice has this host\<close>
  wd :: wd_pc
  ka :: ka_pc
  lo :: lk_pc
  sv :: "string \<Rightarrow> srv_pc"
  at_loki :: "loki_msg list" \<comment> \<open>messages that Loki has not looked at yet\<close>
  arrived :: "request list" \<comment> \<open>requests that Kartos has not looked at yet\<close>
  forwarded :: "request list" \<comment> \<open>requests that Kartos has sent on to the callee\<close>
  answered :: "request list" \<comment> \<open>requests whose answer Kartos has still to pass back\<close>
  elsewhere :: "string set" \<comment> \<open>callers whose request is at another host\<close>
  returned :: "string list" \<comment> \<open>callers whose answer Loki has still to pass back\<close>

definition host_init :: "string list \<Rightarrow> host \<Rightarrow> bool" where
  "host_init regs h \<longleftrightarrow> h = \<lparr>registry_lock = new_lock, registered = regs, named = set regs, wd = WdIdle, ka = KaIdle, lo = LkIdle,
     sv = (\<lambda>_. SvServing), at_loki = [], arrived = [], forwarded = [], answered = [], elsewhere = {}, returned = []\<rparr>"

definition kartos_enters :: "request \<Rightarrow> nat \<Rightarrow> host \<Rightarrow> host" where \<comment> \<open>\<^verbatim>\<open>ReadLockGuard{lock_}\<close>\<close>
  "kartos_enters r n h = (let (l, ok) = LockRead (registry_lock h) in
     h\<lparr>registry_lock := l, ka := (if ok then KaReads r n else KaAsleep r n)\<rparr>)"

fun loki_enters :: "update \<Rightarrow> host \<Rightarrow> host" where \<comment> \<open>\<^verbatim>\<open>WriteLockGuard{lock_}\<close>\<close>
  "loki_enters u h = (let (l, ok) = LockWrite (registry_lock h) in
     h\<lparr>registry_lock := l, lo := (if ok then LkWrites u else LkWriteAsleep u)\<rparr>)"

fun updated :: "update \<Rightarrow> string list \<Rightarrow> string list" where
  "updated (Adds n) ns = List.insert n ns"
| "updated (Erases n) ns = removeAll n ns"

fun renamed :: "update \<Rightarrow> string set \<Rightarrow> string set" where
  "renamed (Adds n) ns = insert n ns"
| "renamed (Erases n) ns = ns - {n}"

text \<open>The answer to a request, or the end of its connection, on its way from Kartos to the caller's Loki.\<close>

fun pass_back :: "request \<Rightarrow> host \<Rightarrow> host" where
  "pass_back (None, b) h = h"
| "pass_back (Some a, b) h = h\<lparr>returned := returned h @ [a]\<rparr>"

text \<open>
  \<open>calls a b\<close>: the handlers of \<open>a\<close> call \<open>b\<close>. A waiting thread may test its condition again at any time. A call to ice may fail.
  A connection to a service may be refused at any time (the service may not listen, and the port of an entry may be
  wrong), but one that was accepted ends only with an answer or with the process of the service.
\<close>

inductive host_step :: "(string \<Rightarrow> string \<Rightarrow> bool) \<Rightarrow> host \<Rightarrow> host \<Rightarrow> bool" for calls where
  \<comment> \<open>the watchdog\<close>
  wd_counts: "wd h = WdIdle \<Longrightarrow> LockRead (registry_lock h) = (l, True) \<Longrightarrow>
    host_step calls h (h\<lparr>registry_lock := l, wd := WdCounts\<rparr>)"
| wd_counted: "wd h = WdCounts \<Longrightarrow> UnlockRead (registry_lock h) = (l, k) \<Longrightarrow>
    host_step calls h (h\<lparr>registry_lock := l, wd := WdCounted\<rparr>)"
| wd_locks: "wd h = WdCounted \<Longrightarrow> LockWrite (registry_lock h) = (l, ok) \<Longrightarrow>
    host_step calls h (h\<lparr>registry_lock := l, wd := (if ok then WdProbing (registered h) [] else WdAsleep)\<rparr>)"
| wd_wakes: "wd h = WdAsleep \<Longrightarrow> LockWrite_test (registry_lock h) = (l, True) \<Longrightarrow>
    host_step calls h (h\<lparr>registry_lock := l, wd := WdProbing (registered h) []\<rparr>)"
| wd_probes: "wd h = WdProbing (a # as) ds \<Longrightarrow> host_step calls h (h\<lparr>wd := WdAwaits a as ds\<rparr>)"
| wd_refused: "wd h = WdProbing (a # as) ds \<Longrightarrow> host_step calls h (h\<lparr>wd := WdProbing as (ds @ [a])\<rparr>)"
| wd_answered: "wd h = WdAwaits a as ds \<Longrightarrow> sv h a = SvServing \<Longrightarrow> host_step calls h (h\<lparr>wd := WdProbing as ds\<rparr>)"
| wd_broken: "wd h = WdAwaits a as ds \<Longrightarrow> sv h a = SvEnded \<Longrightarrow> host_step calls h (h\<lparr>wd := WdProbing as (ds @ [a])\<rparr>)"
| wd_removes: "wd h = WdProbing [] (d # ds) \<Longrightarrow> ns \<in> {named h, named h - {d}} \<Longrightarrow>
    host_step calls h (h\<lparr>registered := removeAll d (registered h), named := ns, wd := WdProbing [] ds\<rparr>)"
| wd_unlocks: "wd h = WdProbing [] [] \<Longrightarrow> UnlockWrite (registry_lock h) = (l, k) \<Longrightarrow>
    host_step calls h (h\<lparr>registry_lock := l, wd := WdIdle\<rparr>)"
  \<comment> \<open>the services, and what comes from outside\<close>
| srv_calls: "calls a b \<Longrightarrow> sv h a = SvServing \<Longrightarrow>
    host_step calls h (h\<lparr>sv := (sv h)(a := SvCalling b), at_loki := at_loki h @ [LmRequest a b]\<rparr>)"
| srv_answers: "r \<in> set (forwarded h) \<Longrightarrow> sv h (snd r) = SvServing \<Longrightarrow>
    host_step calls h (h\<lparr>forwarded := remove1 r (forwarded h), answered := answered h @ [r]\<rparr>)"
| srv_refuses: "r \<in> set (forwarded h) \<Longrightarrow>
    host_step calls h (h\<lparr>forwarded := remove1 r (forwarded h), answered := answered h @ [r]\<rparr>)"
| srv_ends: "sv h a = SvServing \<Longrightarrow> host_step calls h (h\<lparr>sv := (sv h)(a := SvEnded)\<rparr>)"
| srv_starts: "sv h a = SvEnded \<Longrightarrow> host_step calls h (h\<lparr>sv := (sv h)(a := SvServing)\<rparr>)"
| srv_registers: "m \<in> {LmRegister n, LmDeregister n} \<Longrightarrow> host_step calls h (h\<lparr>at_loki := at_loki h @ [m]\<rparr>)"
| remote_request: "host_step calls h (h\<lparr>arrived := arrived h @ [(None, b)]\<rparr>)"
| remote_answer: "a \<in> elsewhere h \<Longrightarrow> host_step calls h (h\<lparr>elsewhere := elsewhere h - {a}, returned := returned h @ [a]\<rparr>)"
  \<comment> \<open>Loki\<close>
| lk_request: "lo h = LkIdle \<Longrightarrow> LmRequest a b \<in> set (at_loki h) \<Longrightarrow>
    host_step calls h (h\<lparr>lo := LkAsks a b, at_loki := remove1 (LmRequest a b) (at_loki h)\<rparr>)"
| lk_here: "lo h = LkAsks a b \<Longrightarrow> b \<in> named h \<Longrightarrow> host_step calls h (h\<lparr>lo := LkIdle, arrived := arrived h @ [(Some a, b)]\<rparr>)"
| lk_elsewhere: "lo h = LkAsks a b \<Longrightarrow> host_step calls h (h\<lparr>lo := LkIdle, elsewhere := insert a (elsewhere h)\<rparr>)"
| lk_unknown: "lo h = LkAsks a b \<Longrightarrow> host_step calls h (h\<lparr>lo := LkIdle, returned := returned h @ [a]\<rparr>)"
| lk_returns: "lo h = LkIdle \<Longrightarrow> a \<in> set (returned h) \<Longrightarrow> s \<in> {SvServing, SvEnded} \<Longrightarrow>
    host_step calls h (h\<lparr>returned := remove1 a (returned h), sv := (sv h)(a := s)\<rparr>)"
| lk_register: "lo h = LkIdle \<Longrightarrow> LmRegister n \<in> set (at_loki h) \<Longrightarrow>
    host_step calls h (loki_enters (Adds n) (h\<lparr>at_loki := remove1 (LmRegister n) (at_loki h)\<rparr>))"
| lk_deregister: "lo h = LkIdle \<Longrightarrow> LmDeregister n \<in> set (at_loki h) \<Longrightarrow> LockRead (registry_lock h) = (l, ok) \<Longrightarrow>
    host_step calls h (h\<lparr>registry_lock := l, lo := (if ok then LkTests n else LkTestAsleep n),
      at_loki := remove1 (LmDeregister n) (at_loki h)\<rparr>)"
| lk_test_wakes: "lo h = LkTestAsleep n \<Longrightarrow> LockRead_test (registry_lock h) = (l, True) \<Longrightarrow>
    host_step calls h (h\<lparr>registry_lock := l, lo := LkTests n\<rparr>)"
| lk_tested: "lo h = LkTests n \<Longrightarrow> UnlockRead (registry_lock h) = (l, k) \<Longrightarrow>
    host_step calls h (h\<lparr>registry_lock := l, lo := (if n \<in> set (registered h) then LkTested n else LkTells (Erases n))\<rparr>)"
| lk_erases: "lo h = LkTested n \<Longrightarrow> host_step calls h (loki_enters (Erases n) h)"
| lk_write_wakes: "lo h = LkWriteAsleep u \<Longrightarrow> LockWrite_test (registry_lock h) = (l, True) \<Longrightarrow>
    host_step calls h (h\<lparr>registry_lock := l, lo := LkWrites u\<rparr>)"
| lk_written: "lo h = LkWrites u \<Longrightarrow> UnlockWrite (registry_lock h) = (l, k) \<Longrightarrow>
    host_step calls h (h\<lparr>registry_lock := l, registered := updated u (registered h), lo := LkTells u\<rparr>)"
| lk_told: "lo h = LkTells u \<Longrightarrow> ns \<in> {named h, renamed u (named h)} \<Longrightarrow> host_step calls h (h\<lparr>named := ns, lo := LkIdle\<rparr>)"
  \<comment> \<open>Kartos\<close>
| ka_takes: "ka h = KaIdle \<Longrightarrow> r \<in> set (arrived h) \<Longrightarrow>
    host_step calls h (kartos_enters r 1 (h\<lparr>arrived := remove1 r (arrived h)\<rparr>))"
| ka_wakes: "ka h = KaAsleep r n \<Longrightarrow> LockRead_test (registry_lock h) = (l, True) \<Longrightarrow>
    host_step calls h (h\<lparr>registry_lock := l, ka := KaReads r n\<rparr>)"
| ka_second: "ka h = KaReads r (Suc n) \<Longrightarrow> UnlockRead (registry_lock h) = (l, k) \<Longrightarrow> snd r \<in> set (registered h) \<Longrightarrow>
    host_step calls h (kartos_enters r n (h\<lparr>registry_lock := l\<rparr>))"
| ka_drops: "ka h = KaReads r (Suc n) \<Longrightarrow> UnlockRead (registry_lock h) = (l, k) \<Longrightarrow> snd r \<notin> set (registered h) \<Longrightarrow>
    host_step calls h (pass_back r (h\<lparr>registry_lock := l, ka := KaIdle\<rparr>))"
| ka_forwards: "ka h = KaReads r 0 \<Longrightarrow> UnlockRead (registry_lock h) = (l, k) \<Longrightarrow>
    host_step calls h (h\<lparr>registry_lock := l, registered := List.insert (snd r) (registered h), ka := KaIdle,
      forwarded := forwarded h @ [r]\<rparr>)"
| ka_returns: "ka h = KaIdle \<Longrightarrow> r \<in> set (answered h) \<Longrightarrow>
    host_step calls h (pass_back r (h\<lparr>answered := remove1 r (answered h)\<rparr>))"

inductive_cases host_stepE: "host_step calls h h'"

section \<open>The watchdog and a caller wait for each other\<close>

text \<open>
  The watchdog holds the lock and waits for \<open>a\<close>; \<open>a\<close> waits for its answer, which is neither on its way nor at another
  host; nobody else is in a section. Loki, if it waits to write, has been counted.
\<close>

definition blocked :: "string list \<Rightarrow> string \<Rightarrow> string \<Rightarrow> host \<Rightarrow> bool" where
  "blocked regs a b h \<longleftrightarrow> (\<exists>as ds. wd h = WdAwaits a as ds) \<and> sv h a = SvCalling b \<and> registered h = regs
     \<and> forwarded h = [] \<and> answered h = [] \<and> a \<notin> elsewhere h \<and> a \<notin> set (returned h)
     \<and> (\<forall>c. LmRequest a c \<notin> set (at_loki h) \<and> lo h \<noteq> LkAsks a c)
     \<and> (\<forall>n. lo h \<noteq> LkTests n) \<and> (\<forall>u. lo h \<noteq> LkWrites u) \<and> (\<forall>r n. ka h \<noteq> KaReads r n)
     \<and> is_wrtiting (registry_lock h) \<and> write_cnt (registry_lock h) = (case lo h of LkWriteAsleep u \<Rightarrow> 2 | _ \<Rightarrow> 1)"

lemma blocked_lock:
  assumes "blocked regs a b h"
  shows "LockRead (registry_lock h) = (registry_lock h, False)" "LockRead_test (registry_lock h) = (registry_lock h, False)"
    "snd (LockWrite_test (registry_lock h)) = False"
    "\<forall>u. lo h \<noteq> LkWriteAsleep u \<Longrightarrow> write_cnt (registry_lock h) = 1"
  using assms by (auto simp: blocked_def lock_op_defs split: lk_pc.splits)

lemma blocked_step:
  assumes "blocked regs a b h" and "host_step calls h h'"
  shows "blocked regs a b h'"
  using assms(2)
proof cases
  case (lk_register n)
  with assms(1) show ?thesis
    by (auto simp: blocked_def LockWrite_def LockWrite_test_def dest: notin_set_remove1)
next
  case (lk_erases n)
  with assms(1) show ?thesis by (auto simp: blocked_def LockWrite_def LockWrite_test_def)
next
  case (ka_takes r)
  with assms(1) blocked_lock(1) [OF assms(1)] show ?thesis by (auto simp: blocked_def kartos_enters_def)
next
  case (lk_deregister n l ok)
  with assms(1) blocked_lock(1) [OF assms(1)] show ?thesis by (auto simp: blocked_def dest: notin_set_remove1)
qed (use assms(1) blocked_lock [OF assms(1)] in \<open>auto simp: blocked_def dest: notin_set_remove1\<close>)

lemma blocked_forever: "(host_step calls)\<^sup>*\<^sup>* h h' \<Longrightarrow> blocked regs a b h \<Longrightarrow> blocked regs a b h'"
  by (induction rule: rtranclp_induct) (auto intro: blocked_step)

text \<open>The lock in the hands of one thread.\<close>

definition locked :: rw_lock where
  "locked = new_lock\<lparr>write_cnt := 1, is_wrtiting := True\<rparr>"

definition counted :: rw_lock where
  "counted = new_lock\<lparr>read_cnt := 1\<rparr>"

lemma lock_of_one:
  "LockWrite new_lock = (locked, True)" "LockRead new_lock = (counted, True)" "UnlockRead counted = (new_lock, NotifyNone)"
  by (simp_all add: locked_def counted_def new_lock_def lock_op_defs UnlockRead_def)

text \<open>The watchdog gets past the services that are in their event loops.\<close>

lemma probes_past:
  assumes "\<forall>c \<in> set xs. sv h c = SvServing"
  shows "(host_step calls)\<^sup>*\<^sup>* (h\<lparr>wd := WdProbing (xs @ ys) []\<rparr>) (h\<lparr>wd := WdProbing ys []\<rparr>)"
  using assms
proof (induction xs)
  case (Cons x xs)
  have "host_step calls (h\<lparr>wd := WdProbing ((x # xs) @ ys) []\<rparr>) (h\<lparr>wd := WdAwaits x (xs @ ys) []\<rparr>)"
    using wd_probes [of "h\<lparr>wd := WdProbing ((x # xs) @ ys) []\<rparr>" x "xs @ ys" "[]" calls] by simp
  moreover have "host_step calls (h\<lparr>wd := WdAwaits x (xs @ ys) []\<rparr>) (h\<lparr>wd := WdProbing (xs @ ys) []\<rparr>)"
    using wd_answered [of "h\<lparr>wd := WdAwaits x (xs @ ys) []\<rparr>" x "xs @ ys" "[]" calls] Cons.prems by simp
  ultimately show ?case using Cons by (meson converse_rtranclp_into_rtranclp list.set_intros(2))
qed simp

text \<open>From the start: the call, its way through Loki to Kartos, and a check up to the keep-alive of the caller.\<close>

lemma can_block:
  assumes "a \<in> set regs" and "b \<in> set regs" and "calls a b"
  obtains h where "reach (host_init regs) (host_step calls) h" "blocked regs a b h" "arrived h = [(Some a, b)]"
proof -
  define h0 where "h0 = \<lparr>registry_lock = new_lock, registered = regs, named = set regs, wd = WdIdle, ka = KaIdle, lo = LkIdle,
     sv = (\<lambda>_. SvServing), at_loki = [], arrived = [], forwarded = [], answered = [], elsewhere = {}, returned = []\<rparr>"
  define h1 where "h1 = h0\<lparr>sv := (\<lambda>_. SvServing)(a := SvCalling b), at_loki := [LmRequest a b]\<rparr>"
  define h2 where "h2 = h0\<lparr>sv := (\<lambda>_. SvServing)(a := SvCalling b), lo := LkAsks a b\<rparr>"
  define h3 where "h3 = h0\<lparr>sv := (\<lambda>_. SvServing)(a := SvCalling b), arrived := [(Some a, b)]\<rparr>"
  define h4 where "h4 = h3\<lparr>registry_lock := locked\<rparr>"
  obtain xs ys where r: "regs = xs @ a # ys" "a \<notin> set xs" using assms(1) by (meson split_list_first)
  note defs = h0_def h1_def h2_def h3_def h4_def
  have 1: "host_step calls h0 h1" using srv_calls [of calls a b h0] assms(3) by (simp add: defs)
  have 2: "host_step calls h1 h2" using lk_request [of h1 a b calls] by (simp add: defs)
  have 3: "host_step calls h2 h3" using lk_here [of h2 a b calls] assms(2) by (simp add: defs)
  have 4: "host_step calls h3 (h3\<lparr>registry_lock := counted, wd := WdCounts\<rparr>)"
    using wd_counts [of h3 counted calls] lock_of_one(2) by (simp add: defs)
  have 5: "host_step calls (h3\<lparr>registry_lock := counted, wd := WdCounts\<rparr>) (h3\<lparr>wd := WdCounted\<rparr>)"
    using wd_counted [of "h3\<lparr>registry_lock := counted, wd := WdCounts\<rparr>" new_lock NotifyNone calls] lock_of_one(3) by (simp add: defs)
  have 6: "host_step calls (h3\<lparr>wd := WdCounted\<rparr>) (h4\<lparr>wd := WdProbing (xs @ a # ys) []\<rparr>)"
    using wd_locks [of "h3\<lparr>wd := WdCounted\<rparr>" locked True calls] lock_of_one(1) r(1) by (simp add: defs)
  have 7: "(host_step calls)\<^sup>*\<^sup>* (h4\<lparr>wd := WdProbing (xs @ a # ys) []\<rparr>) (h4\<lparr>wd := WdProbing (a # ys) []\<rparr>)"
    by (rule probes_past) (use r(2) in \<open>auto simp: defs\<close>)
  have 8: "host_step calls (h4\<lparr>wd := WdProbing (a # ys) []\<rparr>) (h4\<lparr>wd := WdAwaits a ys []\<rparr>)"
    using wd_probes [of "h4\<lparr>wd := WdProbing (a # ys) []\<rparr>" a ys "[]" calls] by simp
  have "reach (host_init regs) (host_step calls) h0" by (rule reach_init) (simp add: host_init_def h0_def)
  note reach_step [OF reach_step [OF reach_step [OF reach_step [OF reach_step [OF reach_step [OF this 1] 2] 3] 4] 5] 6]
  note reach_step [OF reach_steps [OF 7 this] 8]
  moreover have "blocked regs a b (h4\<lparr>wd := WdAwaits a ys []\<rparr>)" by (simp add: blocked_def defs locked_def new_lock_def)
  moreover have "arrived (h4\<lparr>wd := WdAwaits a ys []\<rparr>) = [(Some a, b)]" by (simp add: defs)
  ultimately show thesis by (rule that)
qed

text \<open>
  C15. A call between two services of a host can block the host for good. If a registered service \<open>a\<close> calls a registered service \<open>b\<close>
  of its host, then, whatever the other services do, a state can be reached in which the request is at Kartos, and
  from which, as long as no process is killed from outside and no accepted connection breaks, nothing that can still
  happen on this host, at its other services, at other hosts or at ice gets it any further: the watchdog stays in
  \<^verbatim>\<open>Check\<close>, waiting for the keep-alive of \<open>a\<close>; \<open>a\<close> stays in its call; Kartos sends no request on to any service, of
  this host or from another; and Loki changes the registry no more. \<^verbatim>\<open>Check\<close> waits for \<open>a\<close>, which waits for its
  answer, which waits for Kartos, which waits for the lock that \<^verbatim>\<open>Check\<close> holds.
\<close>

theorem Check_blocks_host:
  assumes "a \<in> set regs" and "b \<in> set regs" and "calls a b"
  shows "\<exists>h. reach (host_init regs) (host_step calls) h \<and> (Some a, b) \<in> set (arrived h)
    \<and> (\<forall>h'. (host_step calls)\<^sup>*\<^sup>* h h' \<longrightarrow> (\<exists>as ds. wd h' = WdAwaits a as ds) \<and> sv h' a = SvCalling b
         \<and> forwarded h' = [] \<and> registered h' = regs)"
proof -
  obtain h where h: "reach (host_init regs) (host_step calls) h" "blocked regs a b h" "arrived h = [(Some a, b)]"
    using can_block [of a regs b calls] assms by blast
  have "(\<exists>as ds. wd h' = WdAwaits a as ds) \<and> sv h' a = SvCalling b \<and> forwarded h' = [] \<and> registered h' = regs"
    if "(host_step calls)\<^sup>*\<^sup>* h h'" for h'
    using blocked_forever [OF that h(2)] by (simp add: blocked_def)
  with h(1,3) show ?thesis by (intro exI [of _ h]) simp
qed

text \<open>One service that calls another of its host.\<close>

theorem Check_blocks_host_witness:
  "\<exists>h. reach (host_init [''shop'', ''bank'']) (host_step (\<lambda>a b. a = ''shop'' \<and> b = ''bank'')) h
     \<and> (\<nexists>h'. (host_step (\<lambda>a b. a = ''shop'' \<and> b = ''bank''))\<^sup>*\<^sup>* h h' \<and> wd h' = WdIdle)"
  using Check_blocks_host [of "''shop''" "[''shop'', ''bank'']" "''bank''" "\<lambda>a b. a = ''shop'' \<and> b = ''bank''"] by fastforce

end
