(* ===== verification/Mesh_Peers.thy ===== *)
theory Mesh_Peers
  imports Blade_Session
begin

text \<open>
  A process of the mesh as the peer of a blocking call: what the calling process gets back, and the state
  the called process is then in. This is how the components are composed: the network of one component is built from
  the model of another.
\<close>

text \<open>
  The peer that a server with a dispatch and a policy is: what it sends back for the bytes of one message
  (nothing when it ends), and the state it is then in.
\<close>

definition server_peer :: "('p, 's) dispatch \<Rightarrow> 'p \<Rightarrow> 's \<Rightarrow> peer" where
  "server_peer on p st = \<lparr>pr_connect = 0, pr_write = 0, pr_read = 2,
     pr_reply = (\<lambda>bs. case serve on p bs st of Inr ([(0, AsyncWrite reply _)], _) \<Rightarrow> reply | _ \<Rightarrow> [])\<rparr>"

definition server_state :: "('p, 's) dispatch \<Rightarrow> 'p \<Rightarrow> mem \<Rightarrow> 's \<Rightarrow> 's" where
  "server_state on p bs st = (case serve on p bs st of Inr (_, st') \<Rightarrow> st' | _ \<Rightarrow> st)"

text \<open>A call to a server that answers the request's bytes with \<open>r\<close>.\<close>

lemma peer_call:
  assumes q: "obj_fits q" and r: "obj_wf r" "obj_fits r" and net: "net ip prt = Inr (server_peer on p st)"
    and served: "serve on p (object_image (UpdateHeaderField q)) st = Inr ([(0, AsyncWrite (object_image (UpdateHeaderField r)) n)], st')"
  obtains r' where "exchange (server_peer on p st) q = Inr (Some r', 0)"
    "CallExt net (Some q) prt ip = Inr (Some r')" "CallExtNotSure net (Some q) prt ip = Inr (Some r')"
    "prt = kLokiPort \<Longrightarrow> ip = ''127.0.0.1'' \<Longrightarrow> Call net (Some q) = Inr (Some r')"
    "obj_wf r'" "obj_equiv r' (UpdateHeaderField r)" "field_map r' = field_map r"
    "server_state on p (object_image (UpdateHeaderField q)) st = st'"
proof -
  let ?p = "server_peer on p st"
  have "pr_reply ?p (object_image (UpdateHeaderField q)) = object_image (UpdateHeaderField r) @ []"
    using served by (simp add: server_peer_def)
  then obtain r' where r': "exchange ?p q = Inr (Some r', 0)" "obj_wf r'" "obj_equiv r' (UpdateHeaderField r)"
    using exchange_answered [of ?p r q "[]"] r by (auto simp: server_peer_def)
  have "field_map r' = field_map r" using obj_equiv_fields [of "UpdateHeaderField r" r'] r' r by simp
  moreover have "pr_read ?p \<noteq> 0" by (simp add: server_peer_def)
  from calls_exchange [where net = net and ip = ip and prt = prt, OF q this net]
  have "CallExt net (Some q) prt ip = Inr (Some r')" "CallExtNotSure net (Some q) prt ip = Inr (Some r')"
    using r'(1) by (simp_all add: deref_clone_def Clone_def)
  moreover from this have "Call net (Some q) = Inr (Some r')" if "prt = kLokiPort" "ip = ''127.0.0.1''"
    using that by (simp add: Call_def CallExt_def)
  ultimately show thesis using r' served by (intro that [of r']) (simp_all add: server_state_def)
qed

text \<open>The same for a service policy whose dispatch answers every decoded copy of the request with \<open>r\<close>.\<close>

lemma server_call:
  assumes q: "obj_wf q" "obj_fits q" and r: "obj_wf r" "obj_fits r"
    and net: "net ip prt = Inr (server_peer (service_dispatch g) pol st)"
    and handled: "\<And>q'. obj_wf q' \<Longrightarrow> field_map q' = field_map q \<Longrightarrow> GetType q' = GetType q \<Longrightarrow> GetTraceId q' = GetTraceId q \<Longrightarrow>
      GetServiceName q' = GetServiceName q \<Longrightarrow> Service_OnRecv pol g (Some q') st = Inr (Some r, st')"
  obtains r' where "CallExt net (Some q) prt ip = Inr (Some r')" "CallExtNotSure net (Some q) prt ip = Inr (Some r')"
    "obj_wf r'" "obj_equiv r' (UpdateHeaderField r)" "field_map r' = field_map r"
    "server_state (service_dispatch g) pol (object_image (UpdateHeaderField q)) st = st'"
proof -
  have s: "serve (service_dispatch g) pol (object_image (UpdateHeaderField q)) st
        = Inr ([(0, AsyncWrite (object_image (UpdateHeaderField r)) (40 + body_size r))], st')"
  proof (rule serve_sent [OF q, of pol g st])
    fix q'
    assume q': "obj_wf q'" "field_map q' = field_map q" "GetType q' = GetType q" "GetTraceId q' = GetTraceId q"
        "GetServiceName q' = GetServiceName q"
      and answered: "\<And>r st'. Service_OnRecv pol g (Some q') st = Inr (Some r, st') \<Longrightarrow> obj_fits r \<Longrightarrow>
        serve (service_dispatch g) pol (object_image (UpdateHeaderField q)) st
          = Inr ([(0, AsyncWrite (object_image (UpdateHeaderField r)) (40 + body_size r))], st')"
    show ?thesis by (rule answered [OF handled [OF q'] r(2)])
  qed
  show thesis
    by (rule peer_call [where net = net and ip = ip and prt = prt, OF q(2) r net s]) (rule that)
qed

text \<open>A handler of the policy's table answers a request for its service.\<close>

lemma dispatch_handler:
  assumes "obj_wf q'" and "GetType q' \<noteq> kBTKeepAlive" and "field_map q' kRequestService = Some (VString name)"
    and "map_of (f_table pol) name = Some h" and "h g q' st = Inr (res, o', st')"
  shows "Service_OnRecv pol g (Some q') st = Inr (res, st')"
proof -
  have "GetString q' kRequestService = Inr name" using assms(1,3) by (simp add: getter_iffs)
  moreover have "GetFieldType q' kRequestService = FT_String" using assms(1,3) by (simp add: GetFieldType_fields)
  ultimately show ?thesis using assms(2,4,5) by (simp add: Service_OnRecv_def)
qed

end
