(* ===== verification/Ice_Service_Manager.thy ===== *)
theory Ice_Service_Manager
  imports Blade_Prelude
begin

text \<open>
  ice/service\_manager: the mesh-wide registry, a relation between service names and addresses kept
  as two maps to sets. As in atreus, every critical section of the lock is one atomic function, and
  \<^verbatim>\<open>Deregister\<close> and \<^verbatim>\<open>Query\<close> are two sections with an arbitrary run of others in between.
\<close>

section \<open>State and operations\<close>

type_synonym string_set = "string list" \<comment> \<open>distinct; in iteration order\<close>

record ice_sm =
  srv_name_to_ip :: "string_set storage"
  srv_ip_to_name :: "string_set storage"

definition new_ice_sm :: ice_sm where
  "new_ice_sm = \<lparr>srv_name_to_ip = [], srv_ip_to_name = []\<rparr>"

definition set_emplace :: "string \<Rightarrow> string_set \<Rightarrow> string_set" where
  "set_emplace x xs = (if x \<in> set xs then xs else x # xs)"

definition set_erase :: "string \<Rightarrow> string_set \<Rightarrow> string_set" where
  "set_erase x xs = filter (\<lambda>y. y \<noteq> x) xs"

definition set_of :: "string_set storage \<Rightarrow> string \<Rightarrow> string_set" where \<comment> \<open>\<^verbatim>\<open>m[k]\<close>, without the insertion\<close>
  "set_of m k = (case map_of m k of None \<Rightarrow> [] | Some xs \<Rightarrow> xs)"

definition IceSM_Register :: "string \<Rightarrow> string \<Rightarrow> ice_sm \<Rightarrow> ice_sm" where
  "IceSM_Register name ip sm =
     sm\<lparr>srv_name_to_ip := kv_modify [] (set_emplace ip) name (srv_name_to_ip sm),
        srv_ip_to_name := kv_modify [] (set_emplace name) ip (srv_ip_to_name sm)\<rparr>"

definition IceSM_Contains :: "string \<Rightarrow> ice_sm \<Rightarrow> bool" where
  "IceSM_Contains name sm = (map_of (srv_name_to_ip sm) name \<noteq> None)"

text \<open>\<^verbatim>\<open>m[k].erase(x); if (m[k].empty()) m.erase(k);\<close>\<close>

definition erase_from :: "string \<Rightarrow> string \<Rightarrow> string_set storage \<Rightarrow> string_set storage" where
  "erase_from k x m =
     (let m = kv_modify [] (set_erase x) k m in if set_of m k = [] then kv_erase k m else m)"

definition IceSM_erase :: "string \<Rightarrow> string \<Rightarrow> ice_sm \<Rightarrow> ice_sm" where \<comment> \<open>second section of \<^verbatim>\<open>Deregister\<close>\<close>
  "IceSM_erase name ip sm =
     sm\<lparr>srv_name_to_ip := erase_from name ip (srv_name_to_ip sm),
        srv_ip_to_name := erase_from ip name (srv_ip_to_name sm)\<rparr>"

definition IceSM_subscript :: "string \<Rightarrow> ice_sm \<Rightarrow> ice_sm" where
  "IceSM_subscript name sm = sm\<lparr>srv_name_to_ip := kv_emplace name [] (srv_name_to_ip sm)\<rparr>"

datatype ice_section = IceSecRegister string string | IceSecErase string string | IceSecSubscript string

fun ice_exec :: "ice_section \<Rightarrow> ice_sm \<Rightarrow> ice_sm" where
  "ice_exec (IceSecRegister name ip) sm = IceSM_Register name ip sm"
| "ice_exec (IceSecErase name ip) sm = IceSM_erase name ip sm"
| "ice_exec (IceSecSubscript name) sm = IceSM_subscript name sm"

definition IceSM_Deregister :: "ice_section list \<Rightarrow> string \<Rightarrow> string \<Rightarrow> ice_sm \<Rightarrow> ice_sm" where
  "IceSM_Deregister others name ip sm =
     (if \<not> IceSM_Contains name sm then sm else IceSM_erase name ip (fold ice_exec others sm))"

text \<open>
  The walk of \<^verbatim>\<open>Query\<close>: \<open>d i\<close> is the number drawn when the loop condition is tested for the \<open>i\<close>-th
  time; a new number is drawn at every test. A walk that does not end is \<open>None\<close>.
\<close>

partial_function (option) ice_walk :: "(nat \<Rightarrow> nat) \<Rightarrow> nat \<Rightarrow> nat option" where
  [code]: "ice_walk d i = (if i < d i then ice_walk d (Suc i) else Some i)"

text \<open>
  An empty set gives the distribution the empty range \<open>[0, -1]\<close>, undefined behaviour; so is going
  past the end. \<open>None\<close> outside is a call that does not return, \<open>Inr None\<close> the null pointer.
\<close>

definition IceSM_Query ::
  "(nat \<Rightarrow> nat) \<Rightarrow> ice_section list \<Rightarrow> string \<Rightarrow> ice_sm \<Rightarrow> (string option \<times> ice_sm) result option" where
  "IceSM_Query d others name sm =
     (if \<not> IceSM_Contains name sm then Some (Inr (None, sm))
      else let sm = IceSM_subscript name (fold ice_exec others sm);
               ips = set_of (srv_name_to_ip sm) name
        in if ips = [] then Some (Inl EmptyRange)
           else case ice_walk d 0 of
             None \<Rightarrow> None
           | Some i \<Rightarrow> Some (if i < length ips then Inr (Some (ips ! i), sm) else Inl OutOfBounds))"

definition IceSM_GetSrvN :: "ice_sm \<Rightarrow> int" where
  "IceSM_GetSrvN sm = to_int32 (int (length (srv_name_to_ip sm)))"

definition IceSM_GetSrv :: "ice_sm \<Rightarrow> string list" where
  "IceSM_GetSrv sm = map fst (srv_name_to_ip sm)"

section \<open>The registry is a relation\<close>

text \<open>
  The invariant: both maps are well formed, no set is empty or has duplicates, and the two maps are
  inverse to each other. \<open>ice_rel\<close> is the relation they represent.
\<close>

definition sets_wf :: "string_set storage \<Rightarrow> bool" where
  "sets_wf m \<longleftrightarrow> kv_wf m \<and> (\<forall>xs \<in> snd ` set m. xs \<noteq> [] \<and> distinct xs)"

definition ice_inv :: "ice_sm \<Rightarrow> bool" where
  "ice_inv sm \<longleftrightarrow> sets_wf (srv_name_to_ip sm) \<and> sets_wf (srv_ip_to_name sm)
     \<and> (\<forall>name ip. ip \<in> set (set_of (srv_name_to_ip sm) name) \<longleftrightarrow> name \<in> set (set_of (srv_ip_to_name sm) ip))"

definition ice_rel :: "ice_sm \<Rightarrow> (string \<times> string) set" where
  "ice_rel sm = {(name, ip). ip \<in> set (set_of (srv_name_to_ip sm) name)}"

lemma sets_wf_lookup:
  "sets_wf m \<longleftrightarrow> kv_wf m \<and> (\<forall>k. distinct (set_of m k)) \<and> (\<forall>k. map_of m k \<noteq> Some [])"
proof
  assume w: "sets_wf m"
  have "xs \<noteq> [] \<and> distinct xs" if "map_of m k = Some xs" for k xs
    using w map_of_SomeD [OF that] unfolding sets_wf_def by (metis image_eqI snd_conv)
  note some = this
  have "kv_wf m" using w unfolding sets_wf_def by blast
  moreover have "distinct (set_of m k)" for k
  proof (cases "map_of m k")
    case (Some xs)
    with some [OF Some] show ?thesis by (simp add: set_of_def)
  qed (simp add: set_of_def)
  moreover have "map_of m k \<noteq> Some []" for k using some [of k "[]"] by blast
  ultimately show "kv_wf m \<and> (\<forall>k. distinct (set_of m k)) \<and> (\<forall>k. map_of m k \<noteq> Some [])" by blast
next
  assume w: "kv_wf m \<and> (\<forall>k. distinct (set_of m k)) \<and> (\<forall>k. map_of m k \<noteq> Some [])"
  have "xs \<noteq> [] \<and> distinct xs" if "(k, xs) \<in> set m" for k xs
  proof -
    have "map_of m k = Some xs" using w that kv_wf_map_of by metis
    with w have "set_of m k = xs" by (simp add: set_of_def)
    with w \<open>map_of m k = Some xs\<close> show ?thesis by metis
  qed
  with w show "sets_wf m" unfolding sets_wf_def by auto
qed

lemma set_of_modify: "set_of (kv_modify [] f k m) = (set_of m)(k := f (set_of m k))"
  by (rule ext) (simp add: set_of_def map_of_modify)

lemma set_of_emplace: "set_of (kv_emplace k [] m) = set_of m"
  by (rule ext) (simp add: set_of_def map_of_emplace)

lemma set_of_erase: "set_of (kv_erase k m) = (set_of m)(k := [])"
  by (rule ext) (simp add: set_of_def kv.lookup_erase)

lemma set_of_erase_from: "set_of (erase_from k x m) = (set_of m)(k := set_erase x (set_of m k))"
  by (rule ext) (simp add: erase_from_def Let_def set_of_modify set_of_erase)

lemma sets_wf_emplace: "sets_wf m \<Longrightarrow> sets_wf (kv_modify [] (set_emplace x) k m)"
proof -
  assume w: "sets_wf m"
  have "map_of (kv_modify [] (set_emplace x) k m) k' \<noteq> Some []" for k'
  proof (cases "k' = k")
    case True
    have "set_emplace x xs \<noteq> []" for xs by (cases xs) (simp_all add: set_emplace_def)
    with True show ?thesis by (simp add: map_of_modify)
  next
    case False
    with w show ?thesis by (simp add: map_of_modify sets_wf_lookup)
  qed
  moreover have "distinct (set_of (kv_modify [] (set_emplace x) k m) k')" for k'
    using w by (simp add: set_of_modify set_emplace_def sets_wf_lookup)
  moreover have "kv_wf (kv_modify [] (set_emplace x) k m)"
    using w by (auto simp: sets_wf_lookup)
  ultimately show ?thesis unfolding sets_wf_lookup by blast
qed

lemma sets_wf_erase_from:
  assumes "sets_wf m"
  shows "sets_wf (erase_from k x m)"
proof -
  let ?m = "kv_modify [] (set_erase x) k m"
  have k: "map_of ?m k = Some (set_of ?m k)" by (simp add: map_of_modify set_of_def)
  have "map_of (erase_from k x m) k' \<noteq> Some []" for k'
  proof (cases "k' = k")
    case True
    with k show ?thesis by (simp add: erase_from_def Let_def kv.lookup_erase)
  next
    case False
    with assms show ?thesis by (simp add: erase_from_def Let_def kv.lookup_erase map_of_modify sets_wf_lookup)
  qed
  moreover have "distinct (set_of (erase_from k x m) k')" for k'
    using assms by (simp add: set_of_erase_from set_erase_def sets_wf_lookup)
  moreover have "kv_wf (erase_from k x m)"
    using assms by (auto simp: erase_from_def Let_def sets_wf_lookup)
  ultimately show ?thesis unfolding sets_wf_lookup by blast
qed

lemma set_emplace_set [simp]: "set (set_emplace x xs) = insert x (set xs)"
  by (auto simp: set_emplace_def)

lemma set_erase_set [simp]: "set (set_erase x xs) = set xs - {x}"
  by (auto simp: set_erase_def)

lemma rel_Register: "ice_rel (IceSM_Register name ip sm) = insert (name, ip) (ice_rel sm)"
  by (auto simp: ice_rel_def IceSM_Register_def set_of_modify split: if_splits)

lemma rel_erase: "ice_rel (IceSM_erase name ip sm) = ice_rel sm - {(name, ip)}"
  by (auto simp: ice_rel_def IceSM_erase_def set_of_erase_from split: if_splits)

lemma inv_Register: "ice_inv sm \<Longrightarrow> ice_inv (IceSM_Register name ip sm)"
  by (auto simp: ice_inv_def IceSM_Register_def set_of_modify sets_wf_emplace)

lemma inv_erase: "ice_inv sm \<Longrightarrow> ice_inv (IceSM_erase name ip sm)"
  by (auto simp: ice_inv_def IceSM_erase_def set_of_erase_from sets_wf_erase_from)

lemma Contains_rel: "ice_inv sm \<Longrightarrow> IceSM_Contains name sm \<longleftrightarrow> name \<in> Domain (ice_rel sm)"
proof -
  assume "ice_inv sm"
  then have w: "xs \<noteq> []" if "map_of (srv_name_to_ip sm) name = Some xs" for xs
    using that unfolding ice_inv_def sets_wf_lookup by metis
  show ?thesis
  proof (cases "map_of (srv_name_to_ip sm) name")
    case (Some xs)
    with w [OF Some] have "(name, hd xs) \<in> ice_rel sm" by (simp add: ice_rel_def set_of_def)
    with Some show ?thesis by (auto simp: IceSM_Contains_def)
  qed (simp add: IceSM_Contains_def ice_rel_def set_of_def Domain_iff)
qed

text \<open>The contract of the mesh-wide registry: a set of pairs of names and addresses.\<close>

locale relation_registry =
  fixes add :: "string \<Rightarrow> string \<Rightarrow> 's \<Rightarrow> 's"
    and del :: "string \<Rightarrow> string \<Rightarrow> 's \<Rightarrow> 's"
    and has :: "string \<Rightarrow> 's \<Rightarrow> bool"
    and rel :: "'s \<Rightarrow> (string \<times> string) set"
    and inv :: "'s \<Rightarrow> bool"
  assumes rel_add: "inv s \<Longrightarrow> rel (add n ip s) = insert (n, ip) (rel s)"
    and rel_del: "inv s \<Longrightarrow> rel (del n ip s) = rel s - {(n, ip)}"
    and has_rel: "inv s \<Longrightarrow> has n s \<longleftrightarrow> n \<in> Domain (rel s)"
    and inv_add: "inv s \<Longrightarrow> inv (add n ip s)"
    and inv_del: "inv s \<Longrightarrow> inv (del n ip s)"
begin

lemma last_address: "inv s \<Longrightarrow> rel s `` {n} \<subseteq> {ip} \<Longrightarrow> \<not> has n (del n ip s)"
  by (auto simp: has_rel inv_del rel_del)

lemma other_address: "inv s \<Longrightarrow> (n, ip') \<in> rel s \<Longrightarrow> ip' \<noteq> ip \<Longrightarrow> has n (del n ip s)"
  by (auto simp: has_rel inv_del rel_del)

text \<open>\<open>Inl (n, ip)\<close> registers a pair, \<open>Inr (n, ip)\<close> withdraws it.\<close>

lemma history:
  "inv s \<Longrightarrow> inv (fold (\<lambda>c. case c of Inl (n, ip) \<Rightarrow> add n ip | Inr (n, ip) \<Rightarrow> del n ip) cs s)
    \<and> rel (fold (\<lambda>c. case c of Inl (n, ip) \<Rightarrow> add n ip | Inr (n, ip) \<Rightarrow> del n ip) cs s)
      = fold (\<lambda>c R. case c of Inl p \<Rightarrow> insert p R | Inr p \<Rightarrow> R - {p}) cs (rel s)"
  by (induction cs arbitrary: s) (auto simp: rel_add rel_del inv_add inv_del split: sum.splits prod.splits)

end

lemma Deregister_eq: "ice_inv sm \<Longrightarrow> ice_rel (IceSM_Deregister [] n ip sm) = ice_rel sm - {(n, ip)}"
  by (auto simp: IceSM_Deregister_def Contains_rel rel_erase)

interpretation ice: relation_registry IceSM_Register "IceSM_Deregister []" IceSM_Contains ice_rel ice_inv
  by unfold_locales
    (simp_all add: rel_Register Deregister_eq Contains_rel inv_Register, simp add: inv_erase IceSM_Deregister_def)

lemma GetSrv_rel:
  assumes "ice_inv sm"
  shows "set (IceSM_GetSrv sm) = Domain (ice_rel sm)" "distinct (IceSM_GetSrv sm)"
proof -
  show "set (IceSM_GetSrv sm) = Domain (ice_rel sm)"
    using Contains_rel [OF assms] by (force simp: IceSM_GetSrv_def IceSM_Contains_def map_of_eq_None_iff)
  show "distinct (IceSM_GetSrv sm)"
    using assms by (simp add: ice_inv_def sets_wf_def kv_wf_def IceSM_GetSrv_def)
qed

definition ice_history :: "(string \<times> string, string \<times> string) sum list \<Rightarrow> ice_sm" where
  "ice_history cs = fold (\<lambda>c. case c of Inl (n, ip) \<Rightarrow> IceSM_Register n ip
     | Inr (n, ip) \<Rightarrow> IceSM_Deregister [] n ip) cs new_ice_sm"

text \<open>
  C20. The mesh-wide registry. After any history of registrations and withdrawals the two maps of ice
  are inverse to each other, hold no empty set, and represent exactly the set of pairs registered
  and not withdrawn since; a name is known exactly when it still has an address, and
  \<^verbatim>\<open>GetSrv\<close> lists each known name once.
\<close>

theorem IceSM_history:
  "ice_inv (ice_history cs)
    \<and> ice_rel (ice_history cs) = fold (\<lambda>c R. case c of Inl p \<Rightarrow> insert p R | Inr p \<Rightarrow> R - {p}) cs {}
    \<and> (IceSM_Contains n (ice_history cs) \<longleftrightarrow> (\<exists>ip. (n, ip) \<in> ice_rel (ice_history cs)))
    \<and> set (IceSM_GetSrv (ice_history cs)) = Domain (ice_rel (ice_history cs))
    \<and> distinct (IceSM_GetSrv (ice_history cs))"
proof -
  have "ice_inv new_ice_sm" by (simp add: new_ice_sm_def ice_inv_def sets_wf_def set_of_def)
  from ice.history [OF this, of cs] have inv: "ice_inv (ice_history cs)"
    and rel: "ice_rel (ice_history cs) = fold (\<lambda>c R. case c of Inl p \<Rightarrow> insert p R | Inr p \<Rightarrow> R - {p}) cs (ice_rel new_ice_sm)"
    unfolding ice_history_def by blast+
  have "ice_rel new_ice_sm = {}" by (simp add: new_ice_sm_def ice_rel_def set_of_def)
  then show ?thesis using inv rel Contains_rel [OF inv, of n] GetSrv_rel [OF inv] by auto
qed

text \<open>The walk ends at the first test whose draw is not above the steps made so far.\<close>

lemma ice_walk_stop: "\<not> i < d i \<Longrightarrow> ice_walk d i = Some i"
  by (subst ice_walk.simps) simp

lemma ice_walk_go: "i < d i \<Longrightarrow> ice_walk d i = ice_walk d (Suc i)"
  by (subst ice_walk.simps) simp

lemma ice_walk_bounded:
  assumes "\<And>j. d j < n" and "i < n"
  shows "\<exists>k < n. ice_walk d i = Some k"
  using assms(2)
proof (induction "n - i" arbitrary: i rule: less_induct)
  case less
  show ?case
  proof (cases "i < d i")
    case True
    with assms(1) [of i] have "Suc i < n" by simp
    with less.hyps [of "Suc i"] less.prems True show ?thesis by (simp add: ice_walk_go)
  next
    case False
    with less.prems ice_walk_stop show ?thesis by blast
  qed
qed

lemma ice_walk_reach: "i \<le> k \<Longrightarrow> ice_walk (\<lambda>j. if j < k then k else 0) i = Some k"
proof (induction "k - i" arbitrary: i)
  case 0
  then show ?case by (simp add: ice_walk_stop)
next
  case (Suc m)
  then show ?case by (simp add: ice_walk_go)
qed

lemma Query_undisturbed:
  assumes inv: "ice_inv sm" and n: "IceSM_Contains n sm"
    and ips: "ips = set_of (srv_name_to_ip sm) n"
  shows "ips \<noteq> [] \<and> set ips = ice_rel sm `` {n} \<and> IceSM_Query d [] n sm
    = (case ice_walk d 0 of None \<Rightarrow> None
       | Some i \<Rightarrow> Some (if i < length ips then Inr (Some (ips ! i), sm) else Inl OutOfBounds))"
proof -
  obtain xs where xs: "map_of (srv_name_to_ip sm) n = Some xs" using n by (auto simp: IceSM_Contains_def)
  have "map_of (srv_name_to_ip sm) n \<noteq> Some []" using inv unfolding ice_inv_def sets_wf_lookup by metis
  then have "ips \<noteq> []" using xs by (simp add: ips set_of_def)
  moreover have "IceSM_subscript n sm = sm" using xs by (simp add: IceSM_subscript_def kv_emplace_def)
  moreover have "set ips = ice_rel sm `` {n}" by (auto simp: ips ice_rel_def)
  ultimately show ?thesis using n unfolding IceSM_Query_def Let_def ips
    by (cases "ice_walk d 0") simp_all
qed

text \<open>
  C38. \<^verbatim>\<open>Query\<close> answers, and with any of the addresses. Without interference, and with draws in the
  range that the distribution is asked for, it returns after fewer increments than there are
  addresses, never leaves the set although it draws a new bound at every test, gives an address
  registered for the name and leaves the registry unchanged; every registered address is the answer
  for some draws, and exactly the unknown names get the null pointer.
\<close>

theorem IceSM_Query_sound_complete:
  assumes "ice_inv sm"
  shows "((\<nexists>ip. (n, ip) \<in> ice_rel sm) \<longrightarrow> IceSM_Query d [] n sm = Some (Inr (None, sm)))
    \<and> ((\<exists>ip. (n, ip) \<in> ice_rel sm) \<and> (\<forall>j. d j < length (set_of (srv_name_to_ip sm) n)) \<longrightarrow>
        (\<exists>ip. (n, ip) \<in> ice_rel sm \<and> IceSM_Query d [] n sm = Some (Inr (Some ip, sm))))
    \<and> (\<forall>ip. (n, ip) \<in> ice_rel sm \<longrightarrow>
        (\<exists>d. (\<forall>j. d j < length (set_of (srv_name_to_ip sm) n)) \<and> IceSM_Query d [] n sm = Some (Inr (Some ip, sm))))"
proof -
  let ?ips = "set_of (srv_name_to_ip sm) n"
  have known: "IceSM_Contains n sm \<longleftrightarrow> (\<exists>ip. (n, ip) \<in> ice_rel sm)" using Contains_rel [OF assms] by auto
  have "\<exists>ip. (n, ip) \<in> ice_rel sm \<and> IceSM_Query d [] n sm = Some (Inr (Some ip, sm))"
    if k: "IceSM_Contains n sm" and d: "\<forall>j. d j < length ?ips"
  proof -
    note q = Query_undisturbed [OF assms k refl, of d]
    from ice_walk_bounded [of d "length ?ips" 0] d q obtain i where "i < length ?ips" "ice_walk d 0 = Some i"
      by auto
    with q nth_mem [of i ?ips] show ?thesis by auto
  qed
  moreover have "\<exists>d. (\<forall>j. d j < length ?ips) \<and> IceSM_Query d [] n sm = Some (Inr (Some ip, sm))"
    if ip: "(n, ip) \<in> ice_rel sm" for ip
  proof -
    have k: "IceSM_Contains n sm" using ip known by blast
    note q = Query_undisturbed [OF assms k refl]
    from ip q have "ip \<in> set ?ips" by blast
    then obtain i where i: "i < length ?ips" "?ips ! i = ip" by (metis in_set_conv_nth)
    let ?d = "\<lambda>j. if j < i then i else 0"
    have "\<forall>j. ?d j < length ?ips" using i(1) by auto
    moreover have "IceSM_Query ?d [] n sm = Some (Inr (Some ip, sm))"
      using q [of ?d] ice_walk_reach [of 0 i] i by simp
    ultimately show ?thesis by (intro exI [of _ ?d] conjI)
  qed
  ultimately show ?thesis using known by (auto simp: IceSM_Query_def)
qed

theorem IceSM_Query_sound_complete_witness:
  "IceSM_Query (\<lambda>_. 0) [] ''b'' (IceSM_Register ''a'' ''10.0.0.1'' new_ice_sm)
     = Some (Inr (None, IceSM_Register ''a'' ''10.0.0.1'' new_ice_sm))"
proof -
  let ?sm = "IceSM_Register ''a'' ''10.0.0.1'' new_ice_sm"
  have "ice_inv new_ice_sm" "ice_rel new_ice_sm = {}"
    by (simp_all add: new_ice_sm_def ice_inv_def sets_wf_def set_of_def ice_rel_def)
  then have "ice_inv ?sm" "\<nexists>ip. (''b'', ip) \<in> ice_rel ?sm" by (auto simp: inv_Register rel_Register)
  with IceSM_Query_sound_complete [of ?sm "''b''" "\<lambda>_. 0"] show ?thesis by blast
qed

text \<open>The sequences of three draws, and the address a sequence selects.\<close>

definition draws3 :: "nat list list" where
  "draws3 = [[a, b, c]. a \<leftarrow> [0, 1, 2], b \<leftarrow> [0, 1, 2], c \<leftarrow> [0, 1, 2]]"

definition chosen3 :: "string \<Rightarrow> ice_sm \<Rightarrow> nat list \<Rightarrow> string option" where
  "chosen3 n sm ds = (case IceSM_Query (\<lambda>j. ds ! j) [] n sm of Some (Inr (r, _)) \<Rightarrow> r | _ \<Rightarrow> None)"

lemma walk3:
  assumes "a \<le> 2" "b \<le> 2" "c \<le> 2"
  shows "ice_walk (\<lambda>j. [a, b, c] ! j) 0 = Some (if a = 0 then 0 else if b \<le> 1 then 1 else 2)"
proof -
  have "ice_walk (\<lambda>j. [a, b, c] ! j) 2 = Some 2" using assms by (intro ice_walk_stop) simp
  then have "ice_walk (\<lambda>j. [a, b, c] ! j) 1 = Some (if b \<le> 1 then 1 else 2)"
    by (cases "b \<le> 1") (simp_all add: ice_walk_stop ice_walk_go numeral_2_eq_2)
  then show ?thesis by (cases "a = 0") (simp_all add: ice_walk_stop ice_walk_go)
qed

text \<open>
  The choice among the addresses is not uniform. For a service with three addresses, of the 27
  equally likely sequences of three draws from \<open>{0, 1, 2}\<close> 9 select the first address, 12 the
  second and 6 the third: redrawing the bound at every test favours the middle.
\<close>

theorem IceSM_Query_not_uniform:
  assumes "ice_inv sm" and "set_of (srv_name_to_ip sm) n = [x, y, z]"
  shows "count_list (map (chosen3 n sm) draws3) (Some x) = 9
    \<and> count_list (map (chosen3 n sm) draws3) (Some y) = 12
    \<and> count_list (map (chosen3 n sm) draws3) (Some z) = 6"
proof -
  have "distinct [x, y, z]" using assms unfolding ice_inv_def sets_wf_lookup by metis
  moreover have k: "IceSM_Contains n sm"
    using assms(2) by (auto simp: IceSM_Contains_def set_of_def split: option.splits)
  have "chosen3 n sm [a, b, c] = Some (if a = 0 then x else if b \<le> 1 then y else z)"
    if "a \<le> 2" "b \<le> 2" "c \<le> 2" for a b c
    using Query_undisturbed [OF assms(1) k refl, of "\<lambda>j. [a, b, c] ! j"] walk3 [OF that] assms(2)
    by (simp add: chosen3_def)
  ultimately show ?thesis by (simp add: draws3_def eq_commute)
qed

theorem IceSM_Query_not_uniform_witness:
  "count_list (map (chosen3 ''s'' \<lparr>srv_name_to_ip = [(''s'', [''a'', ''b'', ''c''])],
     srv_ip_to_name = [(''a'', [''s'']), (''b'', [''s'']), (''c'', [''s''])]\<rparr>) draws3) (Some ''b'') = 12"
proof -
  let ?sm = "\<lparr>srv_name_to_ip = [(''s'', [''a'', ''b'', ''c''])],
     srv_ip_to_name = [(''a'', [''s'']), (''b'', [''s'']), (''c'', [''s''])]\<rparr>"
  have "ice_inv ?sm" by (auto simp: ice_inv_def sets_wf_def kv_wf_def set_of_def split: if_splits)
  moreover have "set_of (srv_name_to_ip ?sm) ''s'' = [''a'', ''b'', ''c'']" by (simp add: set_of_def)
  ultimately show ?thesis using IceSM_Query_not_uniform [of ?sm "''s''" "''a''" "''b''" "''c''"] by blast
qed

text \<open>
  The race of \<^verbatim>\<open>Query\<close> in ice. When the last address of a name is withdrawn between the two
  sections of \<^verbatim>\<open>Query\<close>, the subscript re-inserts the name with an empty set and the distribution is
  asked for an empty range, whatever it would draw: undefined behaviour instead of the null pointer.
\<close>

theorem IceSM_Query_race:
  assumes "ice_inv sm" and "ice_rel sm `` {n} = {ip}"
  shows "IceSM_Query d [IceSecErase n ip] n sm = Some (Inl EmptyRange)"
proof -
  have "ip \<in> ice_rel sm `` {n}" by (simp add: assms(2))
  then have "n \<in> Domain (ice_rel sm)" by blast
  then have k: "IceSM_Contains n sm" by (simp add: Contains_rel [OF assms(1)])
  have "set (set_of (srv_name_to_ip sm) n) = {ip}" using assms(2) by (simp add: ice_rel_def Image_def)
  then have "set (set_of (srv_name_to_ip (IceSM_erase n ip sm)) n) = {}"
    by (simp add: IceSM_erase_def set_of_erase_from)
  then have "set_of (srv_name_to_ip (IceSM_subscript n (IceSM_erase n ip sm))) n = []"
    by (simp add: IceSM_subscript_def set_of_emplace)
  with k show ?thesis by (simp add: IceSM_Query_def Let_def)
qed

theorem IceSM_Query_race_witness:
  "IceSM_Query (\<lambda>_. 0) [IceSecErase ''a'' ''1''] ''a'' (IceSM_Register ''a'' ''1'' new_ice_sm) = Some (Inl EmptyRange)"
proof -
  have "ice_inv new_ice_sm" "ice_rel new_ice_sm = {}"
    by (simp_all add: new_ice_sm_def ice_inv_def sets_wf_def set_of_def ice_rel_def)
  then have "ice_inv (IceSM_Register ''a'' ''1'' new_ice_sm)"
    and "ice_rel (IceSM_Register ''a'' ''1'' new_ice_sm) `` {''a''} = {''1''}"
    unfolding rel_Register by (blast intro: inv_Register)+
  then show ?thesis by (rule IceSM_Query_race)
qed

end
