(* ===== verification/Ice_Service.thy ===== *)
theory Ice_Service
  imports Blade_Service Ice_Service_Manager
begin

text \<open>
  The discovery server ice/ice.cc: its four service handlers over \<open>Ice_Service_Manager\<close>. \<open>d\<close> are the
  draws of the walk of \<^verbatim>\<open>Query\<close>; a call that does not return is the fault \<open>Diverges\<close>.
\<close>

section \<open>Handlers\<close>

definition ice_query :: "(nat \<Rightarrow> nat) \<Rightarrow> string \<Rightarrow> ice_sm \<Rightarrow> (string option \<times> ice_sm) result" where
  "ice_query d name sm = (case IceSM_Query d [] name sm of None \<Rightarrow> Inl Diverges | Some r \<Rightarrow> r)"

definition Ice_Query :: "(nat \<Rightarrow> nat) \<Rightarrow> ice_sm service_handler" where
  "Ice_Query d gid obj sm =
     catch_all
       (and_then (GetString obj kQuery) (\<lambda>name.
        and_then (ice_query d name sm) (\<lambda>(res, sm).
        case res of
          None \<Rightarrow> Inl StdException
        | Some ip \<Rightarrow> Inr (Some (NewAnswer_traced gid kIceServiceName (GetTraceId obj) name ip), obj, sm))))
       (and_then (GetString obj kQuery) (\<lambda>_. Inr (Some (NewAnswer_none gid kIceServiceName), obj, sm)))"

definition Ice_Registration :: "ice_sm service_handler" where
  "Ice_Registration gid obj sm =
     and_then (GetString obj kRequestService) (\<lambda>caller.
     let ret = NewResponse_traced gid kIceRegisterServiceName (GetTraceId obj) caller in
     catch_all
       (and_then (GetString obj kRegisterIp) (\<lambda>ip.
        let service_name = GetServiceName obj in
        if GetType obj = kBTRegister
        then Inr (Some ret, snd (AddByte kIceOk kZeroByte obj), IceSM_Register service_name ip sm)
        else if GetType obj = kBTDeregister
        then Inr (Some ret, snd (AddByte kIceOk kZeroByte obj), IceSM_Deregister [] service_name ip sm)
        else Inl InvalidArgument))
       (Inr (Some ret, snd (AddByte kIceFailed kZeroByte obj), sm)))"

definition Ice_AvaSrv :: "ice_sm service_handler" where
  "Ice_AvaSrv gid obj sm =
     and_then (GetString obj kRequestService) (\<lambda>caller.
     let ret = NewResponse_traced gid kChaosAvaSrv (GetTraceId obj) caller;
         ret = fold (\<lambda>i ret. snd (AddByte i 1 ret)) (IceSM_GetSrv sm) ret
     in Inr (Some (snd (AddByte kChaosOk kZeroByte ret)), obj, sm))"

definition Ice_AvaSrvN :: "ice_sm service_handler" where
  "Ice_AvaSrvN gid obj sm =
     and_then (GetString obj kRequestService) (\<lambda>caller.
     let ret = NewResponse_traced gid kChaosAvaSrvN (GetTraceId obj) caller;
         ret = snd (AddI32 kChaosVal (word_of_int (IceSM_GetSrvN sm)) ret)
     in Inr (Some (snd (AddByte kChaosOk kZeroByte ret)), obj, sm))"

definition ice_policy :: "(nat \<Rightarrow> nat) \<Rightarrow> ice_sm service_policy" where \<comment> \<open>\<^verbatim>\<open>main\<close> of ice.cc\<close>
  "ice_policy d =
     (let p = ServiceSessionPolicy kIcePort;
          p = DelegateExt kIceServiceName (Ice_Query d) p;
          p = DelegateExt kIceRegisterServiceName Ice_Registration p;
          p = DelegateExt kChaosAvaSrv Ice_AvaSrv p
      in DelegateExt kChaosAvaSrvN Ice_AvaSrvN p)"

lemma ice_table:
  "map_of (f_table (ice_policy d)) kIceServiceName = Some (Ice_Query d)"
  "map_of (f_table (ice_policy d)) kIceRegisterServiceName = Some Ice_Registration"
  "map_of (f_table (ice_policy d)) kChaosAvaSrv = Some Ice_AvaSrv"
  "map_of (f_table (ice_policy d)) kChaosAvaSrvN = Some Ice_AvaSrvN"
  by (simp_all add: ice_policy_def Let_def map_of_DelegateExt ServiceSessionPolicy_def protocol_names)

section \<open>Queries\<close>

lemma traced_answer [simp]:
  "field_map (NewAnswer_traced g s t q ip) = [kAnswerIp \<mapsto> VString ip]"
  "GetTraceId (NewAnswer_traced g s t q ip) = t"
  by (simp_all add: NewAnswer_traced_def) (simp add: SetTraceId_def GetTraceId_def)

lemma ice_query_eq:
  assumes inv: "ice_inv sm" and d: "\<And>j. d j < length (set_of (srv_name_to_ip sm) name)" "IceSM_Contains name sm"
  shows "\<exists>ip. (name, ip) \<in> ice_rel sm \<and> ice_query d name sm = Inr (Some ip, sm)"
proof -
  let ?ips = "set_of (srv_name_to_ip sm) name"
  note u = Query_undisturbed [OF inv d(2) refl, of d]
  from ice_walk_bounded [of d "length ?ips" 0] d(1) u obtain i where i: "i < length ?ips" "ice_walk d 0 = Some i"
    by auto
  with u nth_mem [of i ?ips] have "(name, ?ips ! i) \<in> ice_rel sm" by auto
  with u i show ?thesis by (auto simp: ice_query_def)
qed

lemma Ice_Query_answer:
  assumes "obj_wf obj" and "field_map obj kQuery = Some (VString name)" and "ice_query d name sm = Inr (Some ip, sm)"
  shows "Ice_Query d g obj sm = Inr (Some (NewAnswer_traced g kIceServiceName (GetTraceId obj) name ip), obj, sm)"
proof -
  have "GetString obj kQuery = Inr name" using assms(1,2) by (simp add: getter_iffs)
  with assms(3) show ?thesis by (simp add: Ice_Query_def)
qed

text \<open>
  Discovery. A query for a name with at least one address (and draws in range) is answered with
  one of its addresses and the trace id of the query; one for an unknown name with \<^verbatim>\<open>#NO_ANS\<close> and
  trace id 0 whatever the query's; and a query without its name field makes the handler
  throw out of its own \<^verbatim>\<open>catch (...)\<close>, which reads the field again for its log line.
\<close>

theorem Ice_Query_answers:
  assumes "obj_wf obj" and "ice_inv sm"
  shows "case field_map obj kQuery of
      Some (VString name) \<Rightarrow>
        (if IceSM_Contains name sm
         then (\<forall>j. d j < length (set_of (srv_name_to_ip sm) name)) \<longrightarrow>
           (\<exists>r ip. Ice_Query d g obj sm = Inr (Some r, obj, sm) \<and> (name, ip) \<in> ice_rel sm
              \<and> field_map r = [kAnswerIp \<mapsto> VString ip] \<and> GetTraceId r = GetTraceId obj)
         else \<exists>r. Ice_Query d g obj sm = Inr (Some r, obj, sm)
              \<and> field_map r = [kNoAnswer \<mapsto> VByte 0] \<and> GetTraceId r = 0)
    | _ \<Rightarrow> Ice_Query d g obj sm = Inl NoSuchFieldException"
proof (cases "\<exists>name. field_map obj kQuery = Some (VString name)")
  case True
  then obtain name where n: "field_map obj kQuery = Some (VString name)" by blast
  then have s: "GetString obj kQuery = Inr name" using assms(1) by (simp add: getter_iffs)
  show ?thesis
  proof (cases "IceSM_Contains name sm")
    case True
    have "\<exists>r ip. Ice_Query d g obj sm = Inr (Some r, obj, sm) \<and> (name, ip) \<in> ice_rel sm
        \<and> field_map r = [kAnswerIp \<mapsto> VString ip] \<and> GetTraceId r = GetTraceId obj"
      if "\<forall>j. d j < length (set_of (srv_name_to_ip sm) name)"
    proof -
      from ice_query_eq [OF assms(2) _ True, of d] that obtain ip where
        "(name, ip) \<in> ice_rel sm" "ice_query d name sm = Inr (Some ip, sm)" by blast
      with Ice_Query_answer [OF assms(1) n] show ?thesis by auto
    qed
    with True n show ?thesis by simp
  next
    case False
    then have "Ice_Query d g obj sm = Inr (Some (NewAnswer_none g kIceServiceName), obj, sm)"
      using s by (simp add: Ice_Query_def ice_query_def IceSM_Query_def)
    with False n show ?thesis by (simp add: GetTraceId_def default_header_def)
  qed
next
  case False
  then have "GetString obj kQuery = Inl NoSuchFieldException"
    using assms(1) by (auto simp: string_field.get_Inl_iff)
  then have "Ice_Query d g obj sm = Inl NoSuchFieldException" by (simp add: Ice_Query_def)
  with False show ?thesis by (auto split: option.splits field_value.splits)
qed

theorem Ice_Query_answers_witness:
  "Ice_Query (\<lambda>_. 0) 7 (NewKeepAlive 1 ''s'') new_ice_sm = Inl NoSuchFieldException"
proof -
  have "ice_inv new_ice_sm" by (simp add: new_ice_sm_def ice_inv_def sets_wf_def set_of_def)
  then show ?thesis using Ice_Query_answers [of "NewKeepAlive 1 ''s''" new_ice_sm "\<lambda>_. 0" 7] by simp
qed

section \<open>Registrations\<close>

text \<open>
  Registrations. The messages that loki sends (\<^verbatim>\<open>NewRegister\<close>, \<^verbatim>\<open>NewDeregister\<close>) add and
  remove exactly their pair of service name and address. The response carries neither
  \<^verbatim>\<open>#ICE_OK\<close> nor \<^verbatim>\<open>#ICE_FAIL\<close>: both marks are put on the request object, so success and failure
  of a registration look the same to the sender.
\<close>

theorem Ice_Registration_effect:
  assumes "ice_inv sm"
  shows "(\<exists>r o' sm'. Ice_Registration g (NewRegister i name ip prt) sm = Inr (Some r, o', sm')
      \<and> ice_inv sm' \<and> ice_rel sm' = insert (name, ip) (ice_rel sm)
      \<and> field_map r = [kResponseService \<mapsto> VString kIceRegisterServiceName]
      \<and> field_map o' kIceOk = Some (VByte 0))
    \<and> (\<exists>r o' sm'. Ice_Registration g (NewDeregister i name ip) sm = Inr (Some r, o', sm')
      \<and> ice_inv sm' \<and> ice_rel sm' = ice_rel sm - {(name, ip)}
      \<and> field_map r = [kResponseService \<mapsto> VString kIceRegisterServiceName]
      \<and> field_map o' kIceOk = Some (VByte 0))
    \<and> (obj_wf obj \<and> field_map obj kRequestService = Some (VString caller) \<and> field_map obj kIceFailed = None
        \<and> GetType obj \<notin> {kBTRegister, kBTDeregister} \<longrightarrow>
      (\<exists>r o'. Ice_Registration g obj sm = Inr (Some r, o', sm)
         \<and> field_map r = [kResponseService \<mapsto> VString caller] \<and> field_map o' kIceFailed = Some (VByte 0)))"
proof -
  have names: "kRegisterIp \<noteq> kRequestService" "kRegisterPort \<noteq> kRequestService" "kRegisterPort \<noteq> kRegisterIp"
    "kIceOk \<noteq> kRequestService" "kIceOk \<noteq> kRegisterIp" "kIceOk \<noteq> kRegisterPort" "kBTDeregister \<noteq> kBTRegister"
    by (simp_all add: protocol_names blade_type_defs)
  have resp: "field_map (NewResponse_traced g s t c) = [kResponseService \<mapsto> VString c]" for s t c
    by (simp add: NewResponse_traced_def)
  have reg: "GetString (NewRegister i name ip prt) kRequestService = Inr kIceRegisterServiceName"
    "GetString (NewRegister i name ip prt) kRegisterIp = Inr ip"
    "GetType (NewRegister i name ip prt) = kBTRegister" "GetServiceName (NewRegister i name ip prt) = name"
    using names by (simp_all add: string_field.get_Inr_iff) (simp_all add: GetType_def GetServiceName_def)
  have dereg: "GetString (NewDeregister i name ip) kRequestService = Inr kIceRegisterServiceName"
    "GetString (NewDeregister i name ip) kRegisterIp = Inr ip"
    "GetType (NewDeregister i name ip) = kBTDeregister" "GetServiceName (NewDeregister i name ip) = name"
    using names by (simp_all add: string_field.get_Inr_iff) (simp_all add: GetType_def GetServiceName_def)
  have "\<exists>r o'. Ice_Registration g obj sm = Inr (Some r, o', sm)
         \<and> field_map r = [kResponseService \<mapsto> VString caller] \<and> field_map o' kIceFailed = Some (VByte 0)"
    if o: "obj_wf obj" "field_map obj kRequestService = Some (VString caller)" "field_map obj kIceFailed = None"
      "GetType obj \<notin> {kBTRegister, kBTDeregister}"
  proof -
    have "GetString obj kRequestService = Inr caller" using o by (simp add: getter_iffs)
    moreover have "is_exception e" if "GetString obj kRegisterIp = Inl e" for e
      using that GetString_Inl [OF o(1)] by simp
    ultimately show ?thesis using o
      by (cases "GetString obj kRegisterIp")
        (simp_all add: Ice_Registration_def Let_def resp fields_adds kZeroByte_def)
  qed
  moreover note ice.rel_del [OF assms, of name ip] ice.inv_del [OF assms, of name ip]
    ice.rel_add [OF assms, of name ip] ice.inv_add [OF assms, of name ip]
  ultimately show ?thesis using names
    by (auto simp: Ice_Registration_def Let_def reg dereg resp fields_adds kZeroByte_def)
qed

theorem Ice_Registration_effect_witness:
  "\<exists>r o' sm'. Ice_Registration 7 (NewRegister 1 ''s'' ''1'' 80) new_ice_sm = Inr (Some r, o', sm')
    \<and> ice_rel sm' = insert (''s'', ''1'') (ice_rel new_ice_sm)"
proof -
  have "ice_inv new_ice_sm" by (simp add: new_ice_sm_def ice_inv_def sets_wf_def set_of_def)
  from conjunct1 [OF Ice_Registration_effect [OF this, of 7 1 "''s''" "''1''" 80]] show ?thesis by blast
qed

section \<open>Registrations as they arrive\<close>

lemma Ice_Registration_arrived:
  assumes "obj_wf obj" and "field_map obj kRequestService = Some (VString caller)" and "field_map obj kRegisterIp = Some (VString ip)"
  shows "GetType obj = kBTRegister \<Longrightarrow> \<exists>o'. Ice_Registration g obj sm =
      Inr (Some (NewResponse_traced g kIceRegisterServiceName (GetTraceId obj) caller), o', IceSM_Register (GetServiceName obj) ip sm)"
    and "GetType obj = kBTDeregister \<Longrightarrow> \<exists>o'. Ice_Registration g obj sm =
      Inr (Some (NewResponse_traced g kIceRegisterServiceName (GetTraceId obj) caller), o', IceSM_Deregister [] (GetServiceName obj) ip sm)"
proof -
  have "GetString obj kRequestService = Inr caller" "GetString obj kRegisterIp = Inr ip"
    using assms by (simp_all add: getter_iffs)
  then show "GetType obj = kBTRegister \<Longrightarrow> \<exists>o'. Ice_Registration g obj sm =
      Inr (Some (NewResponse_traced g kIceRegisterServiceName (GetTraceId obj) caller), o', IceSM_Register (GetServiceName obj) ip sm)"
    and "GetType obj = kBTDeregister \<Longrightarrow> \<exists>o'. Ice_Registration g obj sm =
      Inr (Some (NewResponse_traced g kIceRegisterServiceName (GetTraceId obj) caller), o', IceSM_Deregister [] (GetServiceName obj) ip sm)"
    by (simp_all add: Ice_Registration_def Let_def blade_type_defs)
qed

end
