(* ===== verification/Mesh_Ice.thy ===== *)
theory Mesh_Ice
  imports Mesh_Peers Ice_Service Atreus_Process Atreus_Watchdog
begin

text \<open>
  Atreus with ice behind it: what loki asks of ice and tells it, message by message, and what kartos does with a
  request that loki sent on. The network of the atreus process is built from the model of ice.
\<close>

section \<open>Discovery through ice\<close>

lemma ice_answers_query:
  assumes inv: "ice_inv sm" and d: "\<forall>j. d j < length (set_of (srv_name_to_ip sm) name) \<or> \<not> IceSM_Contains name sm"
  obtains r where "obj_wf r" "(IceSM_Contains name sm \<and> (\<exists>ip. (name, ip) \<in> ice_rel sm \<and> field_map r = [kAnswerIp \<mapsto> VString ip]
        \<and> body_size r = 27 + length ip))
      \<or> (\<not> IceSM_Contains name sm \<and> field_map r = [kNoAnswer \<mapsto> VByte 0] \<and> body_size r = 24)"
    "\<And>q'. obj_wf q' \<Longrightarrow> field_map q' = field_map (NewQuery i kLokiServiceName name) \<Longrightarrow> GetType q' = kBTQuery \<Longrightarrow> GetTraceId q' = 0 \<Longrightarrow>
      Service_OnRecv (ice_policy d) g (Some q') sm = Inr (Some r, sm)"
proof (cases "IceSM_Contains name sm")
  case True
  have d': "d j < length (set_of (srv_name_to_ip sm) name)" for j using d True by blast
  obtain ip where ip: "(name, ip) \<in> ice_rel sm" "ice_query d name sm = Inr (Some ip, sm)"
    using ice_query_eq [where d = d and name = name, OF inv d' True] by (elim exE conjE)
  let ?r = "NewAnswer_traced g kIceServiceName 0 name ip"
  have "Service_OnRecv (ice_policy d) g (Some q') sm = Inr (Some ?r, sm)"
    if q': "obj_wf q'" "field_map q' = field_map (NewQuery i kLokiServiceName name)" "GetType q' = kBTQuery" "GetTraceId q' = 0" for q'
  proof (rule dispatch_handler [OF q'(1) _ _ ice_table(1)])
    show "GetType q' \<noteq> kBTKeepAlive" using q'(3) by (simp add: blade_type_defs)
    show "field_map q' kRequestService = Some (VString kIceServiceName)" using q'(2) by (simp add: protocol_names)
    have "field_map q' kQuery = Some (VString name)" using q'(2) by (simp add: protocol_names)
    from Ice_Query_answer [OF q'(1) this ip(2), of g] q'(4) show "Ice_Query d g q' sm = Inr (Some ?r, q', sm)" by simp
  qed
  then show thesis using True ip by (intro that [of ?r]) (auto simp: protocol_names)
next
  case False
  let ?q = "NewQuery i kLokiServiceName name" and ?r = "NewAnswer_none g kIceServiceName"
  have "Service_OnRecv (ice_policy d) g (Some q') sm = Inr (Some ?r, sm)"
    if q': "obj_wf q'" "field_map q' = field_map ?q" "GetType q' = kBTQuery" "GetTraceId q' = 0" for q'
  proof (rule dispatch_handler [OF q'(1) _ _ ice_table(1)])
    show "GetType q' \<noteq> kBTKeepAlive" using q'(3) by (simp add: blade_type_defs)
    show "field_map q' kRequestService = Some (VString kIceServiceName)" using q'(2) by (simp add: protocol_names)
    have "GetString q' kQuery = Inr name" using q'(1,2) by (simp add: getter_iffs protocol_names)
    then show "Ice_Query d g q' sm = Inr (Some ?r, q', sm)"
      using False by (simp add: Ice_Query_def ice_query_def IceSM_Query_def)
  qed
  then show thesis using False by (intro that [of ?r]) (auto simp: protocol_names)
qed

text \<open>What a server of atreus does with a request: it opens a session to forward it, or writes an answer.\<close>

definition opens_to :: "atreus_env \<Rightarrow> atreus_policy \<Rightarrow> atreus_state \<Rightarrow> blade_object \<Rightarrow> string \<times> port \<Rightarrow> atreus_state \<Rightarrow> bool" where
  "opens_to env p st q ep st' \<longleftrightarrow> (\<exists>w c. connected env p st (arriving 0 q) = Inr w
     \<and> in_flight w = [(1, AsyncConnect)] \<and> session 1 w = Inr c \<and> bs_endpoint c = Some ep \<and> process w = st')"

definition answers_with :: "atreus_env \<Rightarrow> atreus_policy \<Rightarrow> atreus_state \<Rightarrow> blade_object \<Rightarrow> blade_object \<Rightarrow> atreus_state \<Rightarrow> bool" where
  "answers_with env p st q r st' \<longleftrightarrow> (\<exists>w. connected env p st (arriving 0 q) = Inr w
     \<and> in_flight w = [(0, AsyncWrite (object_image (UpdateHeaderField r)) (40 + body_size r))] \<and> process w = st')"

lemma opens_to_pair:
  "connected env p st (arriving 0 q) = Inr (pair_world s p (BS_Hold n 0 (BladeSession (Some ep))) n st' [(1, AsyncConnect)])
    \<Longrightarrow> opens_to env p st q ep st'"
  by (simp add: opens_to_def BS_Hold_def BladeSession_def)

text \<open>Loki with ice behind it.\<close>

lemma loki_discovers:
  assumes "obj_wf q" and "obj_fits q" and "GetType q \<notin> {kBTRegister, kBTDeregister}" and "GetTraceId q = 0"
    and "field_map q kRequestService = Some (VString name)" and "length name + length (GetServiceName q) < 2 ^ 30"
    and "env_net env (ice_ip env) kIcePort = Inr (server_peer (service_dispatch g) (ice_policy d) sm)" and "ice_inv sm"
    and "\<forall>j. d j < length (set_of (srv_name_to_ip sm) name) \<or> name \<notin> Domain (ice_rel sm)"
    and "\<forall>ip \<in> ice_rel sm `` {name}. address_ok env ip \<and> length ip < 2 ^ 30"
  shows "name \<in> Domain (ice_rel sm) \<Longrightarrow> \<exists>ip \<in> ice_rel sm `` {name}. opens_to env LokiPolicy st q (ip, kKartosPort) st"
    and "name \<notin> Domain (ice_rel sm) \<Longrightarrow> AtreusDM_DoError name (at_data st) = Inr dm \<Longrightarrow>
      answers_with env LokiPolicy st q (no_service (draw env 1) q name) (st\<lparr>at_data := dm\<rparr>)"
proof -
  let ?m = "NewQuery (draw env 0) kLokiServiceName name"
  have known: "IceSM_Contains name sm \<longleftrightarrow> name \<in> Domain (ice_rel sm)" using Contains_rel [OF assms(8)] .
  obtain r where r: "obj_wf r" "(IceSM_Contains name sm \<and> (\<exists>ip. (name, ip) \<in> ice_rel sm \<and> field_map r = [kAnswerIp \<mapsto> VString ip]
        \<and> body_size r = 27 + length ip)) \<or> (\<not> IceSM_Contains name sm \<and> field_map r = [kNoAnswer \<mapsto> VByte 0] \<and> body_size r = 24)"
    and answers: "\<And>q'. obj_wf q' \<Longrightarrow> field_map q' = field_map ?m \<Longrightarrow> GetType q' = kBTQuery \<Longrightarrow> GetTraceId q' = 0 \<Longrightarrow>
      Service_OnRecv (ice_policy d) g (Some q') sm = Inr (Some r, sm)"
    using ice_answers_query [where d = d and name = name and g = g and i = "draw env 0", OF assms(8)] assms(9)
    unfolding known by metis
  have fits: "obj_fits ?m" "obj_fits (no_service (draw env 1) q name)"
    using assms(6) by (simp_all add: obj_fits_def sizeof_header_def protocol_names)
  have "length ip < 2 ^ 30" if "(name, ip) \<in> ice_rel sm" for ip using assms(10) that by blast
  then have "body_size r < 2 ^ 30 + 27" using r(2) by fastforce
  then have fits_r: "obj_fits r" by (simp add: obj_fits_def sizeof_header_def)
  have t: "GetType ?m = kBTQuery" "GetTraceId ?m = 0" by (simp_all add: GetType_def GetTraceId_def default_header_def)
  obtain a where a: "CallExt (env_net env) (Some ?m) kIcePort (ice_ip env) = Inr (Some a)" "obj_wf a" "field_map a = field_map r"
    by (rule server_call [where net = "env_net env" and ip = "ice_ip env" and prt = kIcePort and st' = sm, OF constructors_wf(6) fits(1) r(1) fits_r assms(7)]) (use answers t in auto)
  obtain s q' where found: "\<And>ip. field_map a kNoAnswer = None \<Longrightarrow> field_map a kAnswerIp = Some (VString ip) \<Longrightarrow> address_ok env ip \<Longrightarrow>
      connected env LokiPolicy st (arriving 0 q) =
        Inr (pair_world s LokiPolicy (BS_Hold ''loki'' 0 (BladeSession (Some (ip, kKartosPort)))) ''loki'' st [(1, AsyncConnect)])"
    and unknown: "\<And>dm. field_map a kNoAnswer \<noteq> None \<Longrightarrow> AtreusDM_DoError name (at_data st) = Inr dm \<Longrightarrow> obj_fits (no_service (draw env 1) q name) \<Longrightarrow>
      \<exists>w. connected env LokiPolicy st (arriving 0 q) = Inr w \<and> process w = st\<lparr>at_data := dm\<rparr>
        \<and> in_flight w = [(0, AsyncWrite (object_image (UpdateHeaderField (no_service (draw env 1) q name)))
            (40 + body_size (no_service (draw env 1) q name)))]"
    by (rule Loki_request_connected [OF assms(1-5) a(1,2)]) blast
  show "\<exists>ip \<in> ice_rel sm `` {name}. opens_to env LokiPolicy st q (ip, kKartosPort) st" if "name \<in> Domain (ice_rel sm)"
  proof -
    from r(2) known that obtain ip where ip: "(name, ip) \<in> ice_rel sm" "field_map r = [kAnswerIp \<mapsto> VString ip]" by blast
    then have "field_map a kNoAnswer = None" "field_map a kAnswerIp = Some (VString ip)" "address_ok env ip"
      using a(3) assms(10) by (auto simp: protocol_names)
    from opens_to_pair [OF found [OF this]] ip(1) show ?thesis by blast
  qed
  show "answers_with env LokiPolicy st q (no_service (draw env 1) q name) (st\<lparr>at_data := dm\<rparr>)"
    if "name \<notin> Domain (ice_rel sm)" "AtreusDM_DoError name (at_data st) = Inr dm"
  proof -
    have "field_map a kNoAnswer \<noteq> None" using r(2) a(3) known that(1) by auto
    from unknown [OF this that(2) fits(2)] show ?thesis by (auto simp: answers_with_def)
  qed
qed

section \<open>Registration with ice\<close>

lemma ice_answers_registration:
  assumes m: "m \<in> {NewRegister i name ip prt, NewDeregister i name ip}"
    and q': "obj_wf q'" "field_map q' = field_map m" "GetType q' = GetType m" "GetTraceId q' = GetTraceId m" "GetServiceName q' = GetServiceName m"
  shows "Service_OnRecv (ice_policy d) g (Some q') sm = Inr (Some (NewResponse_traced g kIceRegisterServiceName 0 kIceRegisterServiceName),
      if m = NewRegister i name ip prt then IceSM_Register name ip sm else IceSM_Deregister [] name ip sm)"
proof -
  have t: "GetType (NewRegister i name ip prt) = kBTRegister" "GetType (NewDeregister i name ip) = kBTDeregister"
    "kBTRegister \<noteq> kBTDeregister" "kBTRegister \<noteq> kBTKeepAlive" "kBTDeregister \<noteq> kBTKeepAlive"
    by (simp_all add: GetType_def blade_type_defs)
  have f: "field_map q' kRequestService = Some (VString kIceRegisterServiceName)" "field_map q' kRegisterIp = Some (VString ip)"
    using m q'(2) by (auto simp: protocol_names)
  have g: "GetTraceId q' = 0" "GetServiceName q' = name"
    using m q'(4,5) by (auto simp: GetTraceId_def GetServiceName_def default_header_def)
  have ka: "GetType q' \<noteq> kBTKeepAlive" using m q'(3) t by auto
  show ?thesis
  proof (cases "m = NewRegister i name ip prt")
    case True
    then have "GetType q' = kBTRegister" using q'(3) t by simp
    from Ice_Registration_arrived(1) [OF q'(1) f this, of g sm] True g show ?thesis
      by (auto intro: dispatch_handler [OF q'(1) ka f(1) ice_table(2)])
  next
    case False
    with m have "GetType q' = kBTDeregister" using q'(3) t by auto
    from Ice_Registration_arrived(2) [OF q'(1) f this, of g sm] False g show ?thesis
      by (auto intro: dispatch_handler [OF q'(1) ka f(1) ice_table(2)])
  qed
qed

text \<open>What loki and ice make of a registration or withdrawal \<open>q\<close>; \<open>m\<close> is the message that loki sends to ice.\<close>

lemma loki_registers:
  assumes "obj_wf q" and "obj_fits q" and "length (GetServiceName q) + length (this_ip env) < 2 ^ 30"
    and "env_net env (ice_ip env) kIcePort = Inr (server_peer (service_dispatch g) (ice_policy d) sm)"
    and q: "GetType q = kBTRegister \<and> field_map q kRegisterPort = Some (VI32 v)
        \<and> m = NewRegister (draw env 0) (GetServiceName q) (this_ip env) (ucast v)
        \<and> sm' = IceSM_Register (GetServiceName q) (this_ip env) sm
        \<and> loc = AtreusSM_Register (GetServiceName q) (ucast v) (at_services st)
      \<or> GetType q = kBTDeregister \<and> m = NewDeregister (draw env 0) (GetServiceName q) (this_ip env)
        \<and> sm' = IceSM_Deregister [] (GetServiceName q) (this_ip env) sm
        \<and> loc = AtreusSM_Deregister (others env) (GetServiceName q) (at_services st)"
  obtains q' where "obj_wf q'" "obj_equiv q' (UpdateHeaderField q)"
    "answers_with env LokiPolicy st q q' (st\<lparr>at_services := loc\<rparr>)"
    "server_state (service_dispatch g) (ice_policy d) (object_image (UpdateHeaderField m)) sm = sm'"
proof -
  let ?reg = "NewRegister (draw env 0) (GetServiceName q) (this_ip env) (ucast v)"
    and ?dereg = "NewDeregister (draw env 0) (GetServiceName q) (this_ip env)"
    and ?r = "NewResponse_traced g kIceRegisterServiceName 0 kIceRegisterServiceName"
  have m: "obj_wf m" "obj_fits m" "m \<in> {?reg, ?dereg}" using assms(3) q by (auto simp: obj_fits_def sizeof_header_def)
  have r: "obj_wf ?r" "obj_fits ?r" by (simp_all add: obj_fits_def sizeof_header_def protocol_names)
  have "GetType ?reg \<noteq> GetType ?dereg" by (simp add: GetType_def blade_type_defs)
  then have neq: "?reg \<noteq> ?dereg" by metis
  have "(if m = ?reg then IceSM_Register (GetServiceName q) (this_ip env) sm
      else IceSM_Deregister [] (GetServiceName q) (this_ip env) sm) = sm'" using q neq by auto
  note answered = ice_answers_registration [OF m(3), of _ d g sm, unfolded this]
  obtain r' where ice: "CallExt (env_net env) (Some m) kIcePort (ice_ip env) = Inr (Some r')"
    and state: "server_state (service_dispatch g) (ice_policy d) (object_image (UpdateHeaderField m)) sm = sm'"
    by (rule server_call [where net = "env_net env" and ip = "ice_ip env" and prt = kIcePort and st' = sm', OF m(1,2) r assms(4)])
      (use answered in auto)
  have "(m, loc) \<in> (if GetType q = kBTRegister \<and> field_map q kRegisterPort = Some (VI32 v)
      then {(?reg, AtreusSM_Register (GetServiceName q) (ucast v) (at_services st))}
      else if GetType q = kBTDeregister then {(?dereg, AtreusSM_Deregister (others env) (GetServiceName q) (at_services st))} else {})"
    using q by (auto simp: blade_type_defs)
  from Loki_registration_connected [OF assms(1,2) this] ice obtain q' w where w: "connected env LokiPolicy st (arriving 0 q) = Inr w"
    "process w = st\<lparr>at_services := loc\<rparr>" "obj_wf q'" "obj_equiv q' (UpdateHeaderField q)"
    "in_flight w = [(0, AsyncWrite (object_image (UpdateHeaderField q')) (40 + body_size q))]" by auto
  moreover have "body_size q' = body_size q" using obj_equiv_size [OF w(4)] assms(2) by simp
  ultimately show thesis using state by (intro that [of q']) (simp_all add: answers_with_def)
qed

text \<open>
  When ice cannot be reached, the service is told the same as when it can: the call gives back loki's own message, which nobody
  looks at. The service is then registered at its host and nowhere else.
\<close>

lemma registration_unheard:
  assumes "obj_wf q" and "obj_fits q" and "env_net env (ice_ip env) kIcePort = Inr p" and "pr_connect p \<noteq> 0"
    and "GetType q = kBTRegister" and "field_map q kRegisterPort = Some (VI32 v)"
  obtains q' where "obj_equiv q' (UpdateHeaderField q)"
    "answers_with env LokiPolicy st q q' (st\<lparr>at_services := AtreusSM_Register (GetServiceName q) (ucast v) (at_services st)\<rparr>)"
proof -
  let ?m = "NewRegister (draw env 0) (GetServiceName q) (this_ip env) (ucast v)"
    and ?loc = "AtreusSM_Register (GetServiceName q) (ucast v) (at_services st)"
  have ice: "CallExt (env_net env) (Some ?m) kIcePort (ice_ip env) = Inr (Some ?m)"
    using assms(3,4) by (simp add: CallExt_def Start_def SetObject_def GetObject_def deref_clone_def Clone_def)
  have "(?m, ?loc) \<in> (if GetType q = kBTRegister \<and> field_map q kRegisterPort = Some (VI32 v)
      then {(?m, AtreusSM_Register (GetServiceName q) (ucast v) (at_services st))}
      else if GetType q = kBTDeregister then {(NewDeregister (draw env 0) (GetServiceName q) (this_ip env),
        AtreusSM_Deregister (others env) (GetServiceName q) (at_services st))} else {})"
    using assms(5,6) by simp
  from Loki_registration_connected [OF assms(1,2) this] ice obtain q' w where w: "connected env LokiPolicy st (arriving 0 q) = Inr w"
    "process w = st\<lparr>at_services := ?loc\<rparr>" "obj_equiv q' (UpdateHeaderField q)"
    "in_flight w = [(0, AsyncWrite (object_image (UpdateHeaderField q')) (40 + body_size q))]" by auto
  moreover have "body_size q' = body_size q" using obj_equiv_size [OF w(3)] assms(2) by simp
  ultimately show thesis by (intro that [of q']) (simp_all add: answers_with_def)
qed

section \<open>Delegating a service\<close>

text \<open>Serving the bytes of a message and delivering them to a fresh connection are the same.\<close>

lemma serve_connected:
  assumes "p \<in> {KartosPolicy, LokiPolicy}" and "obj_wf q" and "obj_fits q"
  shows "serve (Atreus_on env) p (object_image (UpdateHeaderField q)) st
    = and_then (connected env p st (arriving 0 q)) (\<lambda>w. Inr (in_flight w, process w))"
proof -
  let ?u = "UpdateHeaderField q"
  have len: "length (body_image ?u) = unat (payload_length (bo_header ?u))" "length (body_image ?u) < 2 ^ 31"
    by (rule sent_facts [OF assms(2,3)], assumption)+
  show ?thesis
    by (rule serve_eq [where on = "Atreus_on env" and p = p and st = st and rest = "[]", OF atreus_start [OF assms(1)] len])
      (simp add: object_image_def connected_def arriving_def and_then_assoc)
qed

lemma answers_with_serve:
  assumes "answers_with env p st q r st'" and "p \<in> {KartosPolicy, LokiPolicy}" and "obj_wf q" and "obj_fits q"
  shows "serve (Atreus_on env) p (object_image (UpdateHeaderField q)) st
    = Inr ([(0, AsyncWrite (object_image (UpdateHeaderField r)) (40 + body_size r))], st')"
  using assms(1) by (auto simp: answers_with_def serve_connected [OF assms(2-4)])

lemma port_through_i32: "ucast (ucast (prt :: port) :: i32) = prt"
  by (simp add: ucast_up_ucast_id is_up)

text \<open>The message of \<^verbatim>\<open>Delegate\<close>, at loki and from there at ice.\<close>

lemma delegate_registers:
  assumes "length service + length (this_ip env) < 2 ^ 30"
    and "net ''127.0.0.1'' kLokiPort = Inr (server_peer (Atreus_on env) LokiPolicy st)"
    and "env_net env (ice_ip env) kIcePort = Inr (server_peer (service_dispatch g) (ice_policy d) sm)"
  shows "Delegate net i service h pol = Inr (DelegateExt service h pol)"
    and "server_state (Atreus_on env) LokiPolicy (object_image (UpdateHeaderField (NewRegister i service '''' (policy_port pol)))) st
      = st\<lparr>at_services := AtreusSM_Register service (policy_port pol) (at_services st)\<rparr>"
    and "server_state (service_dispatch g) (ice_policy d) (object_image (UpdateHeaderField
        (NewRegister (draw env 0) service (this_ip env) (policy_port pol)))) sm = IceSM_Register service (this_ip env) sm"
proof -
  let ?q = "NewRegister i service '''' (policy_port pol)" and ?st = "st\<lparr>at_services := AtreusSM_Register service (policy_port pol) (at_services st)\<rparr>"
  have q: "obj_fits ?q" "GetServiceName ?q = service" "GetType ?q = kBTRegister" "field_map ?q kRegisterPort = Some (VI32 (ucast (policy_port pol)))"
    using assms(1) by (simp_all add: obj_fits_def sizeof_header_def accessor_defs protocol_names)
  obtain q' where q': "obj_wf q'" "obj_equiv q' (UpdateHeaderField ?q)" "answers_with env LokiPolicy st ?q q' ?st"
    and ice: "server_state (service_dispatch g) (ice_policy d) (object_image (UpdateHeaderField
        (NewRegister (draw env 0) service (this_ip env) (policy_port pol)))) sm = IceSM_Register service (this_ip env) sm"
    by (rule loki_registers [OF constructors_wf(3) q(1) _ assms(3), of "ucast (policy_port pol)"
        "NewRegister (draw env 0) service (this_ip env) (policy_port pol)" "IceSM_Register service (this_ip env) sm"
        "AtreusSM_Register service (policy_port pol) (at_services st)" st])
      (use assms(1) q in \<open>simp_all add: port_through_i32\<close>)
  have "serve (Atreus_on env) LokiPolicy (object_image (UpdateHeaderField ?q)) st
      = Inr ([(0, AsyncWrite (object_image (UpdateHeaderField q')) (40 + body_size q'))], ?st)"
    by (rule answers_with_serve [OF q'(3) _ constructors_wf(3) q(1)]) simp
  moreover have "obj_fits q'" using obj_equiv_fits [OF q'(2)] q(1) by simp
  ultimately obtain r' where "Call net (Some ?q) = Inr (Some r')"
    and loki: "server_state (Atreus_on env) LokiPolicy (object_image (UpdateHeaderField ?q)) st = ?st"
    using peer_call [where net = net and ip = "''127.0.0.1''" and prt = kLokiPort, OF q(1) q'(1) _ assms(2)] by blast
  then show "Delegate net i service h pol = Inr (DelegateExt service h pol)" by (simp add: Delegate_def DelegateExt_def)
  show "server_state (Atreus_on env) LokiPolicy (object_image (UpdateHeaderField ?q)) st = ?st" by (rule loki)
  show "server_state (service_dispatch g) (ice_policy d) (object_image (UpdateHeaderField
        (NewRegister (draw env 0) service (this_ip env) (policy_port pol)))) sm = IceSM_Register service (this_ip env) sm" by (rule ice)
qed

text \<open>A request that reaches the kartos of a host with the service.\<close>

lemma kartos_opens:
  assumes "obj_wf q" and "obj_fits q" and "GetType q = kBTRequest" and "field_map q kRequestService = Some (VString name)"
    and "map_of (at_services st) name = Some prt" and "others env = []" and "address_ok env (this_ip env)"
    and "and_then (AtreusDM_DoQuery name (at_data st)) (AtreusDM_DoBytes name (int (body_size q))) = Inr dm"
  shows "opens_to env KartosPolicy st q (this_ip env, prt) (st\<lparr>at_data := dm\<rparr>)"
proof -
  obtain s q' where s: "bs_obj s = Some q'"
    and q': "obj_wf q'" "field_map q' = field_map q" "GetType q' = GetType q" "uint (GetPayloadLength q') = int (body_size q)"
    and eq: "\<And>es. connected env KartosPolicy st (arriving 0 q @ es) =
        and_then (Atreus_on env OnRecvWholeBladeObject 0 (one_session s KartosPolicy st)) (play (Atreus_on env) es)"
    by (rule connected_arriving [where p = KartosPolicy and env = env and st = st, OF _ assms(1,2)]) auto
  have "body_size q < 2 ^ 31" using assms(2) by (simp add: obj_fits_def)
  with eq [of "[]"] Kartos_request [OF s q'(1), of name st dm env] q' assms(3-8) show ?thesis
    by (intro opens_to_pair [where n = "''kartos''" and s = s]) (simp add: on_received)
qed

end
