(* ===== verification/Mesh_Registry.thy ===== *)
theory Mesh_Registry
  imports Mesh_Ice
begin

text \<open>
  The whole mesh: one ice and the atreus processes of any number of hosts, each told by its address. The state is
  their registries, and the events are the sections between which other processes, and the other threads
  of the same process, can run: the local section of a registration or withdrawal at a loki, the call to ice
  that follows it (which can fail without anybody noticing), the two sections of a kartos that looks up a service, and a check of
  a watchdog, which holds the lock of its registry and each of whose calls to ice can fail. Ice takes one message at a time.

  \<^verbatim>\<open>Deregister\<close> has two sections as well, but what it does is what its erase does (or nothing, when its test fails), so it
  is one event. Only the atreus processes talk to ice here, and none of the processes ends.
\<close>

section \<open>State and events\<close>

text \<open>What a loki tells ice after it has changed its own registry.\<close>

datatype loki_call = is_Announces: Announces u32 string port | Retracts u32 string

fun call_message :: "string \<Rightarrow> loki_call \<Rightarrow> blade_object" where
  "call_message a (Announces i n prt) = NewRegister i n a prt"
| "call_message a (Retracts i n) = NewDeregister i n a"

record mesh =
  mesh_ice :: ice_sm
  atreus_of :: "string \<Rightarrow> atreus_state"
  sending :: "string \<Rightarrow> loki_call option" \<comment> \<open>what the loki of a host is about to tell ice\<close>
  looking :: "string \<Rightarrow> string option" \<comment> \<open>what the kartos of a host has found and is about to read\<close>

datatype mesh_event =
    LokiRegisters string string port
  | LokiWithdraws string string
  | LokiSends string
  | LokiFails string \<comment> \<open>the call does not reach ice\<close>
  | KartosLooks string string
  | KartosReads string
  | WatchdogChecks string bool \<comment> \<open>whether all its calls reached ice\<close>
  | Counts string \<comment> \<open>any change of the counters\<close>

definition mesh_init :: "mesh \<Rightarrow> bool" where
  "mesh_init m \<longleftrightarrow> m = \<lparr>mesh_ice = new_ice_sm, atreus_of = (\<lambda>_. \<lparr>at_services = [], at_data = new_dm\<rparr>), sending = (\<lambda>_. None), looking = (\<lambda>_. None)\<rparr>"

abbreviation services_of :: "mesh \<Rightarrow> string \<Rightarrow> services" where
  "services_of m a \<equiv> at_services (atreus_of m a)"

definition with_services :: "string \<Rightarrow> services \<Rightarrow> mesh \<Rightarrow> mesh" where
  "with_services a s m = m\<lparr>atreus_of := (atreus_of m)(a := (atreus_of m a)\<lparr>at_services := s\<rparr>)\<rparr>"

text \<open>Ice after a message, and the peer it is in the network of a process.\<close>

definition ice_after :: "u32 \<Rightarrow> (nat \<Rightarrow> nat) \<Rightarrow> blade_object \<Rightarrow> ice_sm \<Rightarrow> ice_sm" where
  "ice_after g d msg sm = server_state (service_dispatch g) (ice_policy d) (object_image (UpdateHeaderField msg)) sm"

definition faces_ice :: "atreus_env \<Rightarrow> string \<Rightarrow> u32 \<Rightarrow> (nat \<Rightarrow> nat) \<Rightarrow> ice_sm \<Rightarrow> bool" where
  "faces_ice env a g d sm \<longleftrightarrow> this_ip env = a
     \<and> env_net env (ice_ip env) kIcePort = Inr (server_peer (service_dispatch g) (ice_policy d) sm)"

text \<open>
  The messages that a check sends to ice, in their order. What ice answers to one does not depend on those before, so the
  network of a check is that of its beginning.
\<close>

definition withdrawals :: "atreus_env \<Rightarrow> atreus_state \<Rightarrow> blade_object list" where
  "withdrawals env st = (case AtreusSM_Iterate_UNSAFE (check_callback env) (at_services st) (0, []) of
       Inr (k, need) \<Rightarrow> map (\<lambda>(j, n). NewDeregister (draw env j) n (this_ip env)) (enumerate k (map fst need))
     | Inl _ \<Rightarrow> [])"

text \<open>
  The result of a call to ice is not looked at, neither by a loki nor by a check: a message that is lost changes nothing, and
  the caller goes on. (A call whose answer is lost has reached ice.) A check loses any of its messages.
\<close>

inductive mesh_does :: "mesh_event \<Rightarrow> mesh \<Rightarrow> mesh \<Rightarrow> bool" where
  registers: "sending m a = None \<Longrightarrow> length n + length a < 2 ^ 30 \<Longrightarrow>
    mesh_does (LokiRegisters a n prt) m
      (with_services a (AtreusSM_Register n prt (services_of m a)) m\<lparr>sending := (sending m)(a := Some (Announces i n prt))\<rparr>)"
| withdraws: "sending m a = None \<Longrightarrow> length n + length a < 2 ^ 30 \<Longrightarrow>
    mesh_does (LokiWithdraws a n) m
      (with_services a (AtreusSM_Deregister [] n (services_of m a)) m\<lparr>sending := (sending m)(a := Some (Retracts i n))\<rparr>)"
| sends: "sending m a = Some c \<Longrightarrow>
    mesh_does (LokiSends a) m (m\<lparr>mesh_ice := ice_after g d (call_message a c) (mesh_ice m), sending := (sending m)(a := None)\<rparr>)"
| unheard: "sending m a = Some c \<Longrightarrow> mesh_does (LokiFails a) m (m\<lparr>sending := (sending m)(a := None)\<rparr>)"
| looks: "looking m a = None \<Longrightarrow> AtreusSM_Contains n (services_of m a) \<Longrightarrow>
    mesh_does (KartosLooks a n) m (m\<lparr>looking := (looking m)(a := Some n)\<rparr>)"
| reads: "looking m a = Some n \<Longrightarrow>
    mesh_does (KartosReads a) m (with_services a (snd (subscript n (services_of m a))) m\<lparr>looking := (looking m)(a := None)\<rparr>)"
| checks: "this_ip env = a \<Longrightarrow> Watchdog_Check env (atreus_of m a) = Inr st \<Longrightarrow>
    told \<in> set (subseqs (withdrawals env (atreus_of m a))) \<Longrightarrow> heard = (told = withdrawals env (atreus_of m a)) \<Longrightarrow>
    mesh_does (WatchdogChecks a heard) m (m\<lparr>atreus_of := (atreus_of m)(a := st), mesh_ice := fold (ice_after g d) told (mesh_ice m)\<rparr>)"
| counts: "mesh_does (Counts a) m (m\<lparr>atreus_of := (atreus_of m)(a := (atreus_of m a)\<lparr>at_data := dm\<rparr>)\<rparr>)"

inductive_cases mesh_doesE: "mesh_does e m m'"

text \<open>The steps that a condition on the event and the state allows.\<close>

definition mesh_step :: "(mesh_event \<Rightarrow> mesh \<Rightarrow> bool) \<Rightarrow> mesh \<Rightarrow> mesh \<Rightarrow> bool" where
  "mesh_step allowed m m' \<longleftrightarrow> (\<exists>e. allowed e m \<and> mesh_does e m m')"

lemma mesh_event:
  "reach mesh_init (mesh_step allowed) m \<Longrightarrow> allowed e m \<Longrightarrow> mesh_does e m m' \<Longrightarrow> reach mesh_init (mesh_step allowed) m'"
  by (erule reach_step) (auto simp: mesh_step_def)

text \<open>
  What has to be so for host and ice to agree: every call to ice reaches it; no check comes between the two sections of a
  registration or withdrawal at its host, or of a look-up of its kartos; and no withdrawal of a service comes
  between the two sections of a look-up of that service.
\<close>

fun undisturbed :: "mesh_event \<Rightarrow> mesh \<Rightarrow> bool" where
  "undisturbed (LokiFails a) m \<longleftrightarrow> False"
| "undisturbed (WatchdogChecks a heard) m \<longleftrightarrow> heard \<and> sending m a = None \<and> looking m a = None"
| "undisturbed (LokiWithdraws a n) m \<longleftrightarrow> looking m a \<noteq> Some n"
| "undisturbed _ m \<longleftrightarrow> True"

section \<open>What the messages do at ice\<close>

lemma ice_after_message:
  assumes "length n + length a < 2 ^ 30" and "msg \<in> {NewRegister i n a prt, NewDeregister i n a}"
  shows "ice_after g d msg sm = (if msg = NewRegister i n a prt then IceSM_Register n a sm else IceSM_Deregister [] n a sm)"
proof -
  let ?net = "\<lambda>_ _. Inr (server_peer (service_dispatch g) (ice_policy d) sm)"
    and ?r = "NewResponse_traced g kIceRegisterServiceName 0 kIceRegisterServiceName"
  have m: "obj_wf msg" "obj_fits msg" using assms by (auto simp: obj_fits_def sizeof_header_def)
  have r: "obj_wf ?r" "obj_fits ?r" by (simp_all add: obj_fits_def sizeof_header_def protocol_names)
  show ?thesis
    by (rule server_call [where net = ?net and ip = "''''" and prt = 0, OF m r refl])
      (use ice_answers_registration [OF assms(2)] in \<open>auto simp: ice_after_def\<close>)
qed

lemma ice_after_call:
  assumes "length n + length a < 2 ^ 30"
  shows "ice_after g d (NewRegister i n a prt) sm = IceSM_Register n a sm"
    and "ice_after g d (NewDeregister i n a) sm = IceSM_Deregister [] n a sm"
proof -
  have "GetType (NewRegister i n a prt) \<noteq> GetType (NewDeregister i n a)" by (simp add: GetType_def blade_type_defs)
  then have "NewDeregister i n a \<noteq> NewRegister i n a prt" by metis
  then show "ice_after g d (NewRegister i n a prt) sm = IceSM_Register n a sm"
    "ice_after g d (NewDeregister i n a) sm = IceSM_Deregister [] n a sm"
    using ice_after_message [OF assms, of _ i prt g d sm] by simp_all
qed

section \<open>What a check does to both registries\<close>

lemma iterate_subset:
  "AtreusSM_Iterate_UNSAFE (check_callback env) ps (k, need) = Inr (k', need') \<Longrightarrow> set need' \<subseteq> set need \<union> set ps"
proof (induction ps arbitrary: k need)
  case Nil
  then show ?case by (simp add: AtreusSM_Iterate_UNSAFE_def)
next
  case (Cons e ps)
  obtain n p where e: "e = (n, p)" by (cases e)
  have fail: "fold (\<lambda>(n, p) r. and_then r (\<lambda>s. check_callback env s n p)) ps (Inl x) = Inl x" for x
    by (induction ps) auto
  from Cons.prems obtain k1 need1 where "check_callback env (k, need) n p = Inr (k1, need1)"
    "AtreusSM_Iterate_UNSAFE (check_callback env) ps (k1, need1) = Inr (k', need')"
    by (cases "check_callback env (k, need) n p") (auto simp: AtreusSM_Iterate_UNSAFE_def e fail)
  moreover from this have "set need1 \<subseteq> insert e (set need)"
    by (auto simp: check_callback_def Let_def and_then_Inr_iff e split: if_splits)
  ultimately show ?case using Cons.IH [of k1 need1] by auto
qed

lemma deregister_dead_services:
  "deregister_dead env k need st = Inr st' \<Longrightarrow>
    map_of (at_services st') = map_of (at_services st) |` (- fst ` set need)"
proof (induction need arbitrary: k st)
  case (Cons e need)
  from Cons.prems obtain dm where "deregister_dead env (Suc k) need
      (st\<lparr>at_services := AtreusSM_Deregister_UNSAFE (fst e) (at_services st), at_data := dm\<rparr>) = Inr st'"
    by (auto simp: Let_def and_then_Inr_iff)
  then obtain st1 where "at_services st1 = AtreusSM_Deregister_UNSAFE (fst e) (at_services st)"
    "deregister_dead env (Suc k) need st1 = Inr st'" by (metis atreus_state.select_convs(1) atreus_state.surjective atreus_state.update_convs)
  with Cons.IH [of "Suc k" st1] show ?case
    by (auto simp: Deregister_UNSAFE_map restrict_map_def fun_eq_iff)
qed (simp add: restrict_map_def)

lemma subseqs_map: "ys \<in> set (subseqs (map f xs)) \<Longrightarrow> \<exists>zs. ys = map f zs \<and> set zs \<subseteq> set xs"
proof (induction xs arbitrary: ys)
  case (Cons x xs)
  then consider zs where "ys = f x # zs" "zs \<in> set (subseqs (map f xs))" | "ys \<in> set (subseqs (map f xs))"
    by (auto simp: Let_def)
  then show ?case
  proof cases
    case (1 zs)
    with Cons.IH [of zs] obtain ws where "ys = map f (x # ws)" "set ws \<subseteq> set xs" by auto
    then show ?thesis by (intro exI [of _ "x # ws"]) auto
  next
    case 2
    from Cons.IH [OF this] show ?thesis by auto
  qed
qed simp

lemma withdrawals_at_ice:
  assumes "\<forall>n \<in> snd ` set ps. length n + length a < 2 ^ 30" and "ice_inv sm"
  shows "ice_inv (fold (ice_after g d) (map (\<lambda>(j, n). NewDeregister (draw env j) n a) ps) sm)
    \<and> ice_rel (fold (ice_after g d) (map (\<lambda>(j, n). NewDeregister (draw env j) n a) ps) sm) = ice_rel sm - (snd ` set ps) \<times> {a}"
  using assms
proof (induction ps arbitrary: sm)
  case (Cons p ps)
  obtain k n where p: "p = (k, n)" by (cases p)
  have step: "ice_after g d (NewDeregister (draw env k) n a) sm = IceSM_Deregister [] n a sm"
    by (rule ice_after_call) (use Cons.prems(1) p in simp)
  have "ice_inv (IceSM_Deregister [] n a sm)" "ice_rel (IceSM_Deregister [] n a sm) = ice_rel sm - {(n, a)}"
    using ice.inv_del [OF Cons.prems(2)] ice.rel_del [OF Cons.prems(2)] by simp_all
  with Cons.IH [of "IceSM_Deregister [] n a sm"] Cons.prems(1) show ?case
    by (auto simp: step p)
qed simp

text \<open>A check takes names out of the host's registry, and out of ice those of them whose withdrawal reached it.\<close>

lemma check_both:
  assumes "Watchdog_Check env st = Inr st'" and "this_ip env = a"
    and "\<forall>n \<in> dom (map_of (at_services st)). length n + length a < 2 ^ 30" and "ice_inv sm"
    and "told \<in> set (subseqs (withdrawals env st))"
  obtains dead gone where "dead \<subseteq> dom (map_of (at_services st))" "gone \<subseteq> dead" "told = withdrawals env st \<longrightarrow> gone = dead"
    "map_of (at_services st') = map_of (at_services st) |` (- dead)"
    "ice_inv (fold (ice_after g d) told sm)" "ice_rel (fold (ice_after g d) told sm) = ice_rel sm - gone \<times> {a}"
proof -
  from assms(1) obtain k need where need: "AtreusSM_Iterate_UNSAFE (check_callback env) (at_services st) (0, []) = Inr (k, need)"
    and dead: "deregister_dead env k need st = Inr st'"
    by (auto simp: Watchdog_Check_def and_then_Inr_iff)
  let ?all = "enumerate k (map fst need)" and ?m = "\<lambda>(j, n). NewDeregister (draw env j) n a"
  have w: "withdrawals env st = map ?m ?all" by (simp add: withdrawals_def need assms(2))
  have all: "snd ` set ?all = fst ` set need" by (metis list.set_map map_snd_enumerate)
  have sub: "fst ` set need \<subseteq> dom (map_of (at_services st))"
    using iterate_subset [OF need] by (auto simp: dom_map_of_conv_image_fst)
  obtain ps where ps: "told = map ?m ps" "set ps \<subseteq> set ?all" "told = withdrawals env st \<longrightarrow> snd ` set ps = fst ` set need"
  proof (cases "told = withdrawals env st")
    case True
    then show thesis using that [of ?all] w all by simp
  next
    case False
    with subseqs_map [OF assms(5) [unfolded w]] that show thesis by blast
  qed
  then have gone: "snd ` set ps \<subseteq> fst ` set need" using all by blast
  then have "\<forall>n \<in> snd ` set ps. length n + length a < 2 ^ 30" using sub assms(3) by blast
  from withdrawals_at_ice [OF this assms(4), of g d env] ps(1)
  have "ice_inv (fold (ice_after g d) told sm)" "ice_rel (fold (ice_after g d) told sm) = ice_rel sm - (snd ` set ps) \<times> {a}"
    by simp_all
  with sub gone ps(3) deregister_dead_services [OF dead] show thesis by (intro that [of "fst ` set need" "snd ` set ps"])
qed

section \<open>The names\<close>

text \<open>
  The abstract mesh: for every host the names it knows and the names ice has on it, what its loki is about to
  tell ice and what its kartos has found. A section of loki changes the first, its call copies that one name to the second, a check
  removes a set of names the host knows and some of them from ice, and the second section of a look-up puts its name in.
\<close>

record name_view =
  at_host :: "string \<Rightarrow> string set"
  at_ice :: "string \<Rightarrow> string set"
  calls_of :: "string \<Rightarrow> loki_call option"
  looks_of :: "string \<Rightarrow> string option"

definition view_init :: "name_view \<Rightarrow> bool" where
  "view_init v \<longleftrightarrow> v = \<lparr>at_host = (\<lambda>_. {}), at_ice = (\<lambda>_. {}), calls_of = (\<lambda>_. None), looks_of = (\<lambda>_. None)\<rparr>"

inductive view_does :: "mesh_event \<Rightarrow> name_view \<Rightarrow> name_view \<Rightarrow> bool" where
  v_registers: "calls_of v a = None \<Longrightarrow> view_does (LokiRegisters a n prt) v
    (v\<lparr>at_host := (at_host v)(a := insert n (at_host v a)), calls_of := (calls_of v)(a := Some (Announces i n prt))\<rparr>)"
| v_withdraws: "calls_of v a = None \<Longrightarrow> view_does (LokiWithdraws a n) v
    (v\<lparr>at_host := (at_host v)(a := at_host v a - {n}), calls_of := (calls_of v)(a := Some (Retracts i n))\<rparr>)"
| v_announces: "calls_of v a = Some (Announces i n prt) \<Longrightarrow> view_does (LokiSends a) v
    (v\<lparr>at_ice := (at_ice v)(a := insert n (at_ice v a)), calls_of := (calls_of v)(a := None)\<rparr>)"
| v_retracts: "calls_of v a = Some (Retracts i n) \<Longrightarrow> view_does (LokiSends a) v
    (v\<lparr>at_ice := (at_ice v)(a := at_ice v a - {n}), calls_of := (calls_of v)(a := None)\<rparr>)"
| v_unheard: "calls_of v a = Some c \<Longrightarrow> view_does (LokiFails a) v (v\<lparr>calls_of := (calls_of v)(a := None)\<rparr>)"
| v_looks: "looks_of v a = None \<Longrightarrow> n \<in> at_host v a \<Longrightarrow>
    view_does (KartosLooks a n) v (v\<lparr>looks_of := (looks_of v)(a := Some n)\<rparr>)"
| v_reads: "looks_of v a = Some n \<Longrightarrow> view_does (KartosReads a) v
    (v\<lparr>at_host := (at_host v)(a := insert n (at_host v a)), looks_of := (looks_of v)(a := None)\<rparr>)"
| v_checks: "dead \<subseteq> at_host v a \<Longrightarrow> gone \<subseteq> dead \<Longrightarrow> (heard \<Longrightarrow> gone = dead) \<Longrightarrow> view_does (WatchdogChecks a heard) v
    (v\<lparr>at_host := (at_host v)(a := at_host v a - dead), at_ice := (at_ice v)(a := at_ice v a - gone)\<rparr>)"
| v_counts: "view_does (Counts a) v v"

inductive_cases view_doesE: "view_does e v v'"

definition view_step :: "name_view \<Rightarrow> name_view \<Rightarrow> bool" where
  "view_step v v' \<longleftrightarrow> (\<exists>e. view_does e v v')"

definition view_of :: "mesh \<Rightarrow> name_view" where
  "view_of m = \<lparr>at_host = (\<lambda>a. dom (map_of (services_of m a))), at_ice = (\<lambda>a. {n. (n, a) \<in> ice_rel (mesh_ice m)}), calls_of = sending m,
     looks_of = looking m\<rparr>"

fun call_name :: "loki_call \<Rightarrow> string" where
  "call_name (Announces i n prt) = n"
| "call_name (Retracts i n) = n"

text \<open>Whatever happens: the maps of ice agree with each other, and every name that is somewhere fits into a message.\<close>

definition bounded :: "mesh \<Rightarrow> bool" where
  "bounded m \<longleftrightarrow> ice_inv (mesh_ice m) \<and> (\<forall>a. \<forall>n \<in> at_host (view_of m) a. length n + length a < 2 ^ 30)
     \<and> (\<forall>a c. sending m a = Some c \<longrightarrow> length (call_name c) + length a < 2 ^ 30)
     \<and> (\<forall>a n. looking m a = Some n \<longrightarrow> length n + length a < 2 ^ 30)"

lemma Register_dom: "dom (map_of (AtreusSM_Register n prt s)) = insert n (dom (map_of s))"
  by (auto simp: AtreusSM_Register_def map_of_emplace)

lemma Deregister_dom: "dom (map_of (AtreusSM_Deregister [] n s)) = dom (map_of s) - {n}"
  by (auto simp: AtreusSM_Deregister_def AtreusSM_Contains_def kv_erase_def delete_conv' split: if_splits)

lemma subscript_dom: "dom (map_of (snd (subscript n s))) = insert n (dom (map_of s))"
  by (auto simp: subscript_def Let_def map_of_emplace)

lemma call_at_ice:
  assumes "bounded m" and "sending m a = Some c"
  shows "ice_after g d (call_message a c) (mesh_ice m) = (case c of Announces i n prt \<Rightarrow> IceSM_Register n a (mesh_ice m)
    | Retracts i n \<Rightarrow> IceSM_Deregister [] n a (mesh_ice m))"
proof -
  have "length (call_name c) + length a < 2 ^ 30" using assms by (auto simp: bounded_def)
  then show ?thesis by (cases c) (simp_all add: ice_after_call)
qed

lemma view_with_services [simp]:
  "view_of (with_services a s m\<lparr>sending := f\<rparr>)
    = view_of m\<lparr>at_host := (at_host (view_of m))(a := dom (map_of s)), calls_of := f\<rparr>"
  "view_of (with_services a s m\<lparr>looking := h\<rparr>)
    = view_of m\<lparr>at_host := (at_host (view_of m))(a := dom (map_of s)), looks_of := h\<rparr>"
  by (simp_all add: view_of_def with_services_def fun_eq_iff)

lemma view_sel [simp]:
  "at_host (view_of m) a = dom (map_of (services_of m a))" "at_ice (view_of m) a = {n. (n, a) \<in> ice_rel (mesh_ice m)}"
  "calls_of (view_of m) = sending m" "looks_of (view_of m) = looking m"
  by (simp_all add: view_of_def)

text \<open>A view of the same shape, in the form of the rules.\<close>

lemma view_does_eq: "view_does e v w \<Longrightarrow> v' = w \<Longrightarrow> view_does e v v'"
  by simp

lemma bounded_local:
  assumes "bounded m" and "length (call_name c) + length a < 2 ^ 30"
    and "dom (map_of s) \<subseteq> insert (call_name c) (dom (map_of (services_of m a)))"
  shows "bounded (with_services a s m\<lparr>sending := (sending m)(a := Some c)\<rparr>)"
  using assms by (auto simp: bounded_def with_services_def)

lemma sends_view:
  fixes g :: u32 and d :: "nat \<Rightarrow> nat"
  assumes "bounded m" and "sending m a = Some c"
  defines "m' \<equiv> m\<lparr>mesh_ice := ice_after g d (call_message a c) (mesh_ice m), sending := (sending m)(a := None)\<rparr>"
  shows "bounded m'" and "view_does (LokiSends a) (view_of m) (view_of m')"
proof -
  have inv: "ice_inv (mesh_ice m)" using assms(1) by (simp add: bounded_def)
  note ice = ice.inv_add [OF inv] ice.rel_add [OF inv] ice.inv_del [OF inv] ice.rel_del [OF inv]
  show "bounded m'" using assms(1) call_at_ice [OF assms(1,2), of g d] ice
    by (auto simp: bounded_def m'_def split: loki_call.splits)
  show "view_does (LokiSends a) (view_of m) (view_of m')"
  proof (cases c)
    case (Announces i n prt)
    with assms(2) have "calls_of (view_of m) a = Some (Announces i n prt)" by simp
    from v_announces [OF this] show ?thesis
      by (rule view_does_eq) (use call_at_ice [OF assms(1,2), of g d] ice in \<open>auto simp: m'_def view_of_def Announces fun_eq_iff\<close>)
  next
    case (Retracts i n)
    with assms(2) have "calls_of (view_of m) a = Some (Retracts i n)" by simp
    from v_retracts [OF this] show ?thesis
      by (rule view_does_eq) (use call_at_ice [OF assms(1,2), of g d] ice in \<open>auto simp: m'_def view_of_def Retracts fun_eq_iff\<close>)
  qed
qed

lemma reads_view:
  assumes "bounded m" and "looking m a = Some n"
  defines "m' \<equiv> with_services a (snd (subscript n (services_of m a))) m\<lparr>looking := (looking m)(a := None)\<rparr>"
  shows "bounded m'" and "view_does (KartosReads a) (view_of m) (view_of m')"
proof -
  have "length n + length a < 2 ^ 30" using assms(1,2) by (simp add: bounded_def)
  then show "bounded m'" using assms(1) by (auto simp: bounded_def m'_def subscript_dom) (auto simp: with_services_def)
  have "looks_of (view_of m) a = Some n" using assms(2) by simp
  from v_reads [OF this] show "view_does (KartosReads a) (view_of m) (view_of m')"
    by (rule view_does_eq) (simp add: m'_def subscript_dom)
qed

lemma checks_view:
  fixes g :: u32 and d :: "nat \<Rightarrow> nat"
  assumes "bounded m" and "Watchdog_Check env (atreus_of m a) = Inr st" and "this_ip env = a"
    and "told \<in> set (subseqs (withdrawals env (atreus_of m a)))"
  defines "m' \<equiv> m\<lparr>atreus_of := (atreus_of m)(a := st), mesh_ice := fold (ice_after g d) told (mesh_ice m)\<rparr>"
  shows "bounded m'" and "view_does (WatchdogChecks a (told = withdrawals env (atreus_of m a))) (view_of m) (view_of m')"
proof -
  have b: "\<forall>n \<in> dom (map_of (services_of m a)). length n + length a < 2 ^ 30" "ice_inv (mesh_ice m)"
    using assms(1) by (simp_all add: bounded_def)
  obtain dead gone where dead: "dead \<subseteq> dom (map_of (services_of m a))" "gone \<subseteq> dead"
      "told = withdrawals env (atreus_of m a) \<longrightarrow> gone = dead" "map_of (at_services st) = map_of (services_of m a) |` (- dead)"
    and ice: "ice_inv (mesh_ice m')" "ice_rel (mesh_ice m') = ice_rel (mesh_ice m) - gone \<times> {a}"
    by (rule check_both [OF assms(2,3) b assms(4), of g d]) (simp add: m'_def)
  have dom: "dom (map_of (at_services st)) = dom (map_of (services_of m a)) - dead" by (auto simp: dead(4))
  show "bounded m'" using assms(1) ice(1) by (auto simp: bounded_def m'_def dom)
  have "dead \<subseteq> at_host (view_of m) a" using dead(1) by simp
  from v_checks [OF this dead(2), of "told = withdrawals env (atreus_of m a)"] dead(3)
  show "view_does (WatchdogChecks a (told = withdrawals env (atreus_of m a))) (view_of m) (view_of m')"
    by (elim meta_impE view_does_eq) (use ice(2) in \<open>auto simp: view_of_def m'_def fun_eq_iff dom\<close>)
qed

lemma mesh_view:
  assumes "bounded m" and "mesh_does e m m'"
  shows "bounded m' \<and> view_does e (view_of m) (view_of m')"
  using assms(2)
proof cases
  case (registers a n i prt)
  have "bounded m'" unfolding registers by (rule bounded_local) (use assms(1) registers in \<open>auto simp: Register_dom\<close>)
  moreover have "view_does e (view_of m) (view_of m')" unfolding registers
    by (rule view_does_eq [OF v_registers]) (use registers in \<open>simp_all add: Register_dom\<close>)
  ultimately show ?thesis ..
next
  case (withdraws a n i)
  have "bounded m'" unfolding withdraws by (rule bounded_local) (use assms(1) withdraws in \<open>auto simp: Deregister_dom\<close>)
  moreover have "view_does e (view_of m) (view_of m')" unfolding withdraws
    by (rule view_does_eq [OF v_withdraws]) (use withdraws in \<open>simp_all add: Deregister_dom\<close>)
  ultimately show ?thesis ..
next
  case (sends a c g d)
  then show ?thesis using sends_view [OF assms(1) sends(3)] by simp
next
  case (unheard a c)
  have "view_of m' = view_of m\<lparr>calls_of := (calls_of (view_of m))(a := None)\<rparr>" by (simp add: view_of_def unheard)
  moreover have "calls_of (view_of m) a = Some c" using unheard by simp
  ultimately show ?thesis using assms(1) v_unheard [of "view_of m" a c] by (simp add: bounded_def unheard)
next
  case (looks a n)
  have n: "n \<in> dom (map_of (services_of m a))" using looks by (auto simp: AtreusSM_Contains_def)
  have "view_of m' = view_of m\<lparr>looks_of := (looks_of (view_of m))(a := Some n)\<rparr>" by (simp add: view_of_def looks)
  moreover have "n \<in> at_host (view_of m) a" "looks_of (view_of m) a = None" using looks n by simp_all
  ultimately show ?thesis using assms(1) n v_looks [of "view_of m" a n] by (auto simp: bounded_def looks)
next
  case (reads a n)
  then show ?thesis using reads_view [OF assms(1)] by simp
next
  case (checks env a st told heard g d)
  then show ?thesis using checks_view [OF assms(1) checks(4,3,5)] by simp
next
  case (counts a dm)
  have "view_of m' = view_of m" by (simp add: view_of_def counts fun_eq_iff)
  then show ?thesis using assms(1) v_counts by (simp add: bounded_def counts)
qed

lemma view_start: "mesh_init m \<Longrightarrow> bounded m \<and> view_init (view_of m)"
  by (auto simp: mesh_init_def bounded_def view_of_def view_init_def new_ice_sm_def ice_inv_def ice_rel_def sets_wf_def set_of_def kv_wf_def)

interpretation mesh: simulation mesh_init "mesh_step (\<lambda>_ _. True)" bounded view_of view_init view_step
  by unfold_locales (use view_start mesh_view in \<open>force simp: mesh_step_def view_step_def\<close>)+

section \<open>The handler of loki as two events\<close>

text \<open>
  Loki's handler and the mesh. When nothing runs in between, what loki does with a
  registration or withdrawal, from the bytes of the message to the bytes of its answer, is the two events of the mesh: its own registry
  and ice's are afterwards those of the mesh after the local section and the call, and the sender gets its message back.
\<close>

theorem Loki_handler_sections:
  assumes "obj_wf q" and "obj_fits q" and "length (GetServiceName q) + length a < 2 ^ 30"
    and "faces_ice env a g d (mesh_ice m)" and "others env = []" and "sending m a = None"
    and "GetType q = kBTRegister \<and> field_map q kRegisterPort = Some (VI32 v) \<and> e = LokiRegisters a (GetServiceName q) (ucast v)
      \<or> GetType q = kBTDeregister \<and> e = LokiWithdraws a (GetServiceName q)"
  shows "\<exists>q' m1 m2. mesh_does e m m1 \<and> mesh_does (LokiSends a) m1 m2
    \<and> obj_equiv q' (UpdateHeaderField q) \<and> answers_with env LokiPolicy (atreus_of m a) q q' (atreus_of m2 a)"
proof -
  let ?n = "GetServiceName q" and ?reg = "GetType q = kBTRegister"
  let ?c = "if ?reg then Announces (draw env 0) ?n (ucast v) else Retracts (draw env 0) ?n"
    and ?loc = "if ?reg then AtreusSM_Register ?n (ucast v) (services_of m a) else AtreusSM_Deregister [] ?n (services_of m a)"
    and ?sm = "if ?reg then IceSM_Register ?n a (mesh_ice m) else IceSM_Deregister [] ?n a (mesh_ice m)"
  have len: "length ?n + length (this_ip env) < 2 ^ 30" and ip: "this_ip env = a"
    and net: "env_net env (ice_ip env) kIcePort = Inr (server_peer (service_dispatch g) (ice_policy d) (mesh_ice m))"
    using assms(3,4) by (simp_all add: faces_ice_def)
  obtain q' where q': "obj_equiv q' (UpdateHeaderField q)"
    "answers_with env LokiPolicy (atreus_of m a) q q' ((atreus_of m a)\<lparr>at_services := ?loc\<rparr>)"
    by (rule loki_registers [OF assms(1,2) len net, of v "call_message a ?c" ?sm ?loc "atreus_of m a"])
      (use assms(5,7) ip in \<open>auto simp: blade_type_defs\<close>)
  define m1 where "m1 = with_services a ?loc m\<lparr>sending := (sending m)(a := Some ?c)\<rparr>"
  define m2 where "m2 = m1\<lparr>mesh_ice := ice_after g d (call_message a ?c) (mesh_ice m1), sending := (sending m1)(a := None)\<rparr>"
  have "mesh_does e m m1"
    using registers [of m a ?n "ucast v" "draw env 0"] withdraws [of m a ?n "draw env 0"] assms(3,6,7)
    by (auto simp: m1_def blade_type_defs)
  moreover have "mesh_does (LokiSends a) m1 m2" unfolding m2_def by (rule sends) (simp add: m1_def)
  moreover have "atreus_of m2 a = (atreus_of m a)\<lparr>at_services := ?loc\<rparr>" by (simp add: m2_def m1_def with_services_def)
  ultimately show ?thesis using q' by metis
qed

section \<open>Invariants of the view\<close>

text \<open>
  Host and ice agree on a name, unless it is the one that the host's loki is about to tell ice about: then the host
  already is where ice will be.
\<close>

fun settled :: "loki_call option \<Rightarrow> string set \<Rightarrow> string set \<Rightarrow> bool" where
  "settled None host ice \<longleftrightarrow> host = ice"
| "settled (Some (Announces i n prt)) host ice \<longleftrightarrow> host = insert n ice"
| "settled (Some (Retracts i n)) host ice \<longleftrightarrow> host = ice - {n}"

definition agree :: "name_view \<Rightarrow> string \<Rightarrow> bool" where
  "agree v a \<longleftrightarrow> settled (calls_of v a) (at_host v a) (at_ice v a) \<and> (\<forall>n. looks_of v a = Some n \<longrightarrow> n \<in> at_host v a)"

lemma agree_step:
  assumes "view_does e v v'" and "agree v b" and "undisturbed e m" and "calls_of v = sending m" and "looks_of v = looking m"
  shows "agree v' b"
  using assms by cases (auto simp: agree_def insert_absorb)

text \<open>A name that ice has on a host that does not know it, while nobody there is about to do anything with it.\<close>

definition stranded :: "string \<Rightarrow> string \<Rightarrow> name_view \<Rightarrow> bool" where
  "stranded a n v \<longleftrightarrow> n \<in> at_ice v a \<and> n \<notin> at_host v a \<and> (\<forall>c. calls_of v a = Some c \<longrightarrow> call_name c \<noteq> n)
     \<and> looks_of v a \<noteq> Some n"

definition leaves :: "string \<Rightarrow> string \<Rightarrow> mesh_event \<Rightarrow> bool" where
  "leaves a n e \<longleftrightarrow> (\<forall>prt. e \<noteq> LokiRegisters a n prt) \<and> e \<noteq> LokiWithdraws a n"

lemma stranded_step: "view_does e v v' \<Longrightarrow> leaves a n e \<Longrightarrow> stranded a n v \<Longrightarrow> stranded a n v'"
  by (erule view_does.cases) (auto simp: stranded_def leaves_def)

interpretation undisturbed: invariant_system mesh_init "mesh_step undisturbed" "\<lambda>m. bounded m \<and> (\<forall>a. agree (view_of m) a)"
proof
  fix m m'
  assume inv: "bounded m \<and> (\<forall>a. agree (view_of m) a)" and "mesh_step undisturbed m m'"
  then obtain e where "undisturbed e m" "mesh_does e m m'" by (auto simp: mesh_step_def)
  with agree_step [of e "view_of m" _ _ m] mesh_view inv show "bounded m' \<and> (\<forall>a. agree (view_of m') a)" by auto
qed (use view_start in \<open>auto simp: view_init_def agree_def\<close>)

lemma stranded_steps:
  "(mesh_step (\<lambda>e _. leaves a n e))\<^sup>*\<^sup>* m m' \<Longrightarrow> bounded m \<Longrightarrow> stranded a n (view_of m) \<Longrightarrow> bounded m' \<and> stranded a n (view_of m')"
proof (induction rule: rtranclp_induct)
  case (step m1 m2)
  then obtain e where "leaves a n e" "mesh_does e m1 m2" by (auto simp: mesh_step_def)
  with step mesh_view stranded_step show ?case by blast
qed simp

text \<open>
  C2. Registries agree. Over any run of the mesh in which every call to ice, of a loki or of a check, reaches it, in which no check
  falls between the two sections of a registration, of a withdrawal or of a look-up of kartos at its host, and no withdrawal of a
  service between the two sections of a look-up of that service there: for every host whose loki is not about to call ice, the
  services the host knows are exactly those ice has on it. (Names and addresses are below \<open>2 ^ 30\<close> bytes together, ice hears only
  from the atreus processes, and none of the processes ends. The sections below show what a check between the sections of a
  registration, a lost withdrawal and a withdrawal inside a look-up do.)
\<close>

theorem Registries_agree:
  assumes "reach mesh_init (mesh_step undisturbed) m" and "sending m a = None"
  shows "dom (map_of (at_services (atreus_of m a))) = {n. (n, a) \<in> ice_rel (mesh_ice m)}"
proof -
  have "agree (view_of m) a" using undisturbed.inv_reach [OF assms(1)] by blast
  with assms(2) show ?thesis by (simp add: agree_def)
qed

text \<open>
  C1. Requests are delivered, whatever came before. After any run of the mesh in which the registries agree (every call
  to ice reaches it; no check between the two sections of a registration, withdrawal or look-up at its host, and no
  withdrawal of a service between the two sections of a look-up of it), a request without a trace id at the loki of any
  host that reaches ice, for a service that ice has somewhere, is sent on to the kartos of a host that knows the service, and that
  kartos, not disturbed between its two sections and with its counters in range, sends it on to the port the service
  is registered with there. The lokis of the hosts that ice has for the service are not about to call ice, their addresses are
  well formed, and the draws of ice are in their range.
\<close>

theorem Mesh_delivers:
  assumes "reach mesh_init (mesh_step undisturbed) m"
    and "name \<in> Domain (ice_rel (mesh_ice m))" and "\<forall>a \<in> ice_rel (mesh_ice m) `` {name}. sending m a = None \<and> address_ok env a"
    and "faces_ice env here g d (mesh_ice m)" and "\<forall>j. d j < length (set_of (srv_name_to_ip (mesh_ice m)) name)"
    and "obj_wf q" and "obj_fits q" and "GetType q = kBTRequest" and "GetTraceId q = 0"
    and "field_map q kRequestService = Some (VString name)" and "length name + length (GetServiceName q) < 2 ^ 30"
  shows "\<exists>a prt. map_of (at_services (atreus_of m a)) name = Some prt
    \<and> opens_to env LokiPolicy (atreus_of m here) q (a, kKartosPort) (atreus_of m here)
    \<and> (\<forall>env' dm. this_ip env' = a \<and> others env' = [] \<and> address_ok env' a
         \<and> and_then (AtreusDM_DoQuery name (at_data (atreus_of m a))) (AtreusDM_DoBytes name (int (body_size q))) = Inr dm
       \<longrightarrow> opens_to env' KartosPolicy (atreus_of m a) q (a, prt) ((atreus_of m a)\<lparr>at_data := dm\<rparr>))"
proof -
  have inv: "bounded m" "agree (view_of m) a" for a using undisturbed.inv_reach [OF assms(1)] by auto
  have here: "dom (map_of (services_of m a)) = {n. (n, a) \<in> ice_rel (mesh_ice m)}" if "(name, a) \<in> ice_rel (mesh_ice m)" for a
    using inv(2) [of a] assms(3) that by (auto simp: agree_def)
  have ice: "ice_inv (mesh_ice m)" "env_net env (ice_ip env) kIcePort = Inr (server_peer (service_dispatch g) (ice_policy d) (mesh_ice m))"
    using inv(1) assms(4) by (simp_all add: bounded_def faces_ice_def)
  have t: "GetType q \<notin> {kBTRegister, kBTDeregister}" using assms(8) by (simp add: blade_type_defs)
  have draws: "\<forall>j. d j < length (set_of (srv_name_to_ip (mesh_ice m)) name) \<or> name \<notin> Domain (ice_rel (mesh_ice m))"
    using assms(5) by blast
  have addresses: "\<forall>a \<in> ice_rel (mesh_ice m) `` {name}. address_ok env a \<and> length a < 2 ^ 30"
  proof
    fix a
    assume a: "a \<in> ice_rel (mesh_ice m) `` {name}"
    then have "name \<in> at_host (view_of m) a" using here [of a] by simp
    with inv(1) have "length name + length a < 2 ^ 30" unfolding bounded_def by blast
    then show "address_ok env a \<and> length a < 2 ^ 30" using a assms(3) by simp
  qed
  obtain a where a: "(name, a) \<in> ice_rel (mesh_ice m)"
    "opens_to env LokiPolicy (atreus_of m here) q (a, kKartosPort) (atreus_of m here)"
    using loki_discovers(1) [OF assms(6,7) t assms(9-11) ice(2,1) draws addresses assms(2)] by auto
  then obtain prt where prt: "map_of (services_of m a) name = Some prt" using here [of a] by auto
  have "opens_to env' KartosPolicy (atreus_of m a) q (a, prt) ((atreus_of m a)\<lparr>at_data := dm\<rparr>)"
    if "this_ip env' = a \<and> others env' = [] \<and> address_ok env' a
      \<and> and_then (AtreusDM_DoQuery name (at_data (atreus_of m a))) (AtreusDM_DoBytes name (int (body_size q))) = Inr dm" for env' dm
    using kartos_opens [OF assms(6-8,10) prt, of env' dm] that by auto
  with a(2) prt show ?thesis by blast
qed

section \<open>A check between the sections\<close>

text \<open>A host that reaches ice and nobody else: its services refuse the connection.\<close>

definition only_ice :: "ice_sm \<Rightarrow> network" where
  "only_ice sm ip prt = (if prt = kIcePort then Inr (server_peer (service_dispatch 7) (ice_policy (\<lambda>_. 0)) sm)
     else no_ice ip prt)"

definition lonely :: "string \<Rightarrow> ice_sm \<Rightarrow> atreus_env" where
  "lonely a sm = (demo_env (only_ice sm))\<lparr>this_ip := a\<rparr>"

lemma ice_call:
  assumes "length n + length a < 2 ^ 30" and "net ip prt = Inr (server_peer (service_dispatch g) (ice_policy d) sm)"
  obtains r where "CallExt net (Some (NewDeregister i n a)) prt ip = Inr (Some r)"
proof -
  let ?msg = "NewDeregister i n a" and ?r = "NewResponse_traced g kIceRegisterServiceName 0 kIceRegisterServiceName"
  have m: "obj_wf ?msg" "obj_fits ?msg" using assms(1) by (auto simp: obj_fits_def sizeof_header_def)
  have r: "obj_wf ?r" "obj_fits ?r" by (simp_all add: obj_fits_def sizeof_header_def protocol_names)
  show thesis
    by (rule server_call [where net = net and ip = ip and prt = prt, OF m r assms(2)])
      (use that ice_answers_registration [of ?msg i n a] in auto)
qed

lemma lonely_check:
  assumes "length n + length a < 2 ^ 30" and "prt \<noteq> kIcePort"
  obtains dm where "Watchdog_Check (lonely a sm) \<lparr>at_services = [(n, prt)], at_data = new_dm\<rparr> = Inr \<lparr>at_services = [], at_data = dm\<rparr>"
proof -
  let ?e = "lonely a sm"
  have refused: "answers ?e k prt = Inr None" for k
    using assms(2) by (simp add: answers_def lonely_def demo_env_def only_ice_def no_ice_def CallExtNotSure_def Start_def SetObject_def)
  have "AtreusSM_Iterate_UNSAFE (check_callback ?e) [(n, prt)] (0, []) = Inr (1, [(n, prt)])"
    using check_iterate [of "[(n, prt)]" ?e "\<lambda>_. False" 0 "[]"] refused by simp
  moreover obtain r where "CallExt (env_net ?e) (Some (NewDeregister (draw ?e 1) n (this_ip ?e))) kIcePort (ice_ip ?e) = Inr (Some r)"
    by (rule ice_call [where i = "draw ?e 1" and net = "env_net ?e" and ip = "ice_ip ?e" and prt = kIcePort, OF assms(1)])
      (auto simp: lonely_def demo_env_def only_ice_def)
  moreover obtain dm where "AtreusDM_DoShutdown n new_dm = Inr dm"
    by (simp add: AtreusDM_DoShutdown_def new_dm_def count_add_def int_add_def int_range_def count_of_def)
  ultimately have "Watchdog_Check ?e \<lparr>at_services = [(n, prt)], at_data = new_dm\<rparr> = Inr \<lparr>at_services = [], at_data = dm\<rparr>"
    by (simp add: Watchdog_Check_def AtreusSM_Deregister_UNSAFE_def AtreusSM_Contains_UNSAFE_def kv_erase_def)
  then show thesis by (rule that)
qed

lemma overlap_strands:
  assumes "length n + length a < 2 ^ 30"
  obtains m where "reach mesh_init (mesh_step (\<lambda>_ _. True)) m" "stranded a n (view_of m)"
proof -
  define m0 where "m0 = \<lparr>mesh_ice = new_ice_sm, atreus_of = (\<lambda>_. \<lparr>at_services = [], at_data = new_dm\<rparr>), sending = (\<lambda>_. None), looking = (\<lambda>_. None)\<rparr>"
  define m1 where "m1 = with_services a (AtreusSM_Register n 80 (services_of m0 a)) m0\<lparr>sending := (sending m0)(a := Some (Announces 0 n 80))\<rparr>"
  obtain dm where check: "Watchdog_Check (lonely a new_ice_sm) \<lparr>at_services = [(n, 80)], at_data = new_dm\<rparr>
      = Inr \<lparr>at_services = [], at_data = dm\<rparr>"
    using lonely_check [OF assms, of 80 new_ice_sm] by (auto simp: kIcePort_def)
  define m2 where "m2 = m1\<lparr>atreus_of := (atreus_of m1)(a := \<lparr>at_services = [], at_data = dm\<rparr>),
      mesh_ice := fold (ice_after 7 (\<lambda>_. 0)) (withdrawals (lonely a new_ice_sm) (atreus_of m1 a)) (mesh_ice m1)\<rparr>"
  define m3 where "m3 = m2\<lparr>mesh_ice := ice_after 7 (\<lambda>_. 0) (call_message a (Announces 0 n 80)) (mesh_ice m2), sending := (sending m2)(a := None)\<rparr>"
  have m1: "atreus_of m1 a = \<lparr>at_services = [(n, 80)], at_data = new_dm\<rparr>" "mesh_ice m1 = new_ice_sm" "sending m1 a = Some (Announces 0 n 80)"
    by (simp_all add: m1_def m0_def with_services_def AtreusSM_Register_def kv_emplace_def)
  have m2: "atreus_of m2 a = \<lparr>at_services = [], at_data = dm\<rparr>" "sending m2 a = Some (Announces 0 n 80)" "looking m2 a = None"
    using m1(3) by (simp_all add: m2_def) (simp add: m1_def m0_def with_services_def)
  have 1: "mesh_does (LokiRegisters a n 80) m0 m1"
    unfolding m1_def by (rule registers) (use assms in \<open>simp_all add: m0_def\<close>)
  have 2: "mesh_does (WatchdogChecks a True) m1 m2" unfolding m2_def
    by (rule checks [where env = "lonely a new_ice_sm"]) (use check in \<open>simp_all add: m1 lonely_def subseqs_refl\<close>)
  have 3: "mesh_does (LokiSends a) m2 m3" unfolding m3_def by (rule sends) (rule m2(2))
  have 0: "reach mesh_init (mesh_step (\<lambda>_ _. True)) m0" by (rule reach_init) (simp add: mesh_init_def m0_def)
  note r = mesh_event [OF mesh_event [OF 0 TrueI 1] TrueI 2] mesh_event [OF mesh_event [OF mesh_event [OF 0 TrueI 1] TrueI 2] TrueI 3]
  from call_at_ice [OF mesh.inv_reach [OF r(1)] m2(2)] have "stranded a n (view_of m3)"
    by (simp add: stranded_def m3_def m2(1,3) rel_Register)
  with r(2) show thesis by (rule that)
qed


section \<open>The other disturbances\<close>

text \<open>
  The names that one service of a host leaves behind, step by step: \<open>h\<close>, \<open>i\<close>, \<open>c\<close> and \<open>l\<close> tell whether the host knows
  it, whether ice has it there, what loki is about to tell ice and what kartos has found.
\<close>

definition at_name :: "string \<Rightarrow> string \<Rightarrow> bool \<Rightarrow> bool \<Rightarrow> loki_call option \<Rightarrow> string option \<Rightarrow> mesh \<Rightarrow> bool" where
  "at_name a n h i c l m \<longleftrightarrow> reach mesh_init (mesh_step (\<lambda>_ _. True)) m \<and> (map_of (services_of m a) n \<noteq> None \<longleftrightarrow> h)
     \<and> ((n, a) \<in> ice_rel (mesh_ice m) \<longleftrightarrow> i) \<and> sending m a = c \<and> looking m a = l"

lemma at_name_bounded: "at_name a n h i c l m \<Longrightarrow> bounded m"
  by (auto simp: at_name_def intro: mesh.inv_reach)

lemma at_name_step:
  assumes "at_name a n h i c l m" and "mesh_does e m m'"
  shows "at_name a n (map_of (services_of m' a) n \<noteq> None) ((n, a) \<in> ice_rel (mesh_ice m')) (sending m' a) (looking m' a) m'"
  using assms mesh_event [of "\<lambda>_ _. True" m e m'] by (simp add: at_name_def)

lemma at_name_start: "\<exists>m. at_name a n False False None None m"
proof -
  define m where "m = \<lparr>mesh_ice = new_ice_sm, atreus_of = (\<lambda>_. \<lparr>at_services = [], at_data = new_dm\<rparr>), sending = (\<lambda>_. None), looking = (\<lambda>_. None)\<rparr>"
  have "reach mesh_init (mesh_step (\<lambda>_ _. True)) m" by (rule reach_init) (simp add: mesh_init_def m_def)
  then show ?thesis by (intro exI [of _ m]) (auto simp: at_name_def m_def new_ice_sm_def ice_rel_def set_of_def)
qed

lemma at_name_registers:
  assumes "at_name a n h i None l m" and "length n + length a < 2 ^ 30"
  shows "\<exists>m'. at_name a n True i (Some (Announces 0 n 80)) l m'"
proof -
  define m' where "m' = with_services a (AtreusSM_Register n 80 (services_of m a)) m\<lparr>sending := (sending m)(a := Some (Announces 0 n 80))\<rparr>"
  have "mesh_does (LokiRegisters a n 80) m m'" unfolding m'_def by (rule registers) (use assms in \<open>simp_all add: at_name_def\<close>)
  note at_name_step [OF assms(1) this]
  moreover have "map_of (services_of m' a) n \<noteq> None" by (simp add: m'_def with_services_def AtreusSM_Register_def map_of_emplace)
  moreover have "(n, a) \<in> ice_rel (mesh_ice m') \<longleftrightarrow> i" "sending m' a = Some (Announces 0 n 80)" "looking m' a = l"
    using assms(1) by (simp_all add: m'_def with_services_def at_name_def)
  ultimately show ?thesis by (intro exI [of _ m']) simp
qed

lemma at_name_withdraws:
  assumes "at_name a n h i None l m" and "length n + length a < 2 ^ 30"
  shows "\<exists>m'. at_name a n False i (Some (Retracts 0 n)) l m'"
proof -
  define m' where "m' = with_services a (AtreusSM_Deregister [] n (services_of m a)) m\<lparr>sending := (sending m)(a := Some (Retracts 0 n))\<rparr>"
  have "mesh_does (LokiWithdraws a n) m m'" unfolding m'_def by (rule withdraws) (use assms in \<open>simp_all add: at_name_def\<close>)
  note at_name_step [OF assms(1) this]
  moreover have "map_of (services_of m' a) n = None" by (simp add: m'_def with_services_def locked_sm.view_deregister)
  moreover have "(n, a) \<in> ice_rel (mesh_ice m') \<longleftrightarrow> i" "sending m' a = Some (Retracts 0 n)" "looking m' a = l"
    using assms(1) by (simp_all add: m'_def with_services_def at_name_def)
  ultimately show ?thesis by (intro exI [of _ m']) simp
qed

lemma at_name_sends:
  assumes "at_name a n h i (Some c) l m" and "call_name c = n"
  shows "\<exists>m'. at_name a n h (is_Announces c) None l m'"
proof -
  define m' where "m' = m\<lparr>mesh_ice := ice_after 7 (\<lambda>_. 0) (call_message a c) (mesh_ice m), sending := (sending m)(a := None)\<rparr>"
  have c: "sending m a = Some c" using assms(1) by (simp add: at_name_def)
  have "ice_inv (mesh_ice m)" using at_name_bounded [OF assms(1)] by (simp add: bounded_def)
  then have "(n, a) \<in> ice_rel (mesh_ice m') \<longleftrightarrow> is_Announces c"
    using call_at_ice [OF at_name_bounded [OF assms(1)] c, of 7 "\<lambda>_. 0"] assms(2)
    by (cases c) (simp_all add: m'_def ice.rel_add ice.rel_del)
  moreover have "mesh_does (LokiSends a) m m'" unfolding m'_def by (rule sends [OF c])
  note at_name_step [OF assms(1) this]
  moreover have "map_of (services_of m' a) n \<noteq> None \<longleftrightarrow> h" "sending m' a = None" "looking m' a = l"
    using assms(1) by (simp_all add: m'_def at_name_def)
  ultimately show ?thesis by (intro exI [of _ m']) simp
qed

lemma at_name_unheard:
  assumes "at_name a n h i (Some c) l m"
  shows "\<exists>m'. at_name a n h i None l m'"
proof -
  have "mesh_does (LokiFails a) m (m\<lparr>sending := (sending m)(a := None)\<rparr>)"
    by (rule unheard [of m a c]) (use assms in \<open>simp add: at_name_def\<close>)
  from at_name_step [OF assms this] assms show ?thesis
    by (intro exI [of _ "m\<lparr>sending := (sending m)(a := None)\<rparr>"]) (simp add: at_name_def)
qed

lemma at_name_looks:
  assumes "at_name a n True i c None m"
  shows "\<exists>m'. at_name a n True i c (Some n) m'"
proof -
  have "mesh_does (KartosLooks a n) m (m\<lparr>looking := (looking m)(a := Some n)\<rparr>)"
    by (rule looks) (use assms in \<open>simp_all add: at_name_def AtreusSM_Contains_def\<close>)
  from at_name_step [OF assms this] assms show ?thesis
    by (intro exI [of _ "m\<lparr>looking := (looking m)(a := Some n)\<rparr>"]) (simp add: at_name_def)
qed

lemma at_name_registered:
  assumes "length n + length a < 2 ^ 30"
  shows "\<exists>m. at_name a n True True None None m"
proof -
  obtain m where "at_name a n False False None None m" using at_name_start by blast
  from at_name_registers [OF this assms] obtain m where "at_name a n True False (Some (Announces 0 n 80)) None m" by blast
  from at_name_sends [OF this] show ?thesis by simp
qed

text \<open>
  A withdrawal that does not reach ice: the host does not know the service any more, ice goes on naming the host, and that stays
  so whatever happens until the service registers or withdraws there again.
\<close>

theorem Unheard_withdrawal_strands:
  assumes "length n + length a < 2 ^ 30"
  shows "\<exists>m. reach mesh_init (mesh_step (\<lambda>_ _. True)) m \<and> (\<forall>m'. (mesh_step (\<lambda>e _. leaves a n e))\<^sup>*\<^sup>* m m' \<longrightarrow>
    (n, a) \<in> ice_rel (mesh_ice m') \<and> map_of (at_services (atreus_of m' a)) n = None)"
proof -
  obtain m where "at_name a n True True None None m" using at_name_registered [OF assms] by blast
  from at_name_withdraws [OF this assms] obtain m where "at_name a n False True (Some (Retracts 0 n)) None m" by blast
  from at_name_unheard [OF this] obtain m where m: "at_name a n False True None None m" by blast
  then have "stranded a n (view_of m)" by (auto simp: at_name_def stranded_def)
  then have "(n, a) \<in> ice_rel (mesh_ice m') \<and> map_of (services_of m' a) n = None" if "(mesh_step (\<lambda>e _. leaves a n e))\<^sup>*\<^sup>* m m'" for m'
    using stranded_steps [OF that at_name_bounded [OF m]] by (simp add: stranded_def domIff)
  with m show ?thesis by (intro exI [of _ m]) (simp add: at_name_def)
qed

theorem Unheard_withdrawal_strands_witness:
  "\<exists>m. reach mesh_init (mesh_step (\<lambda>_ _. True)) m \<and> (''s'', ''1'') \<in> ice_rel (mesh_ice m) \<and> map_of (at_services (atreus_of m ''1'')) ''s'' = None"
  using Unheard_withdrawal_strands [of "''s''" "''1''"] by auto

text \<open>
  A withdrawal between the two sections of a look-up: kartos puts the service back, at port 0, and the host knows a service
  that ice does not have there.
\<close>

theorem Lookup_invents_service:
  assumes "length n + length a < 2 ^ 30"
  shows "\<exists>m. reach mesh_init (mesh_step (\<lambda>_ _. True)) m \<and> sending m a = None \<and> looking m a = None
    \<and> map_of (at_services (atreus_of m a)) n = Some 0 \<and> (n, a) \<notin> ice_rel (mesh_ice m)"
proof -
  obtain m0 where "at_name a n True True None None m0" using at_name_registered [OF assms] by blast
  from at_name_looks [OF this] obtain m1 where "at_name a n True True None (Some n) m1" by blast
  from at_name_withdraws [OF this assms] obtain m1 where "at_name a n False True (Some (Retracts 0 n)) (Some n) m1" by blast
  from at_name_sends [OF this] obtain m2 where m2: "at_name a n False False None (Some n) m2" by auto
  then have l: "looking m2 a = Some n" "map_of (services_of m2 a) n = None" by (simp_all add: at_name_def)
  define m3 where "m3 = with_services a (snd (subscript n (services_of m2 a))) m2\<lparr>looking := (looking m2)(a := None)\<rparr>"
  have "mesh_does (KartosReads a) m2 m3" unfolding m3_def by (rule reads) (rule l(1))
  then have "reach mesh_init (mesh_step (\<lambda>_ _. True)) m3" using m2 mesh_event [of "\<lambda>_ _. True" m2] by (simp add: at_name_def)
  moreover have "map_of (services_of m3 a) n = Some 0"
    using l(2) by (simp add: m3_def with_services_def subscript_def Let_def map_of_emplace)
  moreover have "sending m3 a = None" "looking m3 a = None" "(n, a) \<notin> ice_rel (mesh_ice m3)"
    using m2 by (simp_all add: m3_def with_services_def at_name_def)
  ultimately show ?thesis by blast
qed

theorem Lookup_invents_service_witness:
  "\<exists>m :: mesh. map_of (at_services (atreus_of m ''1'')) ''s'' = Some 0 \<and> (''s'', ''1'') \<notin> ice_rel (mesh_ice m)"
proof -
  have "length ''s'' + length ''1'' < 2 ^ 30" by simp
  from Lookup_invents_service [OF this] show ?thesis by blast
qed

section \<open>Witnesses\<close>

text \<open>The mesh after one service has registered, at host 1.\<close>

definition demo_mesh :: mesh where
  "demo_mesh = \<lparr>mesh_ice = IceSM_Register ''s'' ''1'' new_ice_sm,
     atreus_of = (\<lambda>a. \<lparr>at_services = (if a = ''1'' then [(''s'', 80)] else []), at_data = new_dm\<rparr>), sending = (\<lambda>_. None), looking = (\<lambda>_. None)\<rparr>"

lemma demo_mesh_rel: "ice_rel (mesh_ice demo_mesh) = {(''s'', ''1'')}"
  by (auto simp: demo_mesh_def rel_Register, auto simp: new_ice_sm_def ice_rel_def set_of_def)

lemma demo_mesh_reach: "reach mesh_init (mesh_step undisturbed) demo_mesh"
proof -
  define m0 where "m0 = \<lparr>mesh_ice = new_ice_sm, atreus_of = (\<lambda>_. \<lparr>at_services = [], at_data = new_dm\<rparr>), sending = (\<lambda>_. None), looking = (\<lambda>_. None)\<rparr>"
  define m1 where "m1 = with_services ''1'' (AtreusSM_Register ''s'' 80 (services_of m0 ''1'')) m0
    \<lparr>sending := (sending m0)(''1'' := Some (Announces 0 ''s'' 80))\<rparr>"
  have 0: "reach mesh_init (mesh_step undisturbed) m0" by (rule reach_init) (simp add: mesh_init_def m0_def)
  have 1: "mesh_does (LokiRegisters ''1'' ''s'' 80) m0 m1" unfolding m1_def by (rule registers) (simp_all add: m0_def)
  have "sending m1 ''1'' = Some (Announces 0 ''s'' 80)" by (simp add: m1_def)
  note 2 = sends [OF this, of 7 "\<lambda>_. 0"]
  have "ice_after 7 (\<lambda>_. 0) (NewRegister 0 ''s'' ''1'' 80) (mesh_ice m1) = IceSM_Register ''s'' ''1'' new_ice_sm"
    by (subst ice_after_call) (simp_all add: m1_def m0_def with_services_def)
  then have "m1\<lparr>mesh_ice := ice_after 7 (\<lambda>_. 0) (call_message ''1'' (Announces 0 ''s'' 80)) (mesh_ice m1),
      sending := (sending m1)(''1'' := None)\<rparr> = demo_mesh"
    by (simp add: demo_mesh_def m1_def m0_def with_services_def AtreusSM_Register_def kv_emplace_def fun_eq_iff)
  with mesh_event [OF mesh_event [OF 0 _ 1] _ 2] show ?thesis by simp
qed

theorem Registries_agree_witness: "{n. (n, ''1'') \<in> ice_rel (mesh_ice demo_mesh)} = {''s''}"
  using Registries_agree [OF demo_mesh_reach, of "''1''"] by (simp add: demo_mesh_def)

definition demo_caller :: atreus_env where
  "demo_caller = (demo_env (\<lambda>_ _. Inr (server_peer (service_dispatch 7) (ice_policy (\<lambda>_. 0)) (mesh_ice demo_mesh))))\<lparr>this_ip := ''2''\<rparr>"

theorem Mesh_delivers_witness:
  "opens_to demo_caller LokiPolicy (atreus_of demo_mesh ''2'') (NewRequest 1 ''c'' ''s'') (''1'', kKartosPort) (atreus_of demo_mesh ''2'')"
proof -
  let ?q = "NewRequest 1 ''c'' ''s''"
  have fits: "obj_fits ?q" by (simp add: obj_fits_def sizeof_header_def)
  have q: "GetType ?q = kBTRequest" "GetTraceId ?q = 0" "field_map ?q kRequestService = Some (VString ''s'')"
    "length ''s'' + length (GetServiceName ?q) < 2 ^ 30"
    by (simp_all add: GetType_def GetTraceId_def GetServiceName_def default_header_def)
  have known: "''s'' \<in> Domain (ice_rel (mesh_ice demo_mesh))"
    "\<forall>a \<in> ice_rel (mesh_ice demo_mesh) `` {''s''}. sending demo_mesh a = None \<and> address_ok demo_caller a"
    by (simp_all add: demo_mesh_rel) (simp_all add: demo_mesh_def demo_caller_def demo_env_def)
  have ice: "faces_ice demo_caller ''2'' 7 (\<lambda>_. 0) (mesh_ice demo_mesh)"
    by (simp add: faces_ice_def demo_caller_def demo_env_def)
  have draws: "\<forall>j. 0 < length (set_of (srv_name_to_ip (mesh_ice demo_mesh)) ''s'')"
    by (auto simp: demo_mesh_def IceSM_Register_def set_of_modify set_emplace_def)
  obtain a prt where a: "map_of (at_services (atreus_of demo_mesh a)) ''s'' = Some prt"
    "opens_to demo_caller LokiPolicy (atreus_of demo_mesh ''2'') ?q (a, kKartosPort) (atreus_of demo_mesh ''2'')"
    using Mesh_delivers [OF demo_mesh_reach known ice draws constructors_wf(1) fits q] by blast
  then have "a = ''1''" by (simp add: demo_mesh_def split: if_splits)
  with a(2) show ?thesis by simp
qed

theorem Loki_handler_sections_witness:
  "\<exists>q' m1 m2. mesh_does (LokiRegisters ''2'' ''u'' 81) demo_mesh m1 \<and> mesh_does (LokiSends ''2'') m1 m2
    \<and> answers_with demo_caller LokiPolicy (atreus_of demo_mesh ''2'') (NewRegister 1 ''u'' '''' 81) q' (atreus_of m2 ''2'')"
proof -
  let ?q = "NewRegister 1 ''u'' '''' 81"
  have q: "obj_fits ?q" "GetServiceName ?q = ''u''" "GetType ?q = kBTRegister" "field_map ?q kRegisterPort = Some (VI32 81)"
    "ucast (81 :: i32) = (81 :: port)"
    by (simp_all add: obj_fits_def sizeof_header_def accessor_defs protocol_names)
  have ice: "faces_ice demo_caller ''2'' 7 (\<lambda>_. 0) (mesh_ice demo_mesh)" "others demo_caller = []" "sending demo_mesh ''2'' = None"
    by (simp_all add: faces_ice_def demo_caller_def demo_env_def demo_mesh_def)
  have len: "length (GetServiceName ?q) + length ''2'' < 2 ^ 30" by (simp add: q(2))
  from Loki_handler_sections [OF constructors_wf(3) q(1) len ice, of 81 "LokiRegisters ''2'' ''u'' 81"] q(2-5) show ?thesis by auto
qed


end
