(* ===== verification/Chaos_Service.thy ===== *)
theory Chaos_Service
  imports Blade_Service Count_Storage
begin

text \<open>
  The statistics server: chaos/data\_manager, chaos/handlers and the delegation of chaos/chaos.cc.
\<close>

section \<open>DataManager\<close>

definition ChaosDM_DoQuery :: "string \<Rightarrow> int \<Rightarrow> data_manager \<Rightarrow> data_manager result" where
  "ChaosDM_DoQuery name n dm = and_then (count_add name n (querys dm)) (\<lambda>m. Inr (dm\<lparr>querys := m\<rparr>))"

definition ChaosDM_DoError :: "string \<Rightarrow> int \<Rightarrow> data_manager \<Rightarrow> data_manager result" where
  "ChaosDM_DoError name n dm = and_then (count_add name n (errors dm)) (\<lambda>m. Inr (dm\<lparr>errors := m\<rparr>))"

definition ChaosDM_DoShutdown :: "string \<Rightarrow> int \<Rightarrow> data_manager \<Rightarrow> data_manager result" where
  "ChaosDM_DoShutdown name n dm = and_then (count_add name n (shutdowns dm)) (\<lambda>m. Inr (dm\<lparr>shutdowns := m\<rparr>))"

definition ChaosDM_DoBytes :: "string \<Rightarrow> int \<Rightarrow> data_manager \<Rightarrow> data_manager result" where
  "ChaosDM_DoBytes name n dm =
     and_then (count_add name n (bytes dm)) (\<lambda>m. Inr (dm\<lparr>bytes := count_half name m\<rparr>))"

definition ChaosDM_GetQuery :: "string \<Rightarrow> data_manager \<Rightarrow> int result" where
  "ChaosDM_GetQuery name dm = kv_at (querys dm) name"
definition ChaosDM_GetError :: "string \<Rightarrow> data_manager \<Rightarrow> int result" where
  "ChaosDM_GetError name dm = kv_at (errors dm) name"
definition ChaosDM_GetShutdown :: "string \<Rightarrow> data_manager \<Rightarrow> int result" where
  "ChaosDM_GetShutdown name dm = kv_at (shutdowns dm) name"
definition ChaosDM_GetBytes :: "string \<Rightarrow> data_manager \<Rightarrow> int result" where
  "ChaosDM_GetBytes name dm = kv_at (bytes dm) name"

text \<open>\<^verbatim>\<open>std::max_element\<close> with the comparison of the second components: the first maximum.\<close>

fun max_element :: "string \<times> int \<Rightarrow> counts \<Rightarrow> string \<times> int" where
  "max_element best [] = best"
| "max_element best (e # es) = max_element (if snd best < snd e then e else best) es"

definition most :: "counts \<Rightarrow> (string \<times> int) option" where
  "most m = (case m of [] \<Rightarrow> None | e # es \<Rightarrow> Some (max_element e es))"

definition ChaosDM_GetMostQuery :: "data_manager \<Rightarrow> (string \<times> int) option" where
  "ChaosDM_GetMostQuery dm = most (querys dm)"
definition ChaosDM_GetMostError :: "data_manager \<Rightarrow> (string \<times> int) option" where
  "ChaosDM_GetMostError dm = most (errors dm)"
definition ChaosDM_GetMostShutdown :: "data_manager \<Rightarrow> (string \<times> int) option" where
  "ChaosDM_GetMostShutdown dm = most (shutdowns dm)"

text \<open>The counters of chaos keep the contract of \<open>Count_Storage\<close>.\<close>

interpretation chaos_querys: counter ChaosDM_DoQuery "\<lambda>dm. count_of (querys dm)" dm_ok
proof
  show "\<exists>s'. ChaosDM_DoQuery k n s = Inr s' \<and> dm_ok s'
      \<and> count_of (querys s') = (count_of (querys s))(k := count_of (querys s) k + n)"
    if "dm_ok s" "int_range (count_of (querys s) k + n)" for s k n
    using counts.bump_ok [of "querys s" k n] that by (auto simp: dm_ok_def ChaosDM_DoQuery_def)
qed (simp add: counts.bump_overflow ChaosDM_DoQuery_def)

interpretation chaos_errors: counter ChaosDM_DoError "\<lambda>dm. count_of (errors dm)" dm_ok
proof
  show "\<exists>s'. ChaosDM_DoError k n s = Inr s' \<and> dm_ok s'
      \<and> count_of (errors s') = (count_of (errors s))(k := count_of (errors s) k + n)"
    if "dm_ok s" "int_range (count_of (errors s) k + n)" for s k n
    using counts.bump_ok [of "errors s" k n] that by (auto simp: dm_ok_def ChaosDM_DoError_def)
qed (simp add: counts.bump_overflow ChaosDM_DoError_def)

interpretation chaos_shutdowns: counter ChaosDM_DoShutdown "\<lambda>dm. count_of (shutdowns dm)" dm_ok
proof
  show "\<exists>s'. ChaosDM_DoShutdown k n s = Inr s' \<and> dm_ok s'
      \<and> count_of (shutdowns s') = (count_of (shutdowns s))(k := count_of (shutdowns s) k + n)"
    if "dm_ok s" "int_range (count_of (shutdowns s) k + n)" for s k n
    using counts.bump_ok [of "shutdowns s" k n] that by (auto simp: dm_ok_def ChaosDM_DoShutdown_def)
qed (simp add: counts.bump_overflow ChaosDM_DoShutdown_def)

section \<open>Handlers\<close>

text \<open>
  The callback of \<^verbatim>\<open>DoReport\<close>: an \<^verbatim>\<open>I32\<close> field is added to the counters, and every call returns 0.
  The data manager is the state the iteration threads through.
\<close>

definition report_callback :: "(string \<Rightarrow> int \<Rightarrow> data_manager \<Rightarrow> data_manager result) \<Rightarrow> data_manager iterate_func" where
  "report_callback record dm name v =
     (case v of VI32 w \<Rightarrow> and_then (record name (sint w) dm) (\<lambda>dm. Inr (dm, 0)) | _ \<Rightarrow> Inr (dm, 0))"

definition iterate_report ::
  "(string \<Rightarrow> int \<Rightarrow> data_manager \<Rightarrow> data_manager result) \<Rightarrow> blade_object \<Rightarrow> data_manager \<Rightarrow> data_manager result" where
  "iterate_report record obj dm = and_then (Iterate (report_callback record) obj dm) (\<lambda>(dm, _). Inr dm)"

definition Chaos_DoReport :: "data_manager service_handler" where
  "Chaos_DoReport gid obj dm =
     and_then (GetString obj kRequestService) (\<lambda>caller.
     let ret = NewResponse_traced gid kChaosReport (GetTraceId obj) caller in
     catch_all
       (and_then (GetI64 obj kChaosReportType) (\<lambda>type.
        and_then
          (if type = 1 then iterate_report ChaosDM_DoQuery obj dm
           else if type = 2 then iterate_report ChaosDM_DoError obj dm
           else if type = 3 then iterate_report ChaosDM_DoShutdown obj dm
           else if type = 4 then iterate_report ChaosDM_DoBytes obj dm
           else Inr dm) (\<lambda>dm.
        Inr (Some (snd (AddByte kChaosOk kZeroByte ret)), obj, dm))))
       (Inr (Some ret, obj, dm)))"

text \<open>The four look-ups by name and the three maxima share their code but for the counter read.\<close>

definition name_handler ::
  "string \<Rightarrow> (string \<Rightarrow> data_manager \<Rightarrow> int result) \<Rightarrow> data_manager service_handler" where
  "name_handler service get gid obj dm =
     and_then (GetString obj kRequestService) (\<lambda>caller.
     let ret = NewResponse_traced gid service (GetTraceId obj) caller in
     catch_all
       (and_then (GetString obj kChaosName) (\<lambda>name.
        and_then (get name dm) (\<lambda>res.
        let ret = snd (AddI32 name (word_of_int res) ret)
        in Inr (Some (snd (AddByte kChaosOk kZeroByte ret)), obj, dm))))
       (Inr (Some ret, obj, dm)))"

definition Chaos_DoQuery :: "data_manager service_handler" where
  "Chaos_DoQuery = name_handler kChaosSrvQuery ChaosDM_GetQuery"
definition Chaos_DoError :: "data_manager service_handler" where
  "Chaos_DoError = name_handler kChaosSrvError ChaosDM_GetError"
definition Chaos_DoShutdown :: "data_manager service_handler" where
  "Chaos_DoShutdown = name_handler kChaosSrvShutdown ChaosDM_GetShutdown"
definition Chaos_DoBytes :: "data_manager service_handler" where
  "Chaos_DoBytes = name_handler kChaosSrvAvgBytes ChaosDM_GetBytes"

definition most_handler :: "string \<Rightarrow> (data_manager \<Rightarrow> (string \<times> int) option) \<Rightarrow> data_manager service_handler" where
  "most_handler service get gid obj dm =
     and_then (GetString obj kRequestService) (\<lambda>caller.
     let ret = NewResponse_traced gid service (GetTraceId obj) caller;
         ret = (case get dm of
           Some (name, val) \<Rightarrow> snd (AddI32 kChaosVal (word_of_int val) (snd (AddString kChaosName name ret)))
         | None \<Rightarrow> snd (AddByte kNoAnswer kZeroByte ret))
     in Inr (Some (snd (AddByte kChaosOk kZeroByte ret)), obj, dm))"

definition Chaos_DoMostQuery :: "data_manager service_handler" where
  "Chaos_DoMostQuery = most_handler kChaosMostQuery ChaosDM_GetMostQuery"
definition Chaos_DoMostError :: "data_manager service_handler" where
  "Chaos_DoMostError = most_handler kChaosMostError ChaosDM_GetMostError"
definition Chaos_DoMostShutdown :: "data_manager service_handler" where
  "Chaos_DoMostShutdown = most_handler kChaosMostShutdown ChaosDM_GetMostShutdown"

definition chaos_policy :: "data_manager service_policy" where \<comment> \<open>\<^verbatim>\<open>main\<close> of chaos.cc\<close>
  "chaos_policy =
     (let p = ServiceSessionPolicy kIcePort;
          p = DelegateExt kChaosReport Chaos_DoReport p;
          p = DelegateExt kChaosSrvQuery Chaos_DoQuery p;
          p = DelegateExt kChaosSrvError Chaos_DoError p;
          p = DelegateExt kChaosSrvShutdown Chaos_DoShutdown p;
          p = DelegateExt kChaosSrvAvgBytes Chaos_DoBytes p;
          p = DelegateExt kChaosMostQuery Chaos_DoMostQuery p;
          p = DelegateExt kChaosMostError Chaos_DoMostError p
      in DelegateExt kChaosMostShutdown Chaos_DoMostShutdown p)"

lemmas chaos_handler_defs = Chaos_DoQuery_def Chaos_DoError_def Chaos_DoShutdown_def Chaos_DoBytes_def
  Chaos_DoMostQuery_def Chaos_DoMostError_def Chaos_DoMostShutdown_def

lemmas chaos_get_defs = ChaosDM_GetQuery_def ChaosDM_GetError_def ChaosDM_GetShutdown_def ChaosDM_GetBytes_def

section \<open>The largest counter\<close>

lemma max_element_max:
  "max_element b es \<in> set (b # es) \<and> (\<forall>e \<in> set (b # es). snd e \<le> snd (max_element b es))"
proof (induction es arbitrary: b)
  case (Cons e es)
  from Cons.IH [of "if snd b < snd e then e else b"] show ?case by (auto split: if_splits)
qed simp

lemma most_None: "most m = None \<longleftrightarrow> m = []"
  by (simp add: most_def split: list.split)

lemma most_Some:
  assumes "kv_wf m" and "most m = Some (k, v)"
  shows "map_of m k = Some v \<and> (\<forall>k' v'. map_of m k' = Some v' \<longrightarrow> v' \<le> v)"
proof (cases m)
  case (Cons e es)
  with assms(2) max_element_max [of e es] have m: "(k, v) \<in> set m" "\<forall>e \<in> set m. snd e \<le> v"
    by (auto simp: most_def)
  have "v' \<le> v" if "map_of m k' = Some v'" for k' v'
    using bspec [OF m(2) map_of_SomeD [OF that]] by simp
  with kv_wf_map_of [OF assms(1) m(1)] show ?thesis by blast
qed (use assms in \<open>simp add: most_def\<close>)

section \<open>What the handlers answer\<close>

lemma NewResponse_traced_props [simp]:
  "field_map (NewResponse_traced g s t c) = [kResponseService \<mapsto> VString c]"
  "GetTraceId (NewResponse_traced g s t c) = t" "GetType (NewResponse_traced g s t c) = kBTResponse"
  by (simp_all add: NewResponse_traced_def) (simp_all add: SetTraceId_def GetTraceId_def GetType_def)

text \<open>The fields of the answer to a look-up in the counters \<open>m\<close>, by the name field of the request.\<close>

definition lookup_fields :: "counts \<Rightarrow> string \<Rightarrow> field_value option \<Rightarrow> string \<Rightarrow> field_value option" where
  "lookup_fields m caller name = (case name of
     Some (VString k) \<Rightarrow>
       (case map_of m k of
          Some v \<Rightarrow> (if k = kResponseService then [kResponseService \<mapsto> VString caller]
             else [kResponseService \<mapsto> VString caller, k \<mapsto> VI32 (word_of_int v)])
            (kChaosOk \<mapsto> if k = kChaosOk then VI32 (word_of_int v) else VByte 0)
        | None \<Rightarrow> [kResponseService \<mapsto> VString caller])
   | _ \<Rightarrow> [kResponseService \<mapsto> VString caller])"

definition answer_ok :: "(string \<Rightarrow> field_value option) \<Rightarrow> blade_object \<Rightarrow> bool" where
  "answer_ok fs r \<longleftrightarrow> obj_wf r \<and> field_map r = fs"

lemma name_handler_answer:
  assumes wf: "obj_wf obj" and c: "field_map obj kRequestService = Some (VString caller)"
    and get: "\<And>k. get k dm = kv_at m k"
  shows "\<exists>r. name_handler service get g obj dm = Inr (Some r, obj, dm)
    \<and> GetTraceId r = GetTraceId obj
    \<and> answer_ok (lookup_fields m caller (field_map obj kChaosName)) r"
proof -
  let ?ret = "NewResponse_traced g service (GetTraceId obj) caller"
  have caller: "GetString obj kRequestService = Inr caller" using wf c by (simp add: getter_iffs)
  have trace: "GetTraceId (snd (AddByte k1 b (snd (AddI32 k2 w x)))) = GetTraceId x" for k1 b k2 w x
    by (simp add: AddByte_def AddI32_def GetTraceId_def)
  show ?thesis
  proof (cases "GetString obj kChaosName")
    case (Inl e)
    then have "e = NoSuchFieldException" "\<nexists>k. field_map obj kChaosName = Some (VString k)"
      using wf by (auto simp: GetString_Inl GetString_String getter_iffs)
    with Inl caller show ?thesis
      by (auto simp: name_handler_def Let_def answer_ok_def lookup_fields_def split: option.splits field_value.splits)
  next
    case (Inr k)
    then have k: "field_map obj kChaosName = Some (VString k)" using wf by (simp add: getter_iffs)
    show ?thesis
    proof (cases "map_of m k")
      case None
      with Inr k caller show ?thesis
        by (simp add: name_handler_def Let_def answer_ok_def lookup_fields_def get kv_at_def)
    next
      case (Some v)
      have names: "kChaosOk \<noteq> kResponseService" by (simp add: protocol_names)
      let ?r = "snd (AddByte kChaosOk kZeroByte (snd (AddI32 k (word_of_int v) ?ret)))"
      have "name_handler service get g obj dm = Inr (Some ?r, obj, dm)"
        using Inr caller Some by (simp add: name_handler_def Let_def get kv_at_def)
      moreover have "obj_wf ?r" by (simp add: byte_field.wf_add i32_field.wf_add)
      ultimately show ?thesis using Some k names
        by (auto simp: answer_ok_def lookup_fields_def trace fields_adds kZeroByte_def i32_field.wf_add fun_eq_iff)
    qed
  qed
qed

text \<open>
  Look-ups by name. To a request with a caller, each of the four look-ups answers with the trace id
  of the request and the caller's name, and leaves the counters alone; it adds the counter and
  \<^verbatim>\<open>#CHAOS_OK\<close> exactly when the request names a counter that exists (a missing name
  field and a missing counter are answered in the same way, without a mark).
\<close>

theorem Chaos_lookup_answers:
  assumes "obj_wf obj" and "field_map obj kRequestService = Some (VString caller)"
  shows "\<forall>(h, m) \<in> {(Chaos_DoQuery, querys dm), (Chaos_DoError, errors dm),
      (Chaos_DoShutdown, shutdowns dm), (Chaos_DoBytes, bytes dm)}.
    \<exists>r. h g obj dm = Inr (Some r, obj, dm) \<and> GetTraceId r = GetTraceId obj
      \<and> answer_ok (lookup_fields m caller (field_map obj kChaosName)) r"
  using name_handler_answer [OF assms] by (simp add: chaos_handler_defs chaos_get_defs)

theorem Chaos_lookup_answers_witness:
  "\<exists>r. Chaos_DoQuery 7 (snd (AddString kChaosName ''a'' (NewRequest 1 ''c'' kChaosSrvQuery))) (new_dm\<lparr>querys := [(''a'', 3)]\<rparr>)
      = Inr (Some r, snd (AddString kChaosName ''a'' (NewRequest 1 ''c'' kChaosSrvQuery)), new_dm\<lparr>querys := [(''a'', 3)]\<rparr>)
    \<and> field_map r ''a'' = Some (VI32 3)"
proof -
  let ?o = "snd (AddString kChaosName ''a'' (NewRequest 1 ''c'' kChaosSrvQuery))"
  let ?dm = "new_dm\<lparr>querys := [(''a'', 3)]\<rparr>"
  have n: "kChaosName \<noteq> kRequestService" "''a'' \<noteq> kResponseService" "''a'' \<noteq> kChaosOk"
    by (simp_all add: protocol_names)
  have o: "obj_wf ?o" "field_map ?o kRequestService = Some (VString kChaosSrvQuery)"
    "field_map ?o kChaosName = Some (VString ''a'')"
    using n by (simp_all add: fields_adds string_field.wf_add)
  have "querys ?dm = [(''a'', 3)]" by simp
  with Chaos_lookup_answers [OF o(1,2), of ?dm 7] o(3) n show ?thesis
    by (auto simp: answer_ok_def lookup_fields_def)
qed

definition most_fields :: "string \<Rightarrow> (string \<times> int) option \<Rightarrow> string \<Rightarrow> field_value option" where
  "most_fields caller res = (case res of
     None \<Rightarrow> [kResponseService \<mapsto> VString caller, kNoAnswer \<mapsto> VByte 0, kChaosOk \<mapsto> VByte 0]
   | Some (k, v) \<Rightarrow> [kResponseService \<mapsto> VString caller, kChaosName \<mapsto> VString k,
       kChaosVal \<mapsto> VI32 (word_of_int v), kChaosOk \<mapsto> VByte 0])"

lemma most_handler_answer:
  assumes "obj_wf obj" and "field_map obj kRequestService = Some (VString caller)"
  shows "\<exists>r. most_handler service get g obj dm = Inr (Some r, obj, dm)
    \<and> GetTraceId r = GetTraceId obj \<and> answer_ok (most_fields caller (get dm)) r"
proof -
  have c: "GetString obj kRequestService = Inr caller" using assms by (simp add: getter_iffs)
  have n: "kNoAnswer \<noteq> kResponseService" "kChaosOk \<noteq> kResponseService" "kNoAnswer \<noteq> kChaosOk"
    "kChaosName \<noteq> kResponseService" "kChaosVal \<noteq> kResponseService" "kChaosVal \<noteq> kChaosName"
    "kChaosOk \<noteq> kChaosName" "kChaosOk \<noteq> kChaosVal"
    by (simp_all add: protocol_names)
  have trace: "GetTraceId (snd (AddByte k b x)) = GetTraceId x" "GetTraceId (snd (AddI32 k w x)) = GetTraceId x"
    "GetTraceId (snd (AddString k t x)) = GetTraceId x" for k b w t x
    by (simp_all add: AddByte_def AddI32_def AddString_def GetTraceId_def)
  show ?thesis
    by (cases "get dm")
      (use n c in \<open>auto simp: most_handler_def Let_def answer_ok_def most_fields_def trace fields_adds kZeroByte_def
        byte_field.wf_add i32_field.wf_add string_field.wf_add fun_eq_iff\<close>)
qed

lemma most_correct:
  "kv_wf m \<Longrightarrow> (case most m of None \<Rightarrow> m = []
     | Some (k, v) \<Rightarrow> map_of m k = Some v \<and> (\<forall>k' v'. map_of m k' = Some v' \<longrightarrow> v' \<le> v))"
  using most_None [of m] most_Some [of m] by (cases "most m") auto

text \<open>
  The largest counter. \<^verbatim>\<open>GetMost\<close> of well-formed counters gives a stored counter that no other
  exceeds, and nothing exactly when there are none; the handlers answer with its name and value, or
  with \<^verbatim>\<open>#NO_ANS\<close>, and mark both with \<^verbatim>\<open>#CHAOS_OK\<close>.
\<close>

theorem Chaos_most_answers:
  assumes "obj_wf obj" and "field_map obj kRequestService = Some (VString caller)" and "dm_ok dm"
  shows "\<forall>(h, m) \<in> {(Chaos_DoMostQuery, querys dm), (Chaos_DoMostError, errors dm),
      (Chaos_DoMostShutdown, shutdowns dm)}.
    \<exists>r res. h g obj dm = Inr (Some r, obj, dm) \<and> GetTraceId r = GetTraceId obj
      \<and> answer_ok (most_fields caller res) r
      \<and> (case res of None \<Rightarrow> m = []
         | Some (k, v) \<Rightarrow> map_of m k = Some v \<and> (\<forall>k' v'. map_of m k' = Some v' \<longrightarrow> v' \<le> v))"
proof -
  have "kv_wf (querys dm)" "kv_wf (errors dm)" "kv_wf (shutdowns dm)"
    using assms(3) by (simp_all add: dm_ok_def counts_ok_def)
  note m = this [THEN most_correct]
  note a = most_handler_answer [OF assms(1,2)]
  show ?thesis
    using a [of kChaosMostQuery ChaosDM_GetMostQuery g dm] a [of kChaosMostError ChaosDM_GetMostError g dm]
      a [of kChaosMostShutdown ChaosDM_GetMostShutdown g dm] m
    by (auto simp: chaos_handler_defs ChaosDM_GetMostQuery_def ChaosDM_GetMostError_def ChaosDM_GetMostShutdown_def)
qed

theorem Chaos_most_answers_witness:
  "\<exists>r. Chaos_DoMostQuery 7 (NewRequest 1 ''c'' kChaosMostQuery) new_dm
      = Inr (Some r, NewRequest 1 ''c'' kChaosMostQuery, new_dm)"
proof -
  have "dm_ok new_dm" by (simp add: dm_ok_def new_dm_def)
  then show ?thesis
    using Chaos_most_answers [of "NewRequest 1 ''c'' kChaosMostQuery" kChaosMostQuery new_dm 7] by auto
qed

section \<open>Reports\<close>

lemma iter_type_stops:
  assumes "\<And>s k v s' n. f s k v = Inr (s', n) \<Longrightarrow> n = 0"
  shows "iter_type f ms (s, r) = (case ms of [] \<Rightarrow> Inr (s, r) | (k, v) # _ \<Rightarrow> and_then (f s k v) (\<lambda>(s', _). Inr (s', r)))"
proof (cases ms)
  case (Cons m ms')
  obtain k v where "m = (k, v)" by (cases m)
  with Cons show ?thesis using assms by (cases "f s k v") auto
qed simp

lemma iterate_report_eq:
  "iterate_report rec obj dm =
     (case member_i32 obj of [] \<Rightarrow> Inr dm | (k, w) # _ \<Rightarrow> rec k (sint w) dm)"
proof -
  have stop: "report_callback rec s k v = Inr (s', n) \<Longrightarrow> n = 0" for s k v s' n
    by (auto simp: report_callback_def and_then_Inr_iff split: field_value.splits)
  have none: "iter_type (report_callback rec) ms (s, r) = Inr (s, r)" if "\<forall>v \<in> snd ` set ms. \<forall>w. v \<noteq> VI32 w" for ms s r
    using that by (cases ms) (auto simp: report_callback_def split: field_value.splits)
  have i32: "iter_type (report_callback rec) (i32_fields obj) (dm, 0) =
      (case member_i32 obj of [] \<Rightarrow> Inr (dm, 0) | (k, w) # _ \<Rightarrow> and_then (rec k (sint w) dm) (\<lambda>dm. Inr (dm, 0)))"
    by (cases "member_i32 obj")
      (auto simp: iter_type_stops [OF stop] i32_fields_def report_callback_def and_then_assoc)
  have rest: "\<forall>v \<in> snd ` set (byte_fields obj). \<forall>w. v \<noteq> VI32 w" "\<forall>v \<in> snd ` set (i64_fields obj). \<forall>w. v \<noteq> VI32 w"
    "\<forall>v \<in> snd ` set (f64_fields obj). \<forall>w. v \<noteq> VI32 w" "\<forall>v \<in> snd ` set (string_fields obj). \<forall>w. v \<noteq> VI32 w"
    by (auto simp: typed_fields_defs)
  have tail: "and_then (iter_type (report_callback rec) (i64_fields obj) p) (\<lambda>r.
      and_then (iter_type (report_callback rec) (f64_fields obj) r) (\<lambda>r.
      iter_type (report_callback rec) (string_fields obj) r)) = Inr p" for p
    using none rest by (cases p) simp
  show ?thesis
    unfolding iterate_report_def Iterate_def none [OF rest(1)] and_then_simps i32 tail
    by (cases "member_i32 obj") (auto simp: and_then_assoc and_then_def split: sum.splits)
qed

lemma DoReport_eq:
  assumes wf: "obj_wf obj" and c: "field_map obj kRequestService = Some (VString caller)"
    and t: "field_map obj kChaosReportType = Some (VI64 type)"
  shows "Chaos_DoReport g obj dm =
    (let rec = (if type = 1 then ChaosDM_DoQuery else if type = 2 then ChaosDM_DoError
         else if type = 3 then ChaosDM_DoShutdown else if type = 4 then ChaosDM_DoBytes else (\<lambda>_ _. Inr)) in
     and_then (case member_i32 obj of [] \<Rightarrow> Inr dm | (k, w) # _ \<Rightarrow> rec k (sint w) dm) (\<lambda>dm'.
     Inr (Some (snd (AddByte kChaosOk kZeroByte (NewResponse_traced g kChaosReport (GetTraceId obj) caller))), obj, dm')))"
proof -
  have "GetString obj kRequestService = Inr caller" "GetI64 obj kChaosReportType = Inr type"
    using assms by (simp_all add: getter_iffs)
  moreover have "\<not> is_exception e" if "rec k n dm = Inl e"
    "rec \<in> {ChaosDM_DoQuery, ChaosDM_DoError, ChaosDM_DoShutdown, ChaosDM_DoBytes}" for rec k n e
    using that by (auto simp: ChaosDM_DoQuery_def ChaosDM_DoError_def ChaosDM_DoShutdown_def ChaosDM_DoBytes_def
        and_then_Inl_iff count_add_Inl)
  ultimately show ?thesis
    by (auto simp: Chaos_DoReport_def Let_def iterate_report_eq catch_all_def and_then_def
        split: list.splits sum.splits)
qed

text \<open>
  A report is cut after its first counter. Whatever the number of \<^verbatim>\<open>I32\<close> fields in a report of
  kind 1, 2 or 3, \<^verbatim>\<open>DoReport\<close> adds exactly the first one in iteration order to the counters of that kind,
  because its callbacks return 0, which stops the iteration over the fields of one type; the sender
  has cleared all of them and gets \<^verbatim>\<open>#CHAOS_OK\<close>. Nothing else changes; without a kind the report
  is ignored and not marked.
\<close>

theorem Chaos_DoReport_first_only:
  assumes "obj_wf obj" and "field_map obj kRequestService = Some (VString caller)" and "dm_ok dm"
    and "member_i32 obj = (k, w) # rest"
    and "int_range (count_of (querys dm) k + sint w)" and "int_range (count_of (errors dm) k + sint w)"
    and "int_range (count_of (shutdowns dm) k + sint w)"
  shows "\<exists>r. field_map r = [kResponseService \<mapsto> VString caller, kChaosOk \<mapsto> VByte 0]
    \<and> (field_map obj kChaosReportType = Some (VI64 1) \<longrightarrow>
        (\<exists>m. Chaos_DoReport g obj dm = Inr (Some r, obj, dm\<lparr>querys := m\<rparr>)
           \<and> count_of m = (count_of (querys dm))(k := count_of (querys dm) k + sint w)))
    \<and> (field_map obj kChaosReportType = Some (VI64 2) \<longrightarrow>
        (\<exists>m. Chaos_DoReport g obj dm = Inr (Some r, obj, dm\<lparr>errors := m\<rparr>)
           \<and> count_of m = (count_of (errors dm))(k := count_of (errors dm) k + sint w)))
    \<and> (field_map obj kChaosReportType = Some (VI64 3) \<longrightarrow>
        (\<exists>m. Chaos_DoReport g obj dm = Inr (Some r, obj, dm\<lparr>shutdowns := m\<rparr>)
           \<and> count_of m = (count_of (shutdowns dm))(k := count_of (shutdowns dm) k + sint w)))
    \<and> (field_map obj kChaosReportType = None \<longrightarrow>
        Chaos_DoReport g obj dm = Inr (Some (NewResponse_traced g kChaosReport (GetTraceId obj) caller), obj, dm))"
proof -
  let ?r = "snd (AddByte kChaosOk kZeroByte (NewResponse_traced g kChaosReport (GetTraceId obj) caller))"
  have n: "kChaosOk \<noteq> kResponseService" by (simp add: protocol_names)
  have r: "field_map ?r = [kResponseService \<mapsto> VString caller, kChaosOk \<mapsto> VByte 0]"
    using n by (simp add: fields_adds kZeroByte_def)
  have add: "\<exists>m'. count_add k (sint w) m = Inr m' \<and> count_of m' = (count_of m)(k := count_of m k + sint w)"
    if "counts_ok m" "int_range (count_of m k + sint w)" for m
    using count_add_ok [OF that] by blast
  have none: "Chaos_DoReport g obj dm = Inr (Some (NewResponse_traced g kChaosReport (GetTraceId obj) caller), obj, dm)"
    if "field_map obj kChaosReportType = None"
  proof -
    have "GetI64 obj kChaosReportType = Inl NoSuchFieldException"
      using that assms(1) by (simp add: i64_field.get_Inl_iff)
    moreover have "GetString obj kRequestService = Inr caller" using assms(1,2) by (simp add: getter_iffs)
    ultimately show ?thesis by (simp add: Chaos_DoReport_def Let_def)
  qed
  show ?thesis
    using r none add [of "querys dm"] add [of "errors dm"] add [of "shutdowns dm"] assms(3-7)
    by (intro exI [of _ ?r])
      (auto simp: DoReport_eq [OF assms(1,2)] ChaosDM_DoQuery_def ChaosDM_DoError_def ChaosDM_DoShutdown_def dm_ok_def)
qed

theorem Chaos_DoReport_first_only_witness:
  "\<exists>r m. Chaos_DoReport 7 (snd (AddI64 kChaosReportType 1 (snd (AddI32 ''b'' 5 (snd (AddI32 ''a'' 3
        (NewRequest 1 kWatchdogServiceName kChaosReport))))))) new_dm
      = Inr (Some r, snd (AddI64 kChaosReportType 1 (snd (AddI32 ''b'' 5 (snd (AddI32 ''a'' 3
        (NewRequest 1 kWatchdogServiceName kChaosReport)))))), new_dm\<lparr>querys := m\<rparr>)
    \<and> count_of m ''b'' = 5 \<and> count_of m ''a'' = 0"
proof -
  let ?o = "snd (AddI64 kChaosReportType 1 (snd (AddI32 ''b'' 5 (snd (AddI32 ''a'' 3
        (NewRequest 1 kWatchdogServiceName kChaosReport))))))"
  have o: "obj_wf ?o" "field_map ?o kRequestService = Some (VString kChaosReport)"
    "field_map ?o kChaosReportType = Some (VI64 1)"
    by (simp_all add: fields_adds i64_field.wf_add i32_field.wf_add protocol_names)
  have i: "member_i32 ?o = [(''b'', 5), (''a'', 3)]"
    by (simp add: message_defs accessor_defs new_object_def AddString_def AddI32_def AddI64_def Contains_def
        kv_emplace_def protocol_names)
  have z: "dm_ok new_dm" "count_of (querys new_dm) = (\<lambda>_. 0)" "count_of (errors new_dm) = (\<lambda>_. 0)"
    "count_of (shutdowns new_dm) = (\<lambda>_. 0)" by (auto simp: dm_ok_def new_dm_def count_of_def)
  from Chaos_DoReport_first_only [OF o(1,2) z(1) i, of 7] z o(3) obtain r m where
    "Chaos_DoReport 7 ?o new_dm = Inr (Some r, ?o, new_dm\<lparr>querys := m\<rparr>)" "count_of m = (\<lambda>_. 0)(''b'' := 5)"
    by (auto simp: int_range_def)
  then show ?thesis by (intro exI [of _ r] exI [of _ m]) simp
qed

end
