(* ===== verification/Service_Process.thy ===== *)
theory Service_Process
  imports Blade_Server Mesh_Peers Ice_Service Chaos_Service
begin

text \<open>
  The processes ice and chaos: \<^verbatim>\<open>main\<close> of ice/ice.cc and of chaos/chaos.cc, as the event loop of a server all of whose
  sessions have a clone of one service policy, and what holds of their data whatever arrives from the network.
\<close>

section \<open>main\<close>

definition ice_main :: "(nat \<Rightarrow> nat) \<Rightarrow> ice_sm service_policy blade_server" where
  "ice_main d = BladeServer kIcePort (ice_policy d)"

definition chaos_main :: "data_manager service_policy blade_server" where
  "chaos_main = BladeServer kChaosPort chaos_policy"

text \<open>
  The dispatch of the sessions that a server accepts, for an identifier drawn. Ice's choice of an address may draw other numbers
  in every step.
\<close>

definition service_sessions :: "'s service_policy blade_server \<Rightarrow> u32 \<Rightarrow> (unit, 's) dispatch" where
  "service_sessions server gid e i w = (case accept_policy server of
     None \<Rightarrow> Inl NullDeref | Some p \<Rightarrow> Service_on (ServiceSessionPolicy_Clone p) gid e i w)"

definition ice_step :: "(unit, ice_sm) world \<Rightarrow> (unit, ice_sm) world \<Rightarrow> bool" where
  "ice_step = loop_step (range (\<lambda>(d, g). service_sessions (ice_main d) g)) ()"

definition chaos_step :: "(unit, data_manager) world \<Rightarrow> (unit, data_manager) world \<Rightarrow> bool" where
  "chaos_step = loop_step (range (service_sessions chaos_main)) ()"

section \<open>What the handlers of a policy keep, the process keeps\<close>

definition keeps :: "('s \<Rightarrow> bool) \<Rightarrow> 's service_policy \<Rightarrow> bool" where
  "keeps P p \<longleftrightarrow> (\<forall>(name, h) \<in> set (f_table p). \<forall>g q s r q' s'. P s \<longrightarrow> h g q s = Inr (r, q', s') \<longrightarrow> P s')"

lemma keeps_DelegateExt:
  "keeps P p \<Longrightarrow> (\<And>g q s r q' s'. P s \<Longrightarrow> h g q s = Inr (r, q', s') \<Longrightarrow> P s') \<Longrightarrow> keeps P (DelegateExt name h p)"
  by (fastforce simp: keeps_def DelegateExt_def kv_emplace_def split: option.splits)

lemma keeps_new [simp]: "keeps P (ServiceSessionPolicy prt)"
  by (simp add: keeps_def ServiceSessionPolicy_def)

lemma session_keeps:
  assumes "keeps P p" and "Service_on (ServiceSessionPolicy_Clone p) g e i w = Inr w'" and "P (process w)"
  shows "P (process w')"
proof -
  let ?p = "ServiceSessionPolicy_Clone p"
  have none: "run_handler None s = s" for s :: 'a by (simp add: run_handler_def)
  have p: "f_table ?p = f_table p" "read_error_handler ?p = None" "write_error_handler ?p = None" "nss_error_handler ?p = None"
    "null_object_error_handler ?p = None" by (simp_all add: ServiceSessionPolicy_Clone_def ServiceSessionPolicy_def)
  have recv: "P st'" if "Service_OnRecv ?p g q (process w) = Inr (r, st')" for q r st'
  proof -
    have "P s'" if "map_of (f_table p) n = Some h" "h g o' (process w) = Inr (r, q', s')" for n h o' r q' s'
      using map_of_SomeD [OF that(1)] that(2) assms(1,3) unfolding keeps_def by blast
    then show ?thesis using that assms(3) unfolding Service_OnRecv_def p
      by (auto simp: none and_then_Inr_iff split: option.splits if_splits)
  qed
  show ?thesis
  proof (cases e)
    case OnRecvWholeBladeObject
    with assms(2) show ?thesis
      by (auto simp: Service_on_def and_then_Inr_iff ExecWrite_def start_op_def set_session_def Let_def dest: recv)
  qed (use assms(2,3) in \<open>auto simp: Service_on_def and_then_Inr_iff ExecRead_def start_op_def set_session_def Let_def
      Service_OnWriteError_def Service_OnReadError_def p none\<close>)
qed

lemma server_keeps:
  assumes "\<And>on. on \<in> ons \<Longrightarrow> \<exists>srv p g. on = service_sessions srv g \<and> accept_policy srv = Some p \<and> keeps P p"
    and "reach (\<lambda>w. loop_start w \<and> P (process w)) (loop_step ons ()) w"
  shows "P (process w)"
  using assms(2)
proof (induction rule: reach.induct)
  case (reach_step w w')
  show ?case
  proof (rule loop_step_process [where P = P, OF _ reach_step.hyps(2) reach_step.IH])
    fix on e i w w'
    assume "on \<in> ons" and on: "on e i w = Inr w'" and P: "P (process w)"
    then obtain srv p g where p: "on = service_sessions srv g" "accept_policy srv = Some p" "keeps P p" using assms(1) by blast
    from on have "Service_on (ServiceSessionPolicy_Clone p) g e i w = Inr w'" by (simp add: p(1,2) service_sessions_def)
    with session_keeps [OF p(3)] P show "P (process w')" by blast
  qed
qed simp

section \<open>Ice\<close>

lemma ice_query_reads:
  assumes "ice_inv sm" and "ice_query d n sm = Inr (r, sm')"
  shows "sm' = sm"
proof (cases "IceSM_Contains n sm")
  case True
  with assms Query_undisturbed [OF assms(1) True refl, of d] show ?thesis
    by (auto simp: ice_query_def split: option.splits if_splits)
qed (use assms(2) in \<open>simp add: ice_query_def IceSM_Query_def\<close>)

lemma ice_keeps: "keeps ice_inv (ice_policy d)"
  unfolding ice_policy_def Let_def
proof (intro keeps_DelegateExt keeps_new)
  fix g q r q' and s s' :: ice_sm
  assume inv: "ice_inv s"
  show "ice_inv s'" if "Ice_Query d g q s = Inr (r, q', s')"
    using that inv by (auto simp: Ice_Query_def catch_all_def and_then_def split: sum.splits if_splits option.splits
        dest!: ice_query_reads [OF inv])
  show "ice_inv s'" if "Ice_Registration g q s = Inr (r, q', s')"
    using that inv ice.inv_add [OF inv] ice.inv_del [OF inv]
    by (auto simp: Ice_Registration_def Let_def and_then_Inr_iff catch_all_def and_then_def split: sum.splits if_splits)
  show "ice_inv s'" if "Ice_AvaSrv g q s = Inr (r, q', s')"
    using that inv by (auto simp: Ice_AvaSrv_def Let_def and_then_Inr_iff)
  show "ice_inv s'" if "Ice_AvaSrvN g q s = Inr (r, q', s')"
    using that inv by (auto simp: Ice_AvaSrvN_def Let_def and_then_Inr_iff)
qed

text \<open>
  C13. The registry of ice stays well formed. In every reachable state of the ice process, whatever connections are made to it
  and whatever bytes arrive on them, in whatever pieces and with whatever errors, its two maps are the
  inverse of each other, without empty sets and repetitions; the list of names it gives out are those with an address, and its
  choice of an address never asks for a random number of an empty range.
\<close>

theorem Ice_process_invariant:
  assumes "reach (\<lambda>w. loop_start w \<and> process w = new_ice_sm) ice_step w"
  shows "ice_inv (process w) \<and> set (IceSM_GetSrv (process w)) = Domain (ice_rel (process w))
    \<and> (\<forall>d n. IceSM_Query d [] n (process w) \<noteq> Some (Inl EmptyRange))"
proof -
  have new: "ice_inv new_ice_sm" by (simp add: new_ice_sm_def ice_inv_def sets_wf_def set_of_def kv_wf_def)
  have "reach (\<lambda>w. loop_start w \<and> ice_inv (process w)) ice_step w"
    using assms by (induction rule: reach.induct) (auto intro: reach.intros simp: new)
  from server_keeps [OF _ this [unfolded ice_step_def]] have inv: "ice_inv (process w)"
    using ice_keeps by (force simp: ice_main_def BladeServer_def)
  moreover have "IceSM_Query d [] n (process w) \<noteq> Some (Inl EmptyRange)" for d n
    using Query_undisturbed [OF inv _ refl, of n d]
    by (cases "IceSM_Contains n (process w)") (auto simp: IceSM_Query_def [where name = n] split: option.splits if_splits)
  ultimately show ?thesis using GetSrv_rel [OF inv] by simp
qed

section \<open>Chaos\<close>

lemma DoBytes_keeps: "dm_ok s \<Longrightarrow> ChaosDM_DoBytes k n s = Inr s' \<Longrightarrow> dm_ok s'"
  using counts.bump_Inr [of "bytes s" k n] by (auto simp: ChaosDM_DoBytes_def dm_ok_def and_then_Inr_iff counts_ok_half)

lemmas ChaosDM_keeps = chaos_querys.bump_Inr chaos_errors.bump_Inr chaos_shutdowns.bump_Inr DoBytes_keeps

lemma report_keeps:
  assumes "\<And>k n s s'. dm_ok s \<Longrightarrow> rec k n s = Inr s' \<Longrightarrow> dm_ok s'" and "dm_ok s" and "iterate_report rec q s = Inr s'"
  shows "dm_ok s'"
  using assms by (auto simp: iterate_report_eq split: list.splits)

lemma DoReport_keeps:
  assumes "dm_ok s" and "Chaos_DoReport g q s = Inr (r, q', s')"
  shows "dm_ok s'"
proof -
  have "dm_ok dm" if "iterate_report rec q s = Inr dm" "rec \<in> {ChaosDM_DoQuery, ChaosDM_DoError, ChaosDM_DoShutdown, ChaosDM_DoBytes}" for rec dm
    using report_keeps [OF _ assms(1) that(1)] that(2) ChaosDM_keeps by blast
  then show ?thesis using assms unfolding Chaos_DoReport_def Let_def
    by (simp add: and_then_Inr_iff catch_all_Inr) (fastforce split: if_splits)
qed

lemma reads_keep:
  "name_handler service get g q s = Inr (r, q', s') \<Longrightarrow> s' = s"
  "most_handler service get' g q s = Inr (r, q', s') \<Longrightarrow> s' = s"
  by (auto simp: name_handler_def most_handler_def Let_def and_then_Inr_iff catch_all_Inr)

lemma chaos_keeps: "keeps dm_ok chaos_policy"
  unfolding chaos_policy_def Let_def
  by (intro keeps_DelegateExt keeps_new)
    (auto dest: DoReport_keeps reads_keep simp: chaos_handler_defs Chaos_DoMostQuery_def Chaos_DoMostError_def Chaos_DoMostShutdown_def)

lemma Chaos_process_invariant:
  assumes "reach (\<lambda>w. loop_start w \<and> process w = new_dm) chaos_step w"
  shows "dm_ok (process w)"
proof -
  have new: "dm_ok new_dm" by (simp add: new_dm_def dm_ok_def)
  have "reach (\<lambda>w. loop_start w \<and> dm_ok (process w)) chaos_step w"
    using assms by (induction rule: reach.induct) (auto intro: reach.intros simp: new)
  from server_keeps [OF _ this [unfolded chaos_step_def]] show ?thesis
    using chaos_keeps by (force simp: chaos_main_def BladeServer_def)
qed

section \<open>What changes the counters of chaos\<close>

text \<open>
  The contract of a report: the first \<^verbatim>\<open>I32\<close> field in the order of the iteration is added, under its own name, to the one map
  that the type of the report selects (for the bytes the sum is then halved). The three other maps, and all other names, stay as
  they are.
\<close>

definition is_report :: "blade_object \<Rightarrow> bool" where
  "is_report q \<longleftrightarrow> GetType q \<noteq> kBTKeepAlive \<and> field_map q kRequestService = Some (VString kChaosReport)"

definition counts_report :: "blade_object \<Rightarrow> data_manager \<Rightarrow> data_manager \<Rightarrow> bool" where
  "counts_report q dm dm' \<longleftrightarrow> (case (field_map q kChaosReportType, member_i32 q) of
     (Some (VI64 t), (k, w) # _) \<Rightarrow>
       (let sum = (\<lambda>m. count_of m k + sint w) in
        count_of (querys dm') = (if t = 1 then (count_of (querys dm))(k := sum (querys dm)) else count_of (querys dm))
        \<and> count_of (errors dm') = (if t = 2 then (count_of (errors dm))(k := sum (errors dm)) else count_of (errors dm))
        \<and> count_of (shutdowns dm') = (if t = 3 then (count_of (shutdowns dm))(k := sum (shutdowns dm)) else count_of (shutdowns dm))
        \<and> count_of (bytes dm') = (if t = 4 then (count_of (bytes dm))(k := int_half (sum (bytes dm))) else count_of (bytes dm)))
   | _ \<Rightarrow> dm' = dm)"

lemma DoReport_counts:
  assumes "obj_wf q" and "field_map q kRequestService = Some (VString c)" and "Chaos_DoReport g q dm = Inr (r, q', dm')"
  shows "counts_report q dm dm'"
proof (cases "\<exists>t. field_map q kChaosReportType = Some (VI64 t)")
  case True
  then obtain t where t: "field_map q kChaosReportType = Some (VI64 t)" by blast
  show ?thesis
    using assms(3) unfolding DoReport_eq [OF assms(1,2) t] counts_report_def t
    by (auto simp: Let_def and_then_Inr_iff ChaosDM_DoQuery_def ChaosDM_DoError_def ChaosDM_DoShutdown_def ChaosDM_DoBytes_def
        count_add_Inr count_of_modify count_half_def split: list.splits if_splits)
next
  case False
  then have "GetI64 q kChaosReportType = Inl NoSuchFieldException"
    using assms(1) by (cases "GetI64 q kChaosReportType") (auto simp: i64_field.get_Inl_iff getter_iffs)
  moreover have "GetString q kRequestService = Inr c" using assms(1,2) by (simp add: getter_iffs)
  ultimately have "dm' = dm" using assms(3) by (simp add: Chaos_DoReport_def Let_def)
  with False show ?thesis by (auto simp: counts_report_def split: option.splits field_value.splits list.splits)
qed

lemma chaos_handlers:
  assumes "map_of (f_table chaos_policy) n = Some h"
  shows "n = kChaosReport \<and> h = Chaos_DoReport \<or> n \<noteq> kChaosReport \<and> (\<forall>g q s r q' s'. h g q s = Inr (r, q', s') \<longrightarrow> s' = s)"
  using assms reads_keep
  by (auto simp: chaos_policy_def Let_def map_of_DelegateExt ServiceSessionPolicy_def chaos_handler_defs protocol_names
      dest: reads_keep split: if_splits)

lemma chaos_receives:
  assumes "obj_wf q" and "Service_OnRecv (ServiceSessionPolicy_Clone chaos_policy) g (Some q) dm = Inr (r, dm')"
  shows "if is_report q then counts_report q dm dm' else dm' = dm"
proof -
  let ?p = "ServiceSessionPolicy_Clone chaos_policy"
  have none: "run_handler None s = s" for s :: data_manager by (simp add: run_handler_def)
  have p: "f_table ?p = f_table chaos_policy" "null_object_error_handler ?p = None" "nss_error_handler ?p = None"
    by (simp_all add: ServiceSessionPolicy_Clone_def ServiceSessionPolicy_def)
  have report: "map_of (f_table chaos_policy) kChaosReport = Some Chaos_DoReport"
    by (simp add: chaos_policy_def Let_def map_of_DelegateExt ServiceSessionPolicy_def protocol_names)
  show ?thesis
  proof (cases "GetType q \<noteq> kBTKeepAlive \<and> GetFieldType q kRequestService = FT_String")
    case True
    then obtain n where n: "field_map q kRequestService = Some (VString n)"
      using GetString_String [OF assms(1)] assms(1) by (auto simp: getter_iffs)
    then have "GetString q kRequestService = Inr n" using assms(1) by (simp add: getter_iffs)
    then have eq: "Service_OnRecv ?p g (Some q) dm = (case map_of (f_table chaos_policy) n of None \<Rightarrow> Inr (Some q, dm)
        | Some h \<Rightarrow> and_then (h g q dm) (\<lambda>(res, _, s). Inr (res, s)))"
      using True by (simp add: Service_OnRecv_def p none split: option.splits)
    show ?thesis
    proof (cases "map_of (f_table chaos_policy) n")
      case None
      with eq assms(2) n report True show ?thesis by (auto simp: is_report_def)
    next
      case (Some h)
      with eq assms(2) have "and_then (h g q dm) (\<lambda>(res, _, s). Inr (res, s)) = Inr (r, dm')" by simp
      then obtain q' where h: "h g q dm = Inr (r, q', dm')" by (auto simp: and_then_Inr_iff)
      from chaos_handlers [OF Some] h DoReport_counts [OF assms(1) n] n True show ?thesis by (auto simp: is_report_def)
    qed
  next
    case False
    then have "\<not> is_report q" using assms(1) by (auto simp: is_report_def GetFieldType_fields)
    moreover have "dm' = dm" using False assms(2) by (auto simp: Service_OnRecv_def p none split: if_splits)
    ultimately show ?thesis by simp
  qed
qed

text \<open>The event loop of a process whose sessions all have the same service policy.\<close>

lemma same_policy_loop: "event_loop (Service_on p g) (\<lambda>_. None)"
proof
  fix w :: "('a, 'b) world" and i e
  show "\<exists>st. Service_on p g e i w = Inr (w\<lparr>process := st\<rparr>)" if "is_error e"
    using that by (cases e) (auto simp: Service_on_def)
next
  fix w :: "('a, 'b) world" and i s q w'
  assume l: "map_of (sessions w) i = Some (s, q)" and ok: "sessions_ok w"
    and r: "Service_on p g OnRecvWholeBladeObject i w = Inr w'"
  then obtain q st where q: "ExecWrite i (set_session i (BS_SetBladeObject q s) (w\<lparr>process := st\<rparr>)) = Inr w'"
    by (auto simp: Service_on_def session_def and_then_Inr_iff)
  have "moves (\<lambda>_. None) (set_session i (BS_SetBladeObject q s) (w\<lparr>process := st\<rparr>)) i 6 w'"
    by (rule write_moves_server [OF _ _ _ q]) (use l ok in simp_all)
  then have "moves (\<lambda>_. None) (w\<lparr>process := st\<rparr>) i 6 w'" by (rule moves_set [rotated -1]) (use l in simp_all)
  then show "moves (\<lambda>_. None) w i 6 w'" by simp
qed (simp_all add: Service_on_def)

lemma chaos_sessions: "service_sessions chaos_main g = Service_on (ServiceSessionPolicy_Clone chaos_policy) g"
  by (simp add: service_sessions_def chaos_main_def BladeServer_def fun_eq_iff)

interpretation chaos_process: server_loop "range (service_sessions chaos_main)" "\<lambda>_. None" "()"
proof (rule server_loop.intro)
  show "event_loop on (\<lambda>_. None)" if "on \<in> range (service_sessions chaos_main)" for on
    using that by (elim rangeE) (simp only: chaos_sessions same_policy_loop)
qed simp

lemma chaos_body:
  assumes "session i w = Inr s" and "op_ready (AsyncReadBody n) s" and "n = length got" and "length got + 40 < 2 ^ 31"
    and "complete (service_sessions chaos_main g) i (AsyncReadBody n) 0 got w = Inr w'"
  obtains h q where "bs_header s = Some h" "DecodeWithHeader h got 0 (int (length got)) = Inr (Some q)"
    "if is_report q then counts_report q (process w) (process w') else process w' = process w"
proof -
  let ?p = "ServiceSessionPolicy_Clone chaos_policy" and ?w = "w\<lparr>in_flight := remove1 (i, AsyncReadBody n) (in_flight w)\<rparr>"
  from assms(2,3) obtain h where s: "in_seq (bs_recv s) = []" "out_area (bs_recv s) = replicate (length got) 0" "bs_header s = Some h"
    by auto
  have len: "length got < 2 ^ 31" using assms(4) by simp
  have "session i ?w = Inr s" using assms(1) by simp
  from body_done_ok [OF this s len, of "service_sessions chaos_main g"] obtain b where
    "body_done (service_sessions chaos_main g) i (length got) 0 got ?w = and_then (DecodeWithHeader h got 0 (int (length got)))
      (\<lambda>r. service_sessions chaos_main g OnRecvWholeBladeObject i (set_session i (s\<lparr>bs_obj := r, bs_recv := b\<rparr>) ?w))" by blast
  moreover have "body_done (service_sessions chaos_main g) i (length got) 0 got ?w = Inr w'"
    using assms(3,5) by (simp add: complete_def)
  ultimately obtain r where dec: "DecodeWithHeader h got 0 (int (length got)) = Inr r"
    and on: "Service_on ?p g OnRecvWholeBladeObject i (set_session i (s\<lparr>bs_obj := r, bs_recv := b\<rparr>) ?w) = Inr w'"
    by (auto simp: and_then_Inr_iff chaos_sessions)
  from on assms(1) obtain o' st where recv: "Service_OnRecv ?p g r (process w) = Inr (o', st)" and w': "process w' = st"
    by (auto simp: Service_on_def and_then_Inr_iff ExecWrite_def)
  from recv obtain q where q: "r = Some q" by (cases r) (auto simp: Service_OnRecv_def)
  have "obj_wf q" using DecodeWithHeader_outcome [of 0 "length got" got h] dec len q by (auto split: if_splits)
  from chaos_receives [OF this recv [unfolded q]] show thesis using that s(3) dec q w' by blast
qed


section \<open>Witnesses\<close>

text \<open>A connection has been made to the process, and its header is awaited.\<close>

lemma first_connection:
  assumes "accept_policy server = Some p"
  obtains w where "accept (service_sessions server g) () \<lparr>sessions = [], in_flight = [], process = st\<rparr> = Inr w"
    "in_flight w = [(0, AsyncReadHeader)]" "process w = st"
  using assms that
  by (simp add: accept_def new_session_def service_sessions_def Service_on_def ExecRead_def session_def BS_DoReadHeader_def
      start_op_def set_session_def Let_def)

theorem Ice_process_invariant_witness:
  "\<exists>w. in_flight w = [(0, AsyncReadHeader)] \<and> reach (\<lambda>w. loop_start w \<and> process w = new_ice_sm) ice_step w \<and> ice_inv (process w)"
proof -
  let ?w = "\<lparr>sessions = [], in_flight = [], process = new_ice_sm\<rparr> :: (unit, ice_sm) world"
  obtain w where w: "accept (service_sessions (ice_main (\<lambda>_. 0)) 7) () ?w = Inr w" "in_flight w = [(0, AsyncReadHeader)]"
    by (rule first_connection [of "ice_main (\<lambda>_. 0)" _ 7 new_ice_sm]) (simp_all add: ice_main_def BladeServer_def)
  have "ice_step ?w w" unfolding ice_step_def by (rule loop_step.accepted [OF _ w(1)]) auto
  moreover have "reach (\<lambda>w. loop_start w \<and> process w = new_ice_sm) ice_step ?w"
    by (rule reach_init) (simp add: loop_start_def)
  ultimately have r: "reach (\<lambda>w. loop_start w \<and> process w = new_ice_sm) ice_step w" by (rule reach_step [rotated])
  with w(2) Ice_process_invariant [OF r] show ?thesis by blast
qed


text \<open>A message on the first connection of chaos, up to the read of its body.\<close>

lemma chaos_awaits_body:
  assumes "obj_wf q" and "obj_fits q"
  defines "body \<equiv> body_image (UpdateHeaderField q)"
  obtains w q' where "reach (\<lambda>w. loop_start w \<and> process w = new_dm) chaos_step w"
    "in_flight w = [(0, AsyncReadBody (length body))]" "process w = new_dm" "length body + 40 < 2 ^ 31"
    "obj_wf q'" "field_map q' = field_map q" "GetType q' = GetType q"
    "\<And>s h. session 0 w = Inr s \<Longrightarrow> bs_header s = Some h \<Longrightarrow> DecodeWithHeader h body 0 (int (length body)) = Inr (Some q')"
    "\<And>r dm. Service_OnRecv (ServiceSessionPolicy_Clone chaos_policy) 7 (Some q') new_dm = Inr (Some r, dm) \<Longrightarrow> obj_fits r \<Longrightarrow>
      \<exists>w'. complete (service_sessions chaos_main 7) 0 (AsyncReadBody (length body)) 0 body w = Inr w'"
proof -
  let ?u = "UpdateHeaderField q" and ?on = "service_sessions chaos_main 7"
  let ?fresh = "(BladeSession None)\<lparr>bs_recv := PrepareBuffer 40 new_buffer\<rparr>" and ?h = "bo_header (UpdateHeaderField q)"
  obtain q' where q': "DecodeWithHeader ?h body 0 (int (length body)) = Inr (Some q')" "obj_wf q'" "field_map q' = field_map q"
      "GetType q' = GetType q"
    and len: "length body = unat (payload_length ?h)" "length body < 2 ^ 31"
    unfolding body_def by (rule sent_facts [OF assms(1,2)])
  have small: "length body + 40 < 2 ^ 31"
    using assms(2) len(1) UpdateHeaderField_eq [OF assms(2)] by (simp add: obj_fits_def sizeof_header_def unat_of_nat_small)
  define w0 :: "(unit, data_manager) world" where "w0 = \<lparr>sessions = [], in_flight = [], process = new_dm\<rparr>"
  define w1 where "w1 = (one_session ?fresh () new_dm)\<lparr>in_flight := [(0, AsyncReadHeader)]\<rparr>"
  have a: "accept ?on () w0 = Inr w1"
    by (simp add: accept_def new_session_def chaos_sessions Service_on_def ExecRead_def session_def start_op_def Let_def set_session_def
        BS_DoReadHeader_def sizeof_header_def BladeSession_def one_session_def w0_def w1_def)
  have "in_seq (bs_recv ?fresh) = []" "out_area (bs_recv ?fresh) = replicate 40 0" by (simp_all add: buffer_defs)
  from header_done_ok [of 0 "one_session ?fresh () new_dm" ?fresh, OF _ this, of ?on ?h] obtain s' where
    h: "header_done ?on 0 0 (header_bytes ?h) (one_session ?fresh () new_dm)
        = Inr ((one_session s' () new_dm)\<lparr>in_flight := [(0, AsyncReadBody (length body))]\<rparr>)"
    and s': "bs_header s' = Some ?h" "in_seq (bs_recv s') = []" "out_area (bs_recv s') = replicate (length body) 0"
      "bs_send s' = new_buffer"
    using len(1) by (auto simp: start_one_session BladeSession_def)
  define w2 where "w2 = (one_session s' () new_dm)\<lparr>in_flight := [(0, AsyncReadBody (length body))]\<rparr>"
  have c: "complete ?on 0 AsyncReadHeader 0 (header_bytes ?h) w1 = Inr w2"
    by (simp add: complete_def Let_def h w1_def w2_def)
  have "reach (\<lambda>w. loop_start w \<and> process w = new_dm) chaos_step w0" by (rule reach_init) (simp add: loop_start_def w0_def)
  moreover have "chaos_step w0 w1" unfolding chaos_step_def by (rule loop_step.accepted [OF _ a]) simp
  moreover have "chaos_step w1 w2" unfolding chaos_step_def by (rule loop_step.completed [OF _ _ _ c]) (simp_all add: w1_def)
  ultimately have r: "reach (\<lambda>w. loop_start w \<and> process w = new_dm) chaos_step w2" by (meson reach_step)
  have body: "\<exists>w'. complete ?on 0 (AsyncReadBody (length body)) 0 body w2 = Inr w'"
    if recv: "Service_OnRecv (ServiceSessionPolicy_Clone chaos_policy) 7 (Some q') new_dm = Inr (Some r, dm)" and fits: "obj_fits r" for r dm
  proof -
    from body_done_ok [of 0 "one_session s' () new_dm" s' body ?h ?on, OF _ s'(2,3,1) len(2)] q'(1) obtain b where
      b: "body_done ?on 0 (length body) 0 body (one_session s' () new_dm)
        = ?on OnRecvWholeBladeObject 0 (one_session (s'\<lparr>bs_obj := Some q', bs_recv := b\<rparr>) () new_dm)" by auto
    let ?s = "s'\<lparr>bs_recv := b, bs_obj := Some r\<rparr>"
    have "session 0 (one_session ?s () dm) = Inr ?s" "bs_obj ?s = Some r" "in_seq (bs_send ?s) = []"
      using s'(4) by (simp_all add: new_buffer_def)
    from ExecWrite_fits [OF this(1,2) fits this(3)] obtain w' where "ExecWrite 0 (one_session ?s () dm) = Inr w'" by metis
    moreover have "?on OnRecvWholeBladeObject 0 (one_session (s'\<lparr>bs_obj := Some q', bs_recv := b\<rparr>) () new_dm)
        = ExecWrite 0 (one_session ?s () dm)"
      by (simp add: chaos_sessions Service_on_def recv BS_SetBladeObject_def)
    ultimately show ?thesis by (simp add: complete_def Let_def w2_def b)
  qed
  show thesis by (rule that [OF r _ _ small q'(2-4) _ body]) (use q'(1) s'(1) in \<open>simp_all add: w2_def\<close>)
qed


end
