(* ===== verification/Chaos_Tools.thy ===== *)
theory Chaos_Tools
  imports Mesh_Peers Std_Stream Chaos_Service Ice_Service
begin

text \<open>
  chaostools: the nine command line tools, each a function from the identifier its request draws, the network, the flags and the
  standard input to what it prints on the standard output, and what they print when chaos and ice run as modelled.
\<close>

section \<open>The shape of a tool\<close>

definition endl :: string where
  "endl = [CHR 0x0A]"

text \<open>\<^verbatim>\<open>if (FLAGS_q.empty()) cin >> FLAGS_q;\<close>\<close>

definition read_q :: "string \<Rightarrow> string \<Rightarrow> string" where
  "read_q flag_q stdin = (if flag_q = [] then or_empty (fst (extract_string (stringstream stdin))) else flag_q)"

text \<open>The try block that all tools share: call, and look for the mark of chaos in the answer.\<close>

definition ask ::
  "network \<Rightarrow> port \<Rightarrow> string \<Rightarrow> blade_object \<Rightarrow> (blade_object \<Rightarrow> string result) \<Rightarrow> string \<Rightarrow> string \<Rightarrow> string result" where
  "ask net prt ip obj found nodata unavailable =
     catch_all
       (and_then (CallExtNotSure net (Some obj) prt ip) (\<lambda>res.
        case res of
          None \<Rightarrow> Inr nodata
        | Some res \<Rightarrow> if Contains res kChaosOk then found res else Inr nodata))
       (Inr unavailable)"

section \<open>Look-ups by name\<close>

definition service_tool ::
  "string \<Rightarrow> string \<Rightarrow> string \<Rightarrow> string \<Rightarrow> u32 \<Rightarrow> network \<Rightarrow> string \<Rightarrow> string \<Rightarrow> string \<Rightarrow> string result" where
  "service_tool call reported what missing gid net chaos_ip flag_q stdin =
     (let q = read_q flag_q stdin;
          obj = snd (AddString kChaosName q (NewRequest gid kCallerServiceName call))
      in ask net kChaosPort chaos_ip obj
           (\<lambda>res. and_then (GetI32 res q) (\<lambda>val.
              Inr (''Service['' @ q @ reported @ show_int (sint val) @ what @ endl)))
           (missing @ q @ '']'' @ endl)
           (''CHAOS doesn't available now.'' @ endl))"

definition get_service_queries :: "u32 \<Rightarrow> network \<Rightarrow> string \<Rightarrow> string \<Rightarrow> string \<Rightarrow> string result" where
  "get_service_queries = service_tool kChaosSrvQuery '']  reported '' '' queries.'' ''No queries reported in service[''"

definition get_service_errors :: "u32 \<Rightarrow> network \<Rightarrow> string \<Rightarrow> string \<Rightarrow> string \<Rightarrow> string result" where
  "get_service_errors = service_tool kChaosSrvError ''] reported'' '' errors.'' ''No errors reported in service[''"

definition get_service_shutdowns :: "u32 \<Rightarrow> network \<Rightarrow> string \<Rightarrow> string \<Rightarrow> string \<Rightarrow> string result" where
  "get_service_shutdowns = service_tool kChaosSrvShutdown ''] reported '' '' shutdowns.'' ''No shutdowns reported in service[''"

definition get_service_traffic :: "u32 \<Rightarrow> network \<Rightarrow> string \<Rightarrow> string \<Rightarrow> string \<Rightarrow> string result" where
  "get_service_traffic = service_tool kChaosSrvAvgBytes ''] reported ''
     '' average bytes(without 40 bytes header) per query.'' ''No data reported in service[''"

section \<open>Maxima\<close>

definition most_tool :: "string \<Rightarrow> string \<Rightarrow> string \<Rightarrow> u32 \<Rightarrow> network \<Rightarrow> string \<Rightarrow> string result" where
  "most_tool call none what gid net chaos_ip =
     ask net kChaosPort chaos_ip (NewRequest gid kCallerServiceName call)
       (\<lambda>res.
          if Contains res kNoAnswer then Inr (none @ endl)
          else and_then (GetString res kChaosName) (\<lambda>name.
               and_then (GetI32 res kChaosVal) (\<lambda>val.
               Inr (''Service['' @ name @ ''] reported '' @ show_int (sint val) @ what @ endl))))
       (''No data reported now'' @ endl)
       (''CHAOS doesn't available now.'' @ endl)"

definition get_most_queries :: "u32 \<Rightarrow> network \<Rightarrow> string \<Rightarrow> string result" where
  "get_most_queries = most_tool kChaosMostQuery ''None service reported queries.'' '' queries mostly.''"

definition get_most_errors :: "u32 \<Rightarrow> network \<Rightarrow> string \<Rightarrow> string result" where
  "get_most_errors = most_tool kChaosMostError ''None service reported errors.'' '' errors mostly.''"

definition get_most_shutdowns :: "u32 \<Rightarrow> network \<Rightarrow> string \<Rightarrow> string result" where
  "get_most_shutdowns = most_tool kChaosMostShutdown ''None service reported shutdowns.'' '' shutdowns mostly.''"

section \<open>The services of ice\<close>

definition get_service_number :: "u32 \<Rightarrow> network \<Rightarrow> string \<Rightarrow> string result" where
  "get_service_number gid net ice_ip =
     ask net kIcePort ice_ip (NewRequest gid kCallerServiceName kChaosAvaSrvN)
       (\<lambda>res. and_then (GetI32 res kChaosVal) (\<lambda>val.
          Inr (''There's '' @ show_int (sint val) @ '' services available.'' @ endl)))
       (''No data reported now'' @ endl)
       (''ICE doesn't available now.'' @ endl)"

definition services_prompt :: string where
  "services_prompt =
     ''!!!WARNING!!! This operation is DANGER, may have GREAT impact on performance'' @ endl
     @ ''You'd better run `get_service_number` first.'' @ endl @ endl
     @ ''Would you like to continue(Y/n): ''"

text \<open>The callback of the iteration: what it has printed is the state; it returns 0. It cannot throw.\<close>

definition services_callback :: "string iterate_func" where
  "services_callback out name v =
     (case v of VByte _ \<Rightarrow> Inr (if name \<noteq> kChaosOk then out @ name @ endl else out, 0) | _ \<Rightarrow> Inr (out, 0))"

definition get_services :: "u32 \<Rightarrow> network \<Rightarrow> string \<Rightarrow> string \<Rightarrow> string result" where
  "get_services gid net ice_ip stdin =
     (let res = or_empty (fst (extract_string (stringstream stdin))) in
      if res = [] \<or> hd res \<notin> {CHR ''Y'', CHR ''y''} then Inr services_prompt
      else and_then
        (ask net kIcePort ice_ip (NewRequest gid kCallerServiceName kChaosAvaSrv)
          (\<lambda>res. and_then (Iterate services_callback res (endl @ ''Following service is available: '' @ endl)) (\<lambda>(out, _). Inr out))
          (''No data reported now'' @ endl)
          (''ICE doesn't available now.'' @ endl))
        (\<lambda>out. Inr (services_prompt @ out)))"

section \<open>What the tools print\<close>

lemma ask_answered:
  "CallExtNotSure net (Some obj) prt ip = Inr (Some r) \<Longrightarrow>
    ask net prt ip obj found nodata unavailable
      = (if Contains r kChaosOk then catch_all (found r) (Inr unavailable) else Inr nodata)"
  by (simp add: ask_def)

text \<open>The exact answers of the handlers.\<close>

definition lookup_response :: "u32 \<Rightarrow> string \<Rightarrow> u32 \<Rightarrow> counts \<Rightarrow> string \<Rightarrow> blade_object" where
  "lookup_response g service t m k =
     (let ret = NewResponse_traced g service t service in
      case map_of m k of None \<Rightarrow> ret | Some v \<Rightarrow> snd (AddByte kChaosOk kZeroByte (snd (AddI32 k (word_of_int v) ret))))"

lemma name_handler_eq:
  assumes "obj_wf obj" and "field_map obj kRequestService = Some (VString service)" and "field_map obj kChaosName = Some (VString k)"
    and "get k dm = kv_at m k"
  shows "name_handler service get g obj dm = Inr (Some (lookup_response g service (GetTraceId obj) m k), obj, dm)"
proof -
  have "GetString obj kRequestService = Inr service" "GetString obj kChaosName = Inr k" using assms(1-3) by (simp_all add: getter_iffs)
  then show ?thesis using assms(4)
    by (cases "map_of m k") (simp_all add: name_handler_def lookup_response_def kv_at_def)
qed

lemma lookup_response_facts:
  "obj_wf (lookup_response g service t m k)"
  "body_size (lookup_response g service t m k) \<le> 60 + 2 * length service + length k"
proof -
  let ?ret = "NewResponse_traced g service t service"
  show "obj_wf (lookup_response g service t m k)" by (simp add: lookup_response_def Let_def split: option.split)
  have "body_size (snd (AddByte kChaosOk kZeroByte (snd (AddI32 k w ?ret)))) \<le> 60 + 2 * length service + length k" for w
    using body_size_adds(1) [of kChaosOk kZeroByte "snd (AddI32 k w ?ret)"] body_size_adds(2) [of k w ?ret] by (simp add: protocol_names)
  then show "body_size (lookup_response g service t m k) \<le> 60 + 2 * length service + length k"
    by (simp add: lookup_response_def Let_def split: option.split)
qed

lemma request_type: "GetType (NewRequest g s c) = kBTRequest" "GetType (snd (AddString k v self)) = GetType self"
  by (simp_all add: GetType_def)

lemma service_tool_chaos:
  assumes "net ip kChaosPort = Inr (server_peer (service_dispatch g) chaos_policy dm)"
    and "map_of (f_table chaos_policy) call = Some (name_handler call get)" and "\<And>k. get k dm = kv_at m k"
    and "counts_ok m" and "length call < 100"
    and q: "q = read_q flag_q stdin" "length q < 2 ^ 30" "q \<notin> {kResponseService, kChaosOk}"
  shows "service_tool call reported what missing gid net ip flag_q stdin =
    Inr (case map_of m q of
        Some n \<Rightarrow> ''Service['' @ q @ reported @ show_int n @ what @ endl
      | None \<Rightarrow> missing @ q @ '']'' @ endl)"
proof -
  let ?req = "NewRequest gid kCallerServiceName call"
  let ?obj = "snd (AddString kChaosName q ?req)" and ?r = "\<lambda>t. lookup_response g call t m q"
  have obj: "obj_wf ?obj" "field_map ?obj kRequestService = Some (VString call)" "field_map ?obj kChaosName = Some (VString q)"
    "GetType ?obj \<noteq> kBTKeepAlive"
    by (simp_all add: fields_adds request_type blade_type_defs protocol_names)
  have "body_size ?obj \<le> body_size ?req + 12 + length kChaosName + length q" by (rule body_size_adds)
  then have fits: "obj_fits ?obj" using q(2) assms(5) by (simp add: obj_fits_def sizeof_header_def protocol_names)
  have fits_r: "obj_fits (?r t)" for t
    using lookup_response_facts(2) [of g call t m q] q(2) assms(5) by (simp add: obj_fits_def sizeof_header_def)
  have handled: "Service_OnRecv chaos_policy g (Some q') dm = Inr (Some (?r (GetTraceId ?obj)), dm)"
    if "obj_wf q'" "field_map q' = field_map ?obj" "GetType q' = GetType ?obj" "GetTraceId q' = GetTraceId ?obj" for q'
  proof (rule dispatch_handler [OF that(1) _ _ assms(2)])
    show "GetType q' \<noteq> kBTKeepAlive" using that(3) obj(4) by simp
    show "field_map q' kRequestService = Some (VString call)" using that(2) obj(2) by simp
    from name_handler_eq [OF that(1) this, of q get dm m g] that(2,4) obj(3) assms(3)
    show "name_handler call get g q' dm = Inr (Some (?r (GetTraceId ?obj)), q', dm)" by simp
  qed
  obtain r' where r': "CallExtNotSure net (Some ?obj) kChaosPort ip = Inr (Some r')" "obj_wf r'"
    "field_map r' = field_map (?r (GetTraceId ?obj))"
    by (rule server_call [where net = net and ip = ip and prt = kChaosPort, OF obj(1) fits lookup_response_facts(1) fits_r assms(1)])
      (rule handled, assumption+)
  have names: "kChaosOk \<noteq> kResponseService" by (simp add: protocol_names)
  show ?thesis
  proof (cases "map_of m q")
    case None
    then have "\<not> Contains r' kChaosOk" using r'(2,3) names by (simp add: Contains_iff lookup_response_def)
    with None r'(1) show ?thesis by (simp add: service_tool_def ask_answered flip: q(1))
  next
    case (Some n)
    then have f: "field_map r' = [kResponseService \<mapsto> VString call, q \<mapsto> VI32 (word_of_int n), kChaosOk \<mapsto> VByte 0]"
      using r'(3) names q(3) by (auto simp: lookup_response_def fields_adds kZeroByte_def)
    then have "Contains r' kChaosOk" "GetI32 r' q = Inr (word_of_int n)"
      using r'(2) q(3) by (simp_all add: Contains_iff getter_iffs)
    moreover have "int_range n" using assms(4) Some by (auto simp: counts_ok_def count_of_def split: option.splits dest: spec [of _ q])
    ultimately show ?thesis using Some r'(1) by (simp add: service_tool_def ask_answered sint_of_int_range flip: q(1))
  qed
qed

definition most_response :: "u32 \<Rightarrow> string \<Rightarrow> u32 \<Rightarrow> (string \<times> int) option \<Rightarrow> blade_object" where
  "most_response g service t res =
     (let ret = NewResponse_traced g service t service in
      snd (AddByte kChaosOk kZeroByte (case res of
        Some (name, val) \<Rightarrow> snd (AddI32 kChaosVal (word_of_int val) (snd (AddString kChaosName name ret)))
      | None \<Rightarrow> snd (AddByte kNoAnswer kZeroByte ret))))"

lemma most_response_facts:
  "obj_wf (most_response g service t res)"
  "field_map (most_response g service t res) = most_fields service res"
  "body_size (most_response g service t res) \<le> 200 + 2 * length service + (case res of Some (k, _) \<Rightarrow> length k | None \<Rightarrow> 0)"
proof -
  let ?ret = "NewResponse_traced g service t service"
  show "obj_wf (most_response g service t res)" "field_map (most_response g service t res) = most_fields service res"
    by (auto simp: most_response_def most_fields_def Let_def fields_adds kZeroByte_def protocol_names fun_eq_iff split: option.split)
  have "body_size (snd (AddByte kChaosOk kZeroByte (snd (AddI32 kChaosVal w (snd (AddString kChaosName k ?ret)))))) \<le> 200 + 2 * length service + length k" for w k
    using body_size_adds(1) [of kChaosOk kZeroByte "snd (AddI32 kChaosVal w (snd (AddString kChaosName k ?ret)))"]
      body_size_adds(2) [of kChaosVal w "snd (AddString kChaosName k ?ret)"] body_size_adds(3) [of kChaosName k ?ret]
    by (simp add: protocol_names)
  moreover have "body_size (snd (AddByte kChaosOk kZeroByte (snd (AddByte kNoAnswer kZeroByte ?ret)))) \<le> 200 + 2 * length service"
    using body_size_adds(1) [of kChaosOk kZeroByte "snd (AddByte kNoAnswer kZeroByte ?ret)"] body_size_adds(1) [of kNoAnswer kZeroByte ?ret]
    by (simp add: protocol_names)
  ultimately show "body_size (most_response g service t res) \<le> 200 + 2 * length service + (case res of Some (k, _) \<Rightarrow> length k | None \<Rightarrow> 0)"
    by (auto simp: most_response_def Let_def split: option.split)
qed

lemma most_handler_eq:
  assumes "obj_wf obj" and "field_map obj kRequestService = Some (VString service)"
  shows "most_handler service get g obj dm = Inr (Some (most_response g service (GetTraceId obj) (get dm)), obj, dm)"
proof -
  have "GetString obj kRequestService = Inr service" using assms by (simp add: getter_iffs)
  then show ?thesis by (simp add: most_handler_def most_response_def Let_def)
qed

text \<open>A request without fields of its own, answered by a handler of a policy's table.\<close>

lemma plain_call:
  assumes "net ip prt = Inr (server_peer (service_dispatch g) pol st)" and "map_of (f_table pol) call = Some h" and "length call < 100"
    and "\<And>q'. obj_wf q' \<Longrightarrow> field_map q' kRequestService = Some (VString call) \<Longrightarrow> h g q' st = Inr (Some (resp (GetTraceId q')), q', st)"
    and "\<And>t. obj_wf (resp t)" and "\<And>t. obj_fits (resp t)"
  obtains r' t where "CallExtNotSure net (Some (NewRequest gid kCallerServiceName call)) prt ip = Inr (Some r')" "obj_wf r'"
    "field_map r' = field_map (resp t)"
proof -
  let ?obj = "NewRequest gid kCallerServiceName call"
  have fits: "obj_fits ?obj" using assms(3) by (simp add: obj_fits_def sizeof_header_def protocol_names)
  have handled: "Service_OnRecv pol g (Some q') st = Inr (Some (resp (GetTraceId ?obj)), st)"
    if "obj_wf q'" "field_map q' = field_map ?obj" "GetType q' = GetType ?obj" "GetTraceId q' = GetTraceId ?obj" for q'
  proof (rule dispatch_handler [OF that(1) _ _ assms(2)])
    show "GetType q' \<noteq> kBTKeepAlive" using that(3) by (simp add: request_type blade_type_defs)
    show f: "field_map q' kRequestService = Some (VString call)" using that(2) by simp
    show "h g q' st = Inr (Some (resp (GetTraceId ?obj)), q', st)" using assms(4) [OF that(1) f] that(4) by simp
  qed
  show thesis
    by (rule server_call [where net = net and ip = ip and prt = prt, OF constructors_wf(1) fits assms(5,6,1)])
      (rule handled, assumption+, rule that)
qed

lemma most_tool_chaos:
  assumes "net ip kChaosPort = Inr (server_peer (service_dispatch g) chaos_policy dm)"
    and "map_of (f_table chaos_policy) call = Some (most_handler call get)" and "get dm = most m"
    and "counts_ok m" and "length call < 100" and "\<forall>k n. map_of m k = Some n \<longrightarrow> length k < 2 ^ 30"
  shows "if m = [] then most_tool call none what gid net ip = Inr (none @ endl)
    else \<exists>k n. map_of m k = Some n \<and> (\<forall>k' n'. map_of m k' = Some n' \<longrightarrow> n' \<le> n)
      \<and> most_tool call none what gid net ip = Inr (''Service['' @ k @ ''] reported '' @ show_int n @ what @ endl)"
proof -
  have m: "kv_wf m" using assms(4) by (simp add: counts_ok_def)
  have small: "length k < 2 ^ 30" if "most m = Some (k, n)" for k n using most_Some [OF m that] assms(6) by blast
  have fits: "obj_fits (most_response g call t (most m))" for t
    using most_response_facts(3) [of g call t "most m"] assms(5) small
    by (cases "most m") (auto simp: obj_fits_def sizeof_header_def split: prod.splits)
  obtain r' t where r': "CallExtNotSure net (Some (NewRequest gid kCallerServiceName call)) kChaosPort ip = Inr (Some r')" "obj_wf r'"
    "field_map r' = most_fields call (most m)"
    by (rule plain_call [where net = net and ip = ip and prt = kChaosPort and resp = "\<lambda>t. most_response g call t (most m)",
          OF assms(1,2,5) _ most_response_facts(1) fits])
      (use most_handler_eq [where get = get] assms(3) in \<open>auto simp: most_response_facts(2)\<close>)
  have names: "kNoAnswer \<noteq> kResponseService" "kNoAnswer \<noteq> kChaosName" "kNoAnswer \<noteq> kChaosVal" "kNoAnswer \<noteq> kChaosOk"
    "kChaosName \<noteq> kChaosVal" "kChaosName \<noteq> kChaosOk" "kChaosVal \<noteq> kChaosOk"
    by (simp_all add: protocol_names)
  have ok: "Contains r' kChaosOk" using r'(2,3) by (simp add: Contains_iff most_fields_def split: option.split)
  show ?thesis
  proof (cases "most m")
    case None
    then have "Contains r' kNoAnswer" using r'(2,3) names by (simp add: Contains_iff most_fields_def)
    moreover have "m = []" using None by (simp add: most_None)
    ultimately show ?thesis using ok r'(1) by (simp add: most_tool_def ask_answered)
  next
    case (Some e)
    obtain k n where e: "e = (k, n)" by (cases e)
    with Some most_Some [OF m] have max: "map_of m k = Some n" "\<forall>k' n'. map_of m k' = Some n' \<longrightarrow> n' \<le> n" by auto
    have "\<not> Contains r' kNoAnswer" "GetString r' kChaosName = Inr k" "GetI32 r' kChaosVal = Inr (word_of_int n)"
      using r'(2,3) names Some e by (simp_all add: Contains_iff getter_iffs most_fields_def)
    moreover have "int_range n" using assms(4) max(1) by (auto simp: counts_ok_def count_of_def split: option.splits dest: spec [of _ k])
    moreover have "m \<noteq> []" using max(1) by auto
    ultimately show ?thesis using ok r'(1) max by (auto simp: most_tool_def ask_answered sint_of_int_range)
  qed
qed

section \<open>The tools of chaos\<close>

lemma chaos_table:
  "map_of (f_table chaos_policy) kChaosSrvQuery = Some (name_handler kChaosSrvQuery ChaosDM_GetQuery)"
  "map_of (f_table chaos_policy) kChaosSrvError = Some (name_handler kChaosSrvError ChaosDM_GetError)"
  "map_of (f_table chaos_policy) kChaosSrvShutdown = Some (name_handler kChaosSrvShutdown ChaosDM_GetShutdown)"
  "map_of (f_table chaos_policy) kChaosSrvAvgBytes = Some (name_handler kChaosSrvAvgBytes ChaosDM_GetBytes)"
  "map_of (f_table chaos_policy) kChaosMostQuery = Some (most_handler kChaosMostQuery ChaosDM_GetMostQuery)"
  "map_of (f_table chaos_policy) kChaosMostError = Some (most_handler kChaosMostError ChaosDM_GetMostError)"
  "map_of (f_table chaos_policy) kChaosMostShutdown = Some (most_handler kChaosMostShutdown ChaosDM_GetMostShutdown)"
  by (simp_all add: chaos_policy_def Let_def map_of_DelegateExt ServiceSessionPolicy_def protocol_names chaos_handler_defs)

text \<open>
  C34. The look-up tools. With chaos running, each of the four tools prints the counter that chaos holds for the
  name it was given (by flag or on its standard input), in decimal, or that there is none. (The name is not one of the two field names that
  the answer uses itself.)
\<close>

theorem Lookup_tools_print:
  assumes "net ip kChaosPort = Inr (server_peer (service_dispatch g) chaos_policy dm)" and "dm_ok dm"
    and "q = read_q flag_q stdin" and "length q < 2 ^ 30" and "q \<notin> {kResponseService, kChaosOk}"
  shows "get_service_queries gid net ip flag_q stdin = Inr (case map_of (querys dm) q of
        Some n \<Rightarrow> ''Service['' @ q @ '']  reported '' @ show_int n @ '' queries.'' @ endl
      | None \<Rightarrow> ''No queries reported in service['' @ q @ '']'' @ endl)
    \<and> get_service_errors gid net ip flag_q stdin = Inr (case map_of (errors dm) q of
        Some n \<Rightarrow> ''Service['' @ q @ ''] reported'' @ show_int n @ '' errors.'' @ endl
      | None \<Rightarrow> ''No errors reported in service['' @ q @ '']'' @ endl)
    \<and> get_service_shutdowns gid net ip flag_q stdin = Inr (case map_of (shutdowns dm) q of
        Some n \<Rightarrow> ''Service['' @ q @ ''] reported '' @ show_int n @ '' shutdowns.'' @ endl
      | None \<Rightarrow> ''No shutdowns reported in service['' @ q @ '']'' @ endl)
    \<and> get_service_traffic gid net ip flag_q stdin = Inr (case map_of (bytes dm) q of
        Some n \<Rightarrow> ''Service['' @ q @ ''] reported '' @ show_int n @ '' average bytes(without 40 bytes header) per query.'' @ endl
      | None \<Rightarrow> ''No data reported in service['' @ q @ '']'' @ endl)"
proof -
  have ok: "counts_ok (querys dm)" "counts_ok (errors dm)" "counts_ok (shutdowns dm)" "counts_ok (bytes dm)"
    using assms(2) by (simp_all add: dm_ok_def)
  have len: "length kChaosSrvQuery < 100" "length kChaosSrvError < 100" "length kChaosSrvShutdown < 100" "length kChaosSrvAvgBytes < 100"
    by (simp_all add: protocol_names)
  note tool = service_tool_chaos [where net = net and ip = ip, OF assms(1)]
  show ?thesis
    by (simp only: get_service_queries_def get_service_errors_def get_service_shutdowns_def get_service_traffic_def
        tool [OF chaos_table(1) ChaosDM_GetQuery_def ok(1) len(1) assms(3-5)] tool [OF chaos_table(2) ChaosDM_GetError_def ok(2) len(2) assms(3-5)]
        tool [OF chaos_table(3) ChaosDM_GetShutdown_def ok(3) len(3) assms(3-5)] tool [OF chaos_table(4) ChaosDM_GetBytes_def ok(4) len(4) assms(3-5)])
qed

text \<open>
  The tools for the maxima. With chaos running, each of the three prints the name and value of a counter of its kind that no
  other exceeds, or that there is none.
\<close>

theorem Most_tools_print:
  assumes "net ip kChaosPort = Inr (server_peer (service_dispatch g) chaos_policy dm)" and "dm_ok dm"
    and "\<forall>m \<in> {querys dm, errors dm, shutdowns dm}. \<forall>k n. map_of m k = Some n \<longrightarrow> length k < 2 ^ 30"
  shows "\<forall>(tool, m, none, what) \<in> {(get_most_queries, querys dm, ''None service reported queries.'', '' queries mostly.''),
      (get_most_errors, errors dm, ''None service reported errors.'', '' errors mostly.''),
      (get_most_shutdowns, shutdowns dm, ''None service reported shutdowns.'', '' shutdowns mostly.'')}.
    if m = [] then tool gid net ip = Inr (none @ endl)
    else \<exists>k n. map_of m k = Some n \<and> (\<forall>k' n'. map_of m k' = Some n' \<longrightarrow> n' \<le> n)
      \<and> tool gid net ip = Inr (''Service['' @ k @ ''] reported '' @ show_int n @ what @ endl)"
proof -
  have ok: "counts_ok (querys dm)" "counts_ok (errors dm)" "counts_ok (shutdowns dm)"
    using assms(2) by (simp_all add: dm_ok_def)
  have len: "length kChaosMostQuery < 100" "length kChaosMostError < 100" "length kChaosMostShutdown < 100"
    by (simp_all add: protocol_names)
  have names: "\<forall>k n. map_of (querys dm) k = Some n \<longrightarrow> length k < 2 ^ 30" "\<forall>k n. map_of (errors dm) k = Some n \<longrightarrow> length k < 2 ^ 30"
    "\<forall>k n. map_of (shutdowns dm) k = Some n \<longrightarrow> length k < 2 ^ 30" using assms(3) by simp_all
  note tool = most_tool_chaos [where net = net and ip = ip and gid = gid, OF assms(1)]
  show ?thesis
    using tool [OF chaos_table(5) ChaosDM_GetMostQuery_def ok(1) len(1) names(1), of "''None service reported queries.''" "'' queries mostly.''"]
      tool [OF chaos_table(6) ChaosDM_GetMostError_def ok(2) len(2) names(2), of "''None service reported errors.''" "'' errors mostly.''"]
      tool [OF chaos_table(7) ChaosDM_GetMostShutdown_def ok(3) len(3) names(3), of "''None service reported shutdowns.''" "'' shutdowns mostly.''"]
    by (simp only: get_most_queries_def get_most_errors_def get_most_shutdowns_def ball_simps prod.case simp_thms)
qed

section \<open>The tools of ice\<close>

definition number_response :: "u32 \<Rightarrow> ice_sm \<Rightarrow> u32 \<Rightarrow> blade_object" where
  "number_response g sm t = snd (AddByte kChaosOk kZeroByte (snd (AddI32 kChaosVal (word_of_int (IceSM_GetSrvN sm))
     (NewResponse_traced g kChaosAvaSrvN t kChaosAvaSrvN))))"

definition names_response :: "u32 \<Rightarrow> string list \<Rightarrow> u32 \<Rightarrow> blade_object" where
  "names_response g names t = snd (AddByte kChaosOk kZeroByte (fold (\<lambda>i ret. snd (AddByte i 1 ret)) names
     (NewResponse_traced g kChaosAvaSrv t kChaosAvaSrv)))"

lemma add_bytes:
  assumes "obj_wf ret"
  shows "obj_wf (fold (\<lambda>i ret. snd (AddByte i b ret)) names ret)
    \<and> field_map (fold (\<lambda>i ret. snd (AddByte i b ret)) names ret) =
      (\<lambda>k. case field_map ret k of Some v \<Rightarrow> Some v | None \<Rightarrow> if k \<in> set names then Some (VByte b) else None)
    \<and> body_size (fold (\<lambda>i ret. snd (AddByte i b ret)) names ret) \<le> body_size ret + (\<Sum>n \<leftarrow> names. 9 + length n)"
  using assms
proof (induction names arbitrary: ret)
  case (Cons n names)
  let ?ret = "snd (AddByte n b ret)"
  have "obj_wf ?ret" using Cons.prems by simp
  from Cons.IH [OF this] body_size_adds(1) [of n b ret] Cons.prems show ?case
    by (auto simp: fields_adds fun_eq_iff split: option.split)
qed (auto split: option.split)

lemma names_response_facts:
  "obj_wf (names_response g names t)"
  "field_map (names_response g names t) k = Some (VByte b) \<Longrightarrow> k \<in> set names \<or> k = kChaosOk"
  "field_map (names_response g names t) kChaosOk \<noteq> None"
  "body_size (names_response g names t) \<le> 100 + (\<Sum>n \<leftarrow> names. 9 + length n)"
proof -
  let ?ret = "NewResponse_traced g kChaosAvaSrv t kChaosAvaSrv"
  let ?all = "fold (\<lambda>i ret. snd (AddByte i 1 ret)) names ?ret"
  have wf: "obj_wf ?ret" by simp
  note all = conjunct1 [OF add_bytes [OF wf, of 1 names]] conjunct1 [OF conjunct2 [OF add_bytes [OF wf, of 1 names]]]
    conjunct2 [OF conjunct2 [OF add_bytes [OF wf, of 1 names]]]
  show "obj_wf (names_response g names t)" using all(1) by (simp add: names_response_def)
  show "k \<in> set names \<or> k = kChaosOk" if "field_map (names_response g names t) k = Some (VByte b)"
    using that by (auto simp: names_response_def fields_adds [OF all(1)] all(2) split: option.splits if_splits)
  show "field_map (names_response g names t) kChaosOk \<noteq> None"
    by (simp add: names_response_def fields_adds [OF all(1)])
  show "body_size (names_response g names t) \<le> 100 + (\<Sum>n \<leftarrow> names. 9 + length n)"
    using body_size_adds(1) [of kChaosOk kZeroByte ?all] all(3) by (simp add: names_response_def protocol_names)
qed

lemma iterate_services:
  "Iterate services_callback res out = Inr (out @ (case member_byte res of [] \<Rightarrow> [] | (k, _) # _ \<Rightarrow> if k \<noteq> kChaosOk then k @ endl else []), 0)"
proof -
  have stop: "services_callback s k v = Inr (s', n) \<Longrightarrow> n = 0" for s k v s' n
    by (auto simp: services_callback_def split: field_value.splits)
  have none: "iter_type services_callback ms (s, r) = Inr (s, r)" if "\<forall>v \<in> snd ` set ms. \<forall>w. v \<noteq> VByte w" for ms s r
    using that by (cases ms) (auto simp: services_callback_def split: field_value.splits)
  have rest: "\<forall>v \<in> snd ` set (i32_fields res). \<forall>w. v \<noteq> VByte w" "\<forall>v \<in> snd ` set (i64_fields res). \<forall>w. v \<noteq> VByte w"
    "\<forall>v \<in> snd ` set (f64_fields res). \<forall>w. v \<noteq> VByte w" "\<forall>v \<in> snd ` set (string_fields res). \<forall>w. v \<noteq> VByte w"
    by (auto simp: typed_fields_defs)
  show ?thesis
    by (cases "member_byte res")
      (auto simp: Iterate_def iter_type_stops [OF stop] none [OF rest(1)] none [OF rest(2)] none [OF rest(3)] none [OF rest(4)]
        byte_fields_def services_callback_def)
qed

lemma first_word: "\<not> is_space c \<Longrightarrow> \<exists>w. fst (extract_string (stringstream (c # rest))) = Some (c # w)"
  by (simp add: extract_string_def sentry_def stringstream_def Let_def)

lemma request_caller: "obj_wf q' \<Longrightarrow> field_map q' kRequestService = Some (VString c) \<Longrightarrow> GetString q' kRequestService = Inr c"
  by (simp add: getter_iffs)

lemma get_services_prints:
  assumes "net ip kIcePort = Inr (server_peer (service_dispatch g) (ice_policy d) sm)" and "ice_inv sm"
    and "(\<Sum>n \<leftarrow> IceSM_GetSrv sm. 9 + length n) < 2 ^ 30"
  shows "\<exists>names. length names \<le> 1 \<and> set names \<subseteq> Domain (ice_rel sm)
      \<and> get_services gid net ip (CHR ''Y'' # rest) = Inr (services_prompt @ endl @ ''Following service is available: '' @ endl
          @ concat (map (\<lambda>n. n @ endl) names))"
proof -
  have len: "length kChaosAvaSrv < 100" by (simp add: protocol_names)
  have fits: "obj_fits (names_response g (IceSM_GetSrv sm) t)" for t
    using names_response_facts(4) [of g "IceSM_GetSrv sm" t] assms(3) by (simp add: obj_fits_def sizeof_header_def)
  note call = plain_call [where net = net and ip = ip and prt = kIcePort and gid = gid, OF assms(1)]
  obtain r t where r: "CallExtNotSure net (Some (NewRequest gid kCallerServiceName kChaosAvaSrv)) kIcePort ip = Inr (Some r)" "obj_wf r"
    "field_map r = field_map (names_response g (IceSM_GetSrv sm) t)"
    by (rule call [where resp = "names_response g (IceSM_GetSrv sm)", OF ice_table(3) len _ names_response_facts(1) fits])
      (simp_all add: Ice_AvaSrv_def request_caller names_response_def Let_def)
  obtain w where w: "fst (extract_string (stringstream (CHR ''Y'' # rest))) = Some (CHR ''Y'' # w)"
    using first_word [of "CHR ''Y''"] by (auto simp: is_space_def)
  define names where "names = (case member_byte r of [] \<Rightarrow> [] | (k, _) # _ \<Rightarrow> if k \<noteq> kChaosOk then [k] else [])"
  have "k \<in> set (IceSM_GetSrv sm) \<or> k = kChaosOk" if "(k, b) \<in> set (member_byte r)" for k b
    using that members_fields(1) [OF r(2)] names_response_facts(2) by (metis r(3))
  then have "k \<in> Domain (ice_rel sm)" if "(k, b) \<in> set (member_byte r)" "k \<noteq> kChaosOk" for k b using that GetSrv_rel(1) [OF assms(2)] by blast
  then have "length names \<le> 1" "set names \<subseteq> Domain (ice_rel sm)"
    by (cases "member_byte r"; force simp: names_def)+
  moreover have "Contains r kChaosOk" using names_response_facts(3) r(2,3) by (simp add: Contains_iff)
  then have "get_services gid net ip (CHR ''Y'' # rest) = Inr (services_prompt @ endl @ ''Following service is available: '' @ endl
          @ concat (map (\<lambda>n. n @ endl) names))"
    using r(1) w by (auto simp: get_services_def or_empty_def ask_answered iterate_services names_def split: list.splits)
  ultimately show ?thesis by blast
qed

lemma get_service_number_prints:
  assumes "net ip kIcePort = Inr (server_peer (service_dispatch g) (ice_policy d) sm)" and "ice_inv sm"
    and "card (Domain (ice_rel sm)) < 2 ^ 31"
  shows "get_service_number gid net ip
      = Inr (''There's '' @ show_int (int (card (Domain (ice_rel sm)))) @ '' services available.'' @ endl)"
proof -
  have len: "length kChaosAvaSrvN < 100" by (simp add: protocol_names)
  have fits: "obj_fits (number_response g sm t)" for t
    using body_size_adds(1) [of kChaosOk kZeroByte "snd (AddI32 kChaosVal (word_of_int (IceSM_GetSrvN sm)) (NewResponse_traced g kChaosAvaSrvN t kChaosAvaSrvN))"]
      body_size_adds(2) [of kChaosVal "word_of_int (IceSM_GetSrvN sm)" "NewResponse_traced g kChaosAvaSrvN t kChaosAvaSrvN"]
    by (simp add: obj_fits_def sizeof_header_def number_response_def protocol_names)
  note call = plain_call [where net = net and ip = ip and prt = kIcePort and gid = gid, OF assms(1)]
  obtain r' t where r': "CallExtNotSure net (Some (NewRequest gid kCallerServiceName kChaosAvaSrvN)) kIcePort ip = Inr (Some r')" "obj_wf r'"
    "field_map r' = field_map (number_response g sm t)"
    by (rule call [where resp = "number_response g sm", OF ice_table(4) len _ _ fits])
      (simp_all add: Ice_AvaSrvN_def request_caller number_response_def Let_def)
  note srv = GetSrv_rel [OF assms(2)]
  have "length (srv_name_to_ip sm) = card (Domain (ice_rel sm))"
    using distinct_card [OF srv(2)] srv(1) by (simp add: IceSM_GetSrv_def)
  then have n: "IceSM_GetSrvN sm = int (card (Domain (ice_rel sm)))" "int_range (IceSM_GetSrvN sm)"
    using assms(3) by (simp_all add: IceSM_GetSrvN_def int_range_def)
  have names: "kChaosVal \<noteq> kResponseService" "kChaosOk \<noteq> kChaosVal" "kChaosOk \<noteq> kResponseService" by (simp_all add: protocol_names)
  have "Contains r' kChaosOk" "GetI32 r' kChaosVal = Inr (word_of_int (IceSM_GetSrvN sm))"
    using r'(2,3) names by (simp_all add: Contains_iff getter_iffs number_response_def fields_adds)
  then show ?thesis
    using r'(1) sint_of_int_range [OF n(2)] by (simp add: get_service_number_def ask_answered del: of_int_of_nat_eq flip: n(1))
qed

text \<open>
  C35. The list of services. With ice running and the user's consent, \<^verbatim>\<open>get_services\<close> prints at most one
  name, which is a registered one, because its callback returns 0 and so stops the iteration after the first field, which may
  also be the mark of success; \<^verbatim>\<open>get_service_number\<close> prints the number of registered names. Without consent, nothing is asked.
\<close>

theorem Service_tools_print:
  assumes "net ip kIcePort = Inr (server_peer (service_dispatch g) (ice_policy d) sm)" and "ice_inv sm"
    and "card (Domain (ice_rel sm)) < 2 ^ 31" and "(\<Sum>n \<leftarrow> IceSM_GetSrv sm. 9 + length n) < 2 ^ 30"
  shows "(\<exists>names. length names \<le> 1 \<and> set names \<subseteq> Domain (ice_rel sm)
      \<and> get_services gid net ip (CHR ''Y'' # rest) = Inr (services_prompt @ endl @ ''Following service is available: '' @ endl
          @ concat (map (\<lambda>n. n @ endl) names)))
    \<and> get_service_number gid net ip
        = Inr (''There's '' @ show_int (int (card (Domain (ice_rel sm)))) @ '' services available.'' @ endl)
    \<and> get_services gid net ip (CHR ''n'' # rest) = Inr services_prompt"
proof (intro conjI)
  show "get_services gid net ip (CHR ''n'' # rest) = Inr services_prompt"
    using first_word [of "CHR ''n''" rest] by (auto simp: get_services_def or_empty_def is_space_def)
qed (rule get_services_prints [where net = net and ip = ip, OF assms(1,2,4)], rule get_service_number_prints [where net = net and ip = ip, OF assms(1-3)])

text \<open>
  The tools when chaos or ice is down. A refused connection is not an exception but a null answer: the tools then
  report that there is no data, the same as for a service without counters, never that the server is not available.
\<close>

theorem Tools_hide_refusal:
  assumes "net ip kChaosPort = Inr p" and "net ip kIcePort = Inr p" and "pr_connect p \<noteq> 0"
  shows "get_service_queries gid net ip flag_q stdin = Inr (''No queries reported in service['' @ read_q flag_q stdin @ '']'' @ endl)
    \<and> get_most_errors gid net ip = Inr (''No data reported now'' @ endl)
    \<and> get_service_number gid net ip = Inr (''No data reported now'' @ endl)"
proof -
  have "CallExtNotSure net (Some obj) prt ip = Inr None" if "prt \<in> {kChaosPort, kIcePort}" for obj prt
    using assms that by (auto simp: CallExtNotSure_def Start_def SetObject_def)
  then show ?thesis
    by (simp add: get_service_queries_def service_tool_def get_most_errors_def most_tool_def get_service_number_def ask_def)
qed

section \<open>Witnesses\<close>

theorem Lookup_tools_print_witness:
  "get_service_queries 1 (\<lambda>_ _. Inr (server_peer (service_dispatch 7) chaos_policy (new_dm\<lparr>querys := [(''a'', 3)]\<rparr>))) ''3'' '''' '' a ''
    = Inr (''Service[a]  reported 3 queries.'' @ endl)"
proof -
  let ?dm = "new_dm\<lparr>querys := [(''a'', 3)]\<rparr>" and ?q = "read_q '''' '' a ''"
  have ok: "dm_ok ?dm" by (auto simp: dm_ok_def new_dm_def counts_ok_def kv_wf_def count_of_def int_range_def)
  have q: "?q = ''a''"
    by (simp add: read_q_def extract_string_def sentry_def stringstream_def is_space_def Let_def or_empty_def)
  have "length ?q < 2 ^ 30" "?q \<notin> {kResponseService, kChaosOk}" by (simp_all add: q protocol_names)
  from Lookup_tools_print [OF _ ok refl this, of "\<lambda>_ _. Inr (server_peer (service_dispatch 7) chaos_policy ?dm)" "''3''" 7 1] show ?thesis
    by (simp add: q show_int_def show_nat.simps digit_char_def char_of_def bit_0)
qed

theorem Most_tools_print_witness:
  "get_most_queries 1 (\<lambda>_ _. Inr (server_peer (service_dispatch 7) chaos_policy new_dm)) ''3'' = Inr (''None service reported queries.'' @ endl)"
proof -
  have "dm_ok new_dm" by (simp add: dm_ok_def new_dm_def)
  from Most_tools_print [OF _ this, of "\<lambda>_ _. Inr (server_peer (service_dispatch 7) chaos_policy new_dm)" "''3''" 7 1] show ?thesis
    by (simp add: new_dm_def)
qed

theorem Service_tools_print_witness:
  "get_service_number 1 (\<lambda>_ _. Inr (server_peer (service_dispatch 7) (ice_policy (\<lambda>_. 0)) new_ice_sm)) ''2''
    = Inr (''There's 0 services available.'' @ endl)"
proof -
  have "ice_inv new_ice_sm" by (simp add: new_ice_sm_def ice_inv_def sets_wf_def set_of_def)
  moreover have "Domain (ice_rel new_ice_sm) = {}" "IceSM_GetSrv new_ice_sm = []"
    by (simp_all add: new_ice_sm_def ice_rel_def set_of_def IceSM_GetSrv_def)
  ultimately show ?thesis
    using Service_tools_print [of "\<lambda>_ _. Inr (server_peer (service_dispatch 7) (ice_policy (\<lambda>_. 0)) new_ice_sm)" "''2''" 7 "\<lambda>_. 0" new_ice_sm 1]
    by (simp add: show_int_def show_nat.simps digit_char_def char_of_def bit_0)
qed

theorem Tools_hide_refusal_witness:
  "get_most_errors 1 (\<lambda>_ _. Inr \<lparr>pr_connect = 111, pr_write = 0, pr_read = 2, pr_reply = (\<lambda>_. [])\<rparr>) ''3'' = Inr (''No data reported now'' @ endl)"
  using Tools_hide_refusal [of "\<lambda>_ _. Inr \<lparr>pr_connect = 111, pr_write = 0, pr_read = 2, pr_reply = (\<lambda>_. [])\<rparr>" "''3''" _ 1 "''a''" "''''"]
  by simp

end
