(* ===== verification/Tool_Mains.thy ===== *)
theory Tool_Mains
  imports Chaos_Tools Atreus_Config
begin

text \<open>
  chaostools: \<^verbatim>\<open>main\<close> of each tool from its command line: the flags with their defaults, the validator of the
  address, and then the body of \<open>Chaos_Tools\<close>. The parser of gflags is a parameter, as in \<open>Atreus_Config\<close>: it gets
  the defaults, the validators and the arguments, and gives the values of the flags, or nothing when it ends the process,
  with what was printed meanwhile.
\<close>

section \<open>The mains\<close>

type_synonym flag_parser =
  "(string \<times> string) list \<Rightarrow> (string \<times> validator) list \<Rightarrow> string list \<Rightarrow> (string \<Rightarrow> string) option \<times> string"

text \<open>Every tool has its own copy of this function.\<close>

definition tool_ValidateIp :: "(string \<Rightarrow> bool) \<Rightarrow> validator" where
  "tool_ValidateIp parses flag_name val =
     catch_all (and_then (if parses val then Inr val else Inl SystemError) (\<lambda>g. Inr (True, '''')))
       (Inr (False, ''Invalid Format of '' @ flag_name @ '', please check.'' @ endl))"

definition tool_main ::
  "flag_parser \<Rightarrow> (string \<Rightarrow> bool) \<Rightarrow> (string \<times> string) list \<Rightarrow> string \<Rightarrow> string list \<Rightarrow> ((string \<Rightarrow> string) \<Rightarrow> string result) \<Rightarrow> string result" where
  "tool_main parse parses defaults address argv body =
     (case parse defaults [(address, tool_ValidateIp parses)] argv of
        (None, out) \<Rightarrow> Inr out
      | (Some fl, out) \<Rightarrow> and_then (body fl) (\<lambda>s. Inr (out @ s)))"

definition address_flag :: "string \<Rightarrow> (string \<times> string) list" where
  "address_flag name = [(name, ''127.0.0.1'')]"

definition query_flags :: "(string \<times> string) list" where
  "query_flags = address_flag ''chaos_ip'' @ [(''q'', '''')]"

definition get_service_queries_main :: "flag_parser \<Rightarrow> (string \<Rightarrow> bool) \<Rightarrow> u32 \<Rightarrow> network \<Rightarrow> string list \<Rightarrow> string \<Rightarrow> string result" where
  "get_service_queries_main parse parses gid net argv stdin = tool_main parse parses query_flags ''chaos_ip'' argv
     (\<lambda>fl. get_service_queries gid net (fl ''chaos_ip'') (fl ''q'') stdin)"

definition get_service_errors_main :: "flag_parser \<Rightarrow> (string \<Rightarrow> bool) \<Rightarrow> u32 \<Rightarrow> network \<Rightarrow> string list \<Rightarrow> string \<Rightarrow> string result" where
  "get_service_errors_main parse parses gid net argv stdin = tool_main parse parses query_flags ''chaos_ip'' argv
     (\<lambda>fl. get_service_errors gid net (fl ''chaos_ip'') (fl ''q'') stdin)"

definition get_service_shutdowns_main :: "flag_parser \<Rightarrow> (string \<Rightarrow> bool) \<Rightarrow> u32 \<Rightarrow> network \<Rightarrow> string list \<Rightarrow> string \<Rightarrow> string result" where
  "get_service_shutdowns_main parse parses gid net argv stdin = tool_main parse parses query_flags ''chaos_ip'' argv
     (\<lambda>fl. get_service_shutdowns gid net (fl ''chaos_ip'') (fl ''q'') stdin)"

definition get_service_traffic_main :: "flag_parser \<Rightarrow> (string \<Rightarrow> bool) \<Rightarrow> u32 \<Rightarrow> network \<Rightarrow> string list \<Rightarrow> string \<Rightarrow> string result" where
  "get_service_traffic_main parse parses gid net argv stdin = tool_main parse parses query_flags ''chaos_ip'' argv
     (\<lambda>fl. get_service_traffic gid net (fl ''chaos_ip'') (fl ''q'') stdin)"

definition get_most_queries_main :: "flag_parser \<Rightarrow> (string \<Rightarrow> bool) \<Rightarrow> u32 \<Rightarrow> network \<Rightarrow> string list \<Rightarrow> string result" where
  "get_most_queries_main parse parses gid net argv = tool_main parse parses (address_flag ''chaos_ip'') ''chaos_ip'' argv
     (\<lambda>fl. get_most_queries gid net (fl ''chaos_ip''))"

definition get_most_errors_main :: "flag_parser \<Rightarrow> (string \<Rightarrow> bool) \<Rightarrow> u32 \<Rightarrow> network \<Rightarrow> string list \<Rightarrow> string result" where
  "get_most_errors_main parse parses gid net argv = tool_main parse parses (address_flag ''chaos_ip'') ''chaos_ip'' argv
     (\<lambda>fl. get_most_errors gid net (fl ''chaos_ip''))"

definition get_most_shutdowns_main :: "flag_parser \<Rightarrow> (string \<Rightarrow> bool) \<Rightarrow> u32 \<Rightarrow> network \<Rightarrow> string list \<Rightarrow> string result" where
  "get_most_shutdowns_main parse parses gid net argv = tool_main parse parses (address_flag ''chaos_ip'') ''chaos_ip'' argv
     (\<lambda>fl. get_most_shutdowns gid net (fl ''chaos_ip''))"

definition get_service_number_main :: "flag_parser \<Rightarrow> (string \<Rightarrow> bool) \<Rightarrow> u32 \<Rightarrow> network \<Rightarrow> string list \<Rightarrow> string result" where
  "get_service_number_main parse parses gid net argv = tool_main parse parses (address_flag ''ice_ip'') ''ice_ip'' argv
     (\<lambda>fl. get_service_number gid net (fl ''ice_ip''))"

definition get_services_main :: "flag_parser \<Rightarrow> (string \<Rightarrow> bool) \<Rightarrow> u32 \<Rightarrow> network \<Rightarrow> string list \<Rightarrow> string \<Rightarrow> string result" where
  "get_services_main parse parses gid net argv stdin = tool_main parse parses (address_flag ''ice_ip'') ''ice_ip'' argv
     (\<lambda>fl. get_services gid net (fl ''ice_ip'') stdin)"

section \<open>The validator and the parser\<close>

text \<open>The nine copies are the function of atreus.\<close>

lemma tool_ValidateIp_atreus: "tool_ValidateIp (address_ok env) = ValidateIp env"
  by (intro ext) (simp add: tool_ValidateIp_def ValidateIp_def MakeAddress_def endl_def)

lemma tool_ValidateIp_result: "tool_ValidateIp parses n v = Inr (b, out) \<longleftrightarrow>
    b = parses v \<and> out = (if parses v then [] else ''Invalid Format of '' @ n @ '', please check.'' @ endl)"
  by (auto simp: tool_ValidateIp_def)

text \<open>The documented contract of gflags: the values it goes on with have passed their validators.\<close>

definition tool_validating :: "flag_parser \<Rightarrow> bool" where
  "tool_validating parse \<longleftrightarrow> (\<forall>ds vs argv fl out. parse ds vs argv = (Some fl, out) \<longrightarrow>
     (\<forall>(n, v) \<in> set vs. \<exists>t. v n (fl n) = Inr (True, t)))"

text \<open>So no tool throws for its address: what it calls is an address that parses.\<close>

lemma tool_main_address:
  assumes "tool_validating parse" and "tool_main parse parses ds address argv body = Inr out"
  shows "(\<exists>t. parse ds [(address, tool_ValidateIp parses)] argv = (None, t) \<and> out = t)
    \<or> (\<exists>fl t s. parse ds [(address, tool_ValidateIp parses)] argv = (Some fl, t) \<and> parses (fl address) \<and> body fl = Inr s \<and> out = t @ s)"
proof (cases "parse ds [(address, tool_ValidateIp parses)] argv")
  case (Pair r t)
  show ?thesis
  proof (cases r)
    case (Some fl)
    with assms(1) Pair have "\<forall>(n, v) \<in> set [(address, tool_ValidateIp parses)]. \<exists>t. v n (fl n) = Inr (True, t)"
      unfolding tool_validating_def by blast
    then have "parses (fl address)" by (auto simp: tool_ValidateIp_result)
    with Some Pair assms(2) show ?thesis by (auto simp: tool_main_def and_then_Inr_iff)
  qed (use Pair assms(2) in \<open>simp add: tool_main_def\<close>)
qed

text \<open>A parser of one argument, \<^verbatim>\<open>-name=value\<close> of the validated flag.\<close>

definition one_flag_parser :: flag_parser where
  "one_flag_parser ds vs argv = (case vs of [(n, v)] \<Rightarrow>
     let val = (case argv of [a] \<Rightarrow> drop (length n + 2) a | _ \<Rightarrow> (case map_of ds n of None \<Rightarrow> [] | Some d \<Rightarrow> d)) in
     (case v n val of
        Inr (True, out) \<Rightarrow> (Some (\<lambda>m. if m = n then val else case map_of ds m of None \<Rightarrow> [] | Some d \<Rightarrow> d), out)
      | Inr (False, out) \<Rightarrow> (None, out)
      | Inl _ \<Rightarrow> (None, []))
   | _ \<Rightarrow> (None, []))"

lemma one_flag_validating: "tool_validating one_flag_parser"
  by (auto simp: tool_validating_def one_flag_parser_def Let_def split: list.splits prod.splits sum.splits bool.splits)

text \<open>An address that does not parse ends the tool with the message of the validator, before any call.\<close>

lemma bad_address_example:
  "get_most_queries_main one_flag_parser (\<lambda>a. a = ''::1'') gid net [''-chaos_ip=x''] = Inr (''Invalid Format of chaos_ip, please check.'' @ endl)"
  by (simp add: get_most_queries_main_def tool_main_def one_flag_parser_def tool_ValidateIp_def)

end
