(* ===== verification/Blmesh_Log.thy ===== *)
theory Blmesh_Log
  imports Std_Stream
begin

text \<open>
  blmesh/log: the state behind the wrapper of glog, and the two destinations it sets. An epoch is the
  clock in seconds, as text; the clock is an argument of the operations that read it. The lines that are
  logged are not modelled.
\<close>

section \<open>State and operations\<close>

record log =
  last_epoch :: string
  now_epoch :: string
  iprefix :: string

text \<open>The singleton of \<^verbatim>\<open>Get\<close> with glog's destinations, and the static flag of \<^verbatim>\<open>Init\<close>.\<close>

record log_process =
  log_instance :: "log option"
  init_flag :: bool
  dest_info :: "string option"
  dest_error :: "string option"

definition log_unused :: log_process where
  "log_unused = \<lparr>log_instance = None, init_flag = True, dest_info = None, dest_error = None\<rparr>"

definition GenerateEpoch :: "nat \<Rightarrow> string" where
  "GenerateEpoch now = show_nat now"

text \<open>The constructor, at the first use, reads the clock twice.\<close>

definition new_log :: "nat \<Rightarrow> nat \<Rightarrow> log" where
  "new_log now now' = \<lparr>last_epoch = GenerateEpoch now, now_epoch = GenerateEpoch now', iprefix = []\<rparr>"

definition Log_Get :: "nat \<Rightarrow> nat \<Rightarrow> log_process \<Rightarrow> log \<times> log_process" where
  "Log_Get now now' st = (case log_instance st of
       Some l \<Rightarrow> (l, st)
     | None \<Rightarrow> (new_log now now', st\<lparr>log_instance := Some (new_log now now')\<rparr>))"

definition set_destinations :: "string \<Rightarrow> log_process \<Rightarrow> log_process" where
  "set_destinations base st = st\<lparr>dest_info := Some (base @ ''_info''), dest_error := Some (base @ ''_error'')\<rparr>"

definition Log_Init :: "nat \<Rightarrow> nat \<Rightarrow> log_process \<Rightarrow> log_process" where
  "Log_Init now now' st =
     (if init_flag st then
        let (l, st) = Log_Get now now' st in (set_destinations (now_epoch l) st)\<lparr>init_flag := False\<rparr>
      else st)"

definition SetIPrefix :: "string \<Rightarrow> log \<Rightarrow> log" where
  "SetIPrefix prefix l = l\<lparr>iprefix := prefix\<rparr>"

definition SetPrefix :: "nat \<Rightarrow> nat \<Rightarrow> string \<Rightarrow> log_process \<Rightarrow> log_process" where
  "SetPrefix now now' prefix st = (let (l, st) = Log_Get now now' st in st\<lparr>log_instance := Some (SetIPrefix prefix l)\<rparr>)"

definition Log_Update :: "nat \<Rightarrow> log \<Rightarrow> string \<times> log" where
  "Log_Update now l = (let l = l\<lparr>last_epoch := now_epoch l, now_epoch := GenerateEpoch now\<rparr> in (now_epoch l, l))"

definition GeneratePrefix :: "nat \<Rightarrow> log \<Rightarrow> string \<times> log" where
  "GeneratePrefix now l = (let (e, l) = Log_Update now l in (iprefix l @ e, l))"

text \<open>\<^verbatim>\<open>UpdateDest\<close>: the constructor's clock readings, should it be the first use, and the update's.\<close>

definition UpdateDest :: "nat \<Rightarrow> nat \<Rightarrow> nat \<Rightarrow> log_process \<Rightarrow> log_process" where
  "UpdateDest now now' t st =
     (let (l, st) = Log_Get now now' st; (prefix, l) = GeneratePrefix t l
      in set_destinations prefix (st\<lparr>log_instance := Some l\<rparr>))"

lemmas log_defs = Log_Get_def set_destinations_def Log_Init_def SetIPrefix_def SetPrefix_def Log_Update_def
  GeneratePrefix_def UpdateDest_def new_log_def Let_def

section \<open>Laws\<close>

text \<open>
  \<^verbatim>\<open>Init\<close> works once: \<^verbatim>\<open>main\<close> and every \<^verbatim>\<open>BladeServer::Start\<close> call it, and the calls after the
  first change nothing.
\<close>

lemma Log_Init_once: "Log_Init a b (Log_Init c d st) = Log_Init c d st"
  by (simp add: log_defs split: option.split prod.split)

text \<open>A prefix reaches the destinations with the next \<^verbatim>\<open>UpdateDest\<close>, not before.\<close>

lemma SetPrefix_destinations:
  "dest_info (SetPrefix a b prefix st) = dest_info st"
  "dest_info (UpdateDest c d t (SetPrefix a b prefix st)) = Some (prefix @ GenerateEpoch t @ ''_info'')"
  "dest_error (UpdateDest c d t (SetPrefix a b prefix st)) = Some (prefix @ GenerateEpoch t @ ''_error'')"
  by (simp_all add: log_defs split: option.split)

text \<open>After any updates, the two epochs are those of the last two of them, and updates at different times have different destinations.\<close>

lemma UpdateDest_epochs:
  "log_instance (UpdateDest c d t (UpdateDest a b s st))
    = Some \<lparr>last_epoch = GenerateEpoch s, now_epoch = GenerateEpoch t, iprefix = iprefix (fst (Log_Get a b st))\<rparr>"
  by (cases "log_instance st") (auto simp: log_defs)

lemma GenerateEpoch_inj: "GenerateEpoch s = GenerateEpoch t \<longleftrightarrow> s = t"
  unfolding GenerateEpoch_def using show_nat_facts by metis

lemma UpdateDest_distinct: "dest_info (UpdateDest a b s st) = dest_info (UpdateDest a b t st) \<longleftrightarrow> s = t"
  by (cases "log_instance st") (simp_all add: log_defs GenerateEpoch_inj)

end
