(* ===== verification/Spec2Isabelle.thy ===== *)
theory Spec2Isabelle
  imports Blade_RWLock Blade_Dsl Atreus_Process Atreus_Config Atreus_Blocking Mesh_Registry Service_Process Tool_Mains Blmesh_Log
begin

text \<open>
  A verification development of blademesh, a small service mesh in C++.

  \<^bold>\<open>The program.\<close> Every host runs one \<^verbatim>\<open>atreus\<close> process: the servers Kartos (takes requests from other hosts and
  hands them to the services of this host) and Loki (takes registrations and requests from the local services), and
  a watchdog. The mesh has one \<^verbatim>\<open>ice\<close> process, the registry of which service runs where, and one \<^verbatim>\<open>chaos\<close>
  process, the statistics. They talk in messages, \<^verbatim>\<open>BladeObject\<close>: a header of forty bytes, a service name and typed
  named fields. A request goes from a service to its Loki, which asks ice for a host and forwards the request to
  that host's Kartos, which forwards it to the port of the service.

  \<^bold>\<open>The theories\<close>, in the order of their imports, with the files under src/ they model:

  \<^item> \<open>Blade_Prelude\<close>: machine types, C++ failures as the values \<open>fault\<close> of a sum type, the standard's unordered
    maps as association lists in iteration order (locale \<open>assoc_store\<close>), byte images of words, memory with bounds.
  \<^item> \<open>Transition_Systems\<close>: reachability, the locales of invariants and of simulations.
  \<^item> \<open>Blade_RWLock\<close>: blmesh/rw\_lock.h. The critical sections on the three counters and the step relation
    \<open>lock_step\<close> of any number of threads.
  \<^item> \<open>Std_Stream\<close>, \<open>Blmesh_Log\<close>: what the code uses of string streams; blmesh/log.
  \<^item> \<open>Blade_Common\<close>, \<open>Blade_Object\<close>, \<open>Blade_Dsl\<close>: blmesh/common.h, blmesh/id, blade/blade\_object: codes, reserved
    names, the message object (the record \<open>blade_object\<close> has the members of the class) and its text commands.
  \<^item> \<open>Blade_Encoder\<close>, \<open>Blade_Opr\<close>: blade/encoder.h, blade/decoder.h, blade/opr: the wire format.
  \<^item> \<open>Blade_Sync\<close>: blade/buffer\_adaptor.h, blade/sync\_session: a blocking call.
  \<^item> \<open>Blade_Service\<close>, \<open>Blade_Session\<close>, \<open>Blade_Server\<close>: blade/service\_session\_policy, blade/blade\_session,
    blade/client\_session\_policy, blade/session\_policy.h, blade/blade\_server: asynchronous sessions. A \<open>world\<close> is the
    sessions of one event loop with their operations in flight; \<open>complete\<close> is the completion of one of them,
    \<open>loop_step\<close> any step of the loop.
  \<^item> \<open>Count_Storage\<close>, \<open>Atreus_Managers\<close>, \<open>Atreus_Policy\<close>, \<open>Atreus_Watchdog\<close>, \<open>Atreus_Process\<close>: the atreus directory.
    \<open>atreus_step\<close> interleaves the three threads of the process.
  \<^item> \<open>Atreus_Config\<close>: atreus/util/config\_provider: the flags, their defaults and validators.
  \<^item> \<open>Atreus_Blocking\<close>: the same host as a step relation \<open>host_step\<close> of who waits for whom over the registry's lock: the
    watchdog, Kartos, Loki, and services in a blocking call, with requests from and to other hosts.
  \<^item> \<open>Ice_Service_Manager\<close>, \<open>Ice_Service\<close>: the ice directory. \<open>Chaos_Service\<close>: the chaos directory.
  \<^item> \<open>Service_Process\<close>: the processes ice and chaos, from their \<^verbatim>\<open>main\<close> (\<open>ice_step\<close>, \<open>chaos_step\<close>).
  \<^item> \<open>Mesh_Peers\<close>, \<open>Mesh_Ice\<close>: a server as the peer of a blocking call; atreus with ice behind it.
  \<^item> \<open>Mesh_Registry\<close>: the whole mesh, as the step relation \<open>mesh_does\<close> of the sections of its lokis, kartoses, watchdogs and
    ice on their registries, with the calls to ice that fail, and its refinement \<open>view_does\<close> of the sets of names.
  \<^item> \<open>Chaos_Tools\<close>, \<open>Tool_Mains\<close>: the chaostools directory, what the tools do and their command lines.
  \<^item> this theory: end-to-end properties of several processes.

  A definition has the name of the function it models, with its class in front where two classes share the name. A
  member function is a function from the object to the object; an exception, and every undefined
  behaviour that the code can reach, is \<open>Inl\<close> of a \<open>fault\<close>; \<open>is_exception\<close> tells the ones that a \<^verbatim>\<open>catch\<close> can catch.

  \<^bold>\<open>What the lemmas show.\<close>
  Wire format: encoding and decoding are inverse, decoding a body below \<open>2 ^ 31\<close> bytes never leaves it (a longer one it
  does leave), its language is exactly the grammar of messages, sizes and limits (\<open>Blade_Opr\<close>). Objects: five typed maps and a map of names behave as
  one map (\<open>Blade_Object\<close>). Lock: exclusion, every run is one of the abstract lock that prefers writers, no lost wake-up.
  Registries: the two of atreus and ice refine a map and a relation, with the races between their
  critical sections. Sessions: what one exchange does, on every error path; for every policy that provides the contract
  \<open>event_loop\<close>, connections do not interfere, only message bodies can end a process, and a connection costs at
  most seven completions (the locales \<open>event_loop\<close> and \<open>server_loop\<close>, interpreted for Kartos, Loki and the services).
  Mesh: in every reachable state the hosts and ice agree on who provides what and requests are delivered, provided every call
  to ice reaches it, no check falls between two sections of a registration, withdrawal or look-up at its host and no withdrawal
  between those of a look-up (the condition \<open>undisturbed\<close>); what happens otherwise. Ice and chaos: their data stay
  well formed whatever arrives from the network, and only reports change the counters of chaos.
  Daemons: registration, discovery and forwarding end to end, the watchdog's checks, reports and rate, conservation of the
  counters; when a host can block for good. Tools: what each prints.
  Where the code does not do what it means to, the theorem states what it does.

  \<^bold>\<open>Bounds.\<close> There is no fuel. The loops are structural recursions, or \<open>function\<close>s with a measure (\<open>decode_loop\<close>,
  \<open>dsl_loop\<close>: the input gets shorter); ice's walk to a random position, which may not end, is a partial
  function, and that it ends is proved for the draws in range. The theorems on messages assume fewer than
  \<open>2 ^ 31\<close> bytes, the range of the \<^verbatim>\<open>int\<close> that the code keeps lengths in; \<open>loop_step\<close> and \<open>obj_fits\<close> leave room for a header.
  A peer can announce more, and then the guards of the decoder do not hold: \<open>Blade_Opr\<close> shows a read outside the buffer from
  \<open>2 ^ 31 + 4\<close> bytes on.

  \<^bold>\<open>Parameters.\<close> The network of a blocking call is a function from an address to a peer, with the error codes of
  connect, write and read and the reply to the bytes it got; asio's address parser is a predicate; the clock, the random
  draws of identifiers and of ice's choice, and the standard library's conversion of doubles are arguments. Completions
  of asynchronous operations take any error code and bytes.

  \<^bold>\<open>Not modelled.\<close> The vendored libraries (asio, glog) and gflags, whose parser is an argument in \<open>Atreus_Config\<close> and
  \<open>Tool_Mains\<close>; what is logged; the
  interleaving of threads inside a handler other than at the critical sections of the registry, which are
  arguments (a handler or task is one step of \<open>atreus_step\<close>; \<open>host_step\<close> has its waits in between and leaves out what they
  compute, and \<open>mesh_does\<close> the sections of registrations and look-ups, for processes that do not end); the lifetime of
  sessions, which the code leaves to reference counts; the real time that blocking calls take. Of the mesh's other traffic,
  \<open>mesh_does\<close> has no messages to ice from others than the atreus processes.
\<close>

section \<open>Services across hosts\<close>

text \<open>
  C7. Discovery, end to end. Loki and ice together, over the wire: a request without a trace id (trace id 0) for a service that
  some host registered is sent on to the kartos of one of the hosts that registered it; one for an
  unregistered service is answered with \<^verbatim>\<open>#NO_SRV\<close> and counted as an error. (Ice can be reached, addresses parse, the draws
  are in range, and no message comes near the size limit. A request with a trace id is dropped by Loki.)
\<close>

theorem Discovery:
  assumes "obj_wf q" and "obj_fits q" and "GetType q \<notin> {kBTRegister, kBTDeregister}" and "GetTraceId q = 0"
    and "field_map q kRequestService = Some (VString name)" and "length name + length (GetServiceName q) < 2 ^ 30"
    and "env_net env (ice_ip env) kIcePort = Inr (server_peer (service_dispatch g) (ice_policy d) sm)" and "ice_inv sm"
    and "\<forall>j. d j < length (set_of (srv_name_to_ip sm) name) \<or> name \<notin> Domain (ice_rel sm)"
    and "\<forall>ip \<in> ice_rel sm `` {name}. address_ok env ip \<and> length ip < 2 ^ 30"
    and "AtreusDM_DoError name (at_data st) = Inr dm"
  shows "if name \<in> Domain (ice_rel sm)
    then \<exists>ip \<in> ice_rel sm `` {name}. opens_to env LokiPolicy st q (ip, kKartosPort) st
    else answers_with env LokiPolicy st q (no_service (draw env 1) q name) (st\<lparr>at_data := dm\<rparr>)"
  using loki_discovers(1) [OF assms(1-10), of st] loki_discovers(2) [OF assms(1-10) _ assms(11)]
  by (cases "name \<in> Domain (ice_rel sm)") simp_all

text \<open>
  C8. Registration, end to end. When a local service registers (withdraws) at loki and ice can be
  reached, loki's registry changes, the message loki sends brings the pair of the service's name and this host's address into
  ice's registry (removes it), and the service gets its own message back.
\<close>

theorem Registration:
  assumes "obj_wf q" and "obj_fits q" and "length (GetServiceName q) + length (this_ip env) < 2 ^ 30"
    and "env_net env (ice_ip env) kIcePort = Inr (server_peer (service_dispatch g) (ice_policy d) sm)" and "ice_inv sm"
    and "GetType q = kBTRegister \<and> field_map q kRegisterPort = Some (VI32 v) \<or> GetType q = kBTDeregister"
  shows "\<exists>q' m loc. obj_wf q' \<and> obj_equiv q' (UpdateHeaderField q)
    \<and> answers_with env LokiPolicy st q q' (st\<lparr>at_services := loc\<rparr>)
    \<and> (let sm' = server_state (service_dispatch g) (ice_policy d) (object_image (UpdateHeaderField m)) sm in
       ice_inv sm' \<and>
       (if GetType q = kBTRegister
        then m = NewRegister (draw env 0) (GetServiceName q) (this_ip env) (ucast v)
          \<and> loc = AtreusSM_Register (GetServiceName q) (ucast v) (at_services st)
          \<and> ice_rel sm' = insert (GetServiceName q, this_ip env) (ice_rel sm)
        else m = NewDeregister (draw env 0) (GetServiceName q) (this_ip env)
          \<and> loc = AtreusSM_Deregister (others env) (GetServiceName q) (at_services st)
          \<and> ice_rel sm' = ice_rel sm - {(GetServiceName q, this_ip env)}))"
proof -
  note effect = ice.rel_del [OF assms(5)] ice.inv_del [OF assms(5)] ice.rel_add [OF assms(5)] ice.inv_add [OF assms(5)]
  let ?reg = "GetType q = kBTRegister" and ?n = "GetServiceName q" and ?ip = "this_ip env"
  let ?m = "if ?reg then NewRegister (draw env 0) ?n ?ip (ucast v) else NewDeregister (draw env 0) ?n ?ip"
    and ?loc = "if ?reg then AtreusSM_Register ?n (ucast v) (at_services st) else AtreusSM_Deregister (others env) ?n (at_services st)"
    and ?sm = "if ?reg then IceSM_Register ?n ?ip sm else IceSM_Deregister [] ?n ?ip sm"
  obtain q' where "obj_wf q'" "obj_equiv q' (UpdateHeaderField q)" "answers_with env LokiPolicy st q q' (st\<lparr>at_services := ?loc\<rparr>)"
    "server_state (service_dispatch g) (ice_policy d) (object_image (UpdateHeaderField ?m)) sm = ?sm"
    by (rule loki_registers [OF assms(1-4), of v ?m ?sm ?loc st]) (use assms(6) in \<open>auto simp: blade_type_defs\<close>)
  with effect show ?thesis
    by (intro exI [of _ q'] exI [of _ ?m] exI [of _ ?loc]) (simp add: Let_def)
qed

text \<open>
  C3. A delegated service can be reached from every host. When a service delegates a name that
  no host had registered, loki and ice being up, \<^verbatim>\<open>Delegate\<close> returns with the handler in the table, loki's registry has the
  service's port and ice's the pair of name and host; then a request without a trace id (trace id 0) for the name
  at the loki of any other host that reaches this ice is sent on to the kartos of the service's host, and that kartos sends it
  on to the service's port. (A request with a trace id is dropped by Loki.)
\<close>

theorem Delegated_service_reachable:
  assumes "length service + length (this_ip env) < 2 ^ 30"
    and "net ''127.0.0.1'' kLokiPort = Inr (server_peer (Atreus_on env) LokiPolicy st)"
    and "env_net env (ice_ip env) kIcePort = Inr (server_peer (service_dispatch g) (ice_policy d) sm)" and "ice_inv sm"
    and "service \<notin> Domain (ice_rel sm)" and "map_of (at_services st) service = None"
    and "st' = server_state (Atreus_on env) LokiPolicy (object_image (UpdateHeaderField (NewRegister i service '''' (policy_port pol)))) st"
    and "sm' = server_state (service_dispatch g) (ice_policy d) (object_image (UpdateHeaderField
        (NewRegister (draw env 0) service (this_ip env) (policy_port pol)))) sm"
    and "env_net env' (ice_ip env') kIcePort = Inr (server_peer (service_dispatch g') (ice_policy (\<lambda>_. 0)) sm')"
    and "address_ok env' (this_ip env)" and "address_ok env (this_ip env)" and "others env = []"
    and "obj_wf q" and "obj_fits q" and "GetType q = kBTRequest" and "GetTraceId q = 0"
    and "field_map q kRequestService = Some (VString service)" and "length service + length (GetServiceName q) < 2 ^ 30"
    and "and_then (AtreusDM_DoQuery service (at_data st')) (AtreusDM_DoBytes service (int (body_size q))) = Inr dm"
  shows "Delegate net i service h pol = Inr (DelegateExt service h pol)
    \<and> opens_to env' LokiPolicy st_caller q (this_ip env, kKartosPort) st_caller
    \<and> opens_to env KartosPolicy st' q (this_ip env, policy_port pol) (st'\<lparr>at_data := dm\<rparr>)"
proof (intro conjI)
  note delegated = delegate_registers [where net = net, OF assms(1-3)]
  show "Delegate net i service h pol = Inr (DelegateExt service h pol)" by (rule delegated(1))
  have st': "st' = st\<lparr>at_services := AtreusSM_Register service (policy_port pol) (at_services st)\<rparr>"
    unfolding assms(7) by (rule delegated(2))
  have sm': "sm' = IceSM_Register service (this_ip env) sm"
    unfolding assms(8) by (rule delegated(3))
  have rel: "ice_inv sm'" "ice_rel sm' = insert (service, this_ip env) (ice_rel sm)"
    using ice.inv_add [OF assms(4)] ice.rel_add [OF assms(4)] by (simp_all add: sm')
  then have only: "ice_rel sm' `` {service} = {this_ip env}" using assms(5) by auto
  have "set_of (srv_name_to_ip sm') service = [this_ip env]"
    using assms(5) by (auto simp: sm' IceSM_Register_def set_of_modify set_emplace_def ice_rel_def)
  then have draws: "\<forall>j. (0 :: nat) < length (set_of (srv_name_to_ip sm') service) \<or> service \<notin> Domain (ice_rel sm')" by simp
  have "GetType q \<notin> {kBTRegister, kBTDeregister}" using assms(15) by (simp add: blade_type_defs)
  from loki_discovers(1) [OF assms(13,14) this assms(16-18,9) rel(1) draws, of st_caller] only rel(2) assms(1,10)
  show "opens_to env' LokiPolicy st_caller q (this_ip env, kKartosPort) st_caller" by auto
  have "map_of (at_services st') service = Some (policy_port pol)"
    using assms(6) by (simp add: st' AtreusSM_Register_def map_of_emplace)
  from kartos_opens [OF assms(13-15,17) this assms(12,11,19)]
  show "opens_to env KartosPolicy st' q (this_ip env, policy_port pol) (st'\<lparr>at_data := dm\<rparr>)" .
qed

section \<open>Reports to chaos\<close>

lemma chaos_report_table: "map_of (f_table chaos_policy) kChaosReport = Some Chaos_DoReport"
  by (simp add: chaos_policy_def Let_def map_of_DelegateExt ServiceSessionPolicy_def protocol_names)

text \<open>The one counter that chaos adds when a report of the queries arrives.\<close>

lemma report_first_counter:
  assumes qs: "counts_ok qs" "qs \<noteq> []" "map_of qs kRequestService = None" "map_of qs kChaosReportType = None"
    and cdm: "dm_ok cdm" "\<forall>k n. map_of qs k = Some n \<longrightarrow> int_range (count_of (querys cdm) k + n)"
    and q': "obj_wf q'" "field_map q' = report_fields 1 qs" "GetType q' = kBTRequest"
  obtains k n m r where "map_of qs k = Some n" "Service_OnRecv chaos_policy g (Some q') cdm = Inr (Some r, cdm\<lparr>querys := m\<rparr>)"
    "obj_fits r" "count_of m = (count_of (querys cdm))(k := count_of (querys cdm) k + n)"
proof -
  have fields: "field_map q' kRequestService = Some (VString kChaosReport)" "field_map q' kChaosReportType = Some (VI64 1)"
    using qs(4) by (simp_all add: q'(2) report_fields_def protocol_names)
  have i32: "(k, w) \<in> set (member_i32 q') \<longleftrightarrow> (\<exists>n. map_of qs k = Some n \<and> w = word_of_int n)" for k w
    using members_fields(2) [OF q'(1), of k w] qs(3)
    by (auto simp: q'(2) report_fields_def split: option.splits if_splits)
  obtain k0 n0 rest where "qs = (k0, n0) # rest" using qs(2) by (cases qs) auto
  then have "map_of qs k0 = Some n0" by simp
  then obtain k w rest where first: "member_i32 q' = (k, w) # rest" using i32 by (cases "member_i32 q'") auto
  then obtain n where n: "map_of qs k = Some n" "w = word_of_int n" using i32 [of k w] by auto
  have "count_of qs k = n" using n(1) by (simp add: count_of_def)
  then have "int_range n" using qs(1) by (auto simp: counts_ok_def)
  then have w: "sint w = n" by (simp add: n(2) sint_of_int_range)
  have "counts_ok (querys cdm)" using cdm(1) by (simp add: dm_ok_def)
  with cdm(2) n(1) obtain m where m: "count_add k n (querys cdm) = Inr m"
    "count_of m = (count_of (querys cdm))(k := count_of (querys cdm) k + n)"
    using count_add_ok [of "querys cdm" k n] by blast
  let ?r = "snd (AddByte kChaosOk kZeroByte (NewResponse_traced g kChaosReport (GetTraceId q') kChaosReport))"
  have "Chaos_DoReport g q' cdm = Inr (Some ?r, q', cdm\<lparr>querys := m\<rparr>)"
    using m(1) w by (subst DoReport_eq [OF q'(1), of kChaosReport 1]) (simp_all add: fields first ChaosDM_DoQuery_def)
  then have "Service_OnRecv chaos_policy g (Some q') cdm = Inr (Some ?r, cdm\<lparr>querys := m\<rparr>)"
    by (intro dispatch_handler [OF q'(1) _ _ chaos_report_table]) (simp_all add: q'(3) fields blade_type_defs)
  moreover have "obj_fits ?r"
    by (simp add: obj_fits_def sizeof_header_def body_size_def message_defs new_object_def accessor_defs members_def typed_fields_defs
      AddString_def AddByte_def Contains_def kv_emplace_def field_space_def protocol_names)
  ultimately show thesis using n(1) m(2) by (intro that)
qed


section \<open>Witnesses\<close>

definition demo_ice :: ice_sm where
  "demo_ice = IceSM_Register ''t'' ''9'' new_ice_sm"

definition demo_net :: network where
  "demo_net = (\<lambda>_ _. Inr (server_peer (service_dispatch 7) (ice_policy (\<lambda>_. 0)) demo_ice))"

lemma demo_ice_facts:
  "ice_inv demo_ice" "ice_rel demo_ice = {(''t'', ''9'')}" "set_of (srv_name_to_ip demo_ice) ''t'' = [''9'']"
proof -
  have new: "ice_inv new_ice_sm" "ice_rel new_ice_sm = {}"
    by (simp_all add: new_ice_sm_def ice_inv_def ice_rel_def sets_wf_def set_of_def kv_wf_def)
  show "ice_inv demo_ice" "ice_rel demo_ice = {(''t'', ''9'')}"
    using ice.inv_add [OF new(1)] ice.rel_add [OF new(1)] new(2) by (simp_all add: demo_ice_def)
  show "set_of (srv_name_to_ip demo_ice) ''t'' = [''9'']"
    by (simp add: demo_ice_def IceSM_Register_def new_ice_sm_def set_of_modify set_emplace_def, simp add: set_of_def)
qed

theorem Discovery_witness:
  "opens_to (demo_env demo_net) LokiPolicy demo_state (NewRequest 1 ''c'' ''t'') (''9'', kKartosPort) demo_state"
proof -
  let ?q = "NewRequest 1 ''c'' ''t''" and ?e = "demo_env demo_net"
  have fits: "obj_fits ?q" by (simp add: obj_fits_def sizeof_header_def)
  have q: "GetType ?q \<notin> {kBTRegister, kBTDeregister}" "GetTraceId ?q = 0" "field_map ?q kRequestService = Some (VString ''t'')"
    "length ''t'' + length (GetServiceName ?q) < 2 ^ 30"
    by (simp_all add: GetType_def GetTraceId_def GetServiceName_def blade_type_defs default_header_def)
  have net: "env_net ?e (ice_ip ?e) kIcePort = Inr (server_peer (service_dispatch 7) (ice_policy (\<lambda>_. 0)) demo_ice)"
    by (simp add: demo_env_def demo_net_def)
  have draws: "\<forall>j. 0 < length (set_of (srv_name_to_ip demo_ice) ''t'') \<or> ''t'' \<notin> Domain (ice_rel demo_ice)"
    by (simp add: demo_ice_facts)
  have ips: "\<forall>ip \<in> ice_rel demo_ice `` {''t''}. address_ok ?e ip \<and> length ip < 2 ^ 30"
    by (simp add: demo_ice_facts demo_env_def)
  have dm: "AtreusDM_DoError ''t'' (at_data demo_state) = Inr (new_dm\<lparr>errors := [(''t'', 1)]\<rparr>)"
    by (simp add: demo_state_def new_dm_def AtreusDM_DoError_def count_add_def int_add_def int_range_def
        count_of_def kv_modify_def kv_emplace_def)
  from Discovery [OF constructors_wf(1) fits q net demo_ice_facts(1) draws ips dm] show ?thesis
    by (auto simp: demo_ice_facts)
qed

theorem Registration_witness:
  "\<exists>q'. answers_with (demo_env demo_net) LokiPolicy demo_state (NewRegister 1 ''u'' '''' 81) q'
      (demo_state\<lparr>at_services := AtreusSM_Register ''u'' 81 (at_services demo_state)\<rparr>)
    \<and> ice_rel (server_state (service_dispatch 7) (ice_policy (\<lambda>_. 0)) (object_image (UpdateHeaderField
        (NewRegister (draw (demo_env demo_net) 0) ''u'' ''1'' 81))) demo_ice) = {(''u'', ''1''), (''t'', ''9'')}"
proof -
  let ?q = "NewRegister 1 ''u'' '''' 81" and ?e = "demo_env demo_net"
  have fits: "obj_fits ?q" by (simp add: obj_fits_def sizeof_header_def)
  have q: "GetType ?q = kBTRegister" "GetServiceName ?q = ''u''" "field_map ?q kRegisterPort = Some (VI32 81)" "this_ip ?e = ''1''"
    "ucast (81 :: i32) = (81 :: port)"
    by (simp_all add: accessor_defs protocol_names demo_env_def)
  have net: "env_net ?e (ice_ip ?e) kIcePort = Inr (server_peer (service_dispatch 7) (ice_policy (\<lambda>_. 0)) demo_ice)"
    by (simp add: demo_env_def demo_net_def)
  have "length (GetServiceName ?q) + length (this_ip ?e) < 2 ^ 30" by (simp add: q)
  from Registration [OF constructors_wf(3) fits this net demo_ice_facts(1), of 81 demo_state] q(1,3)
  show ?thesis unfolding q(2,4,5) demo_ice_facts(2) Let_def by (simp only: if_True simp_thms) blast
qed

definition fresh_state :: atreus_state where
  "fresh_state = \<lparr>at_services = [], at_data = new_dm\<rparr>"

definition service_host :: atreus_env where
  "service_host = demo_env (\<lambda>_ _. Inr (server_peer (service_dispatch 7) (ice_policy (\<lambda>_. 0)) new_ice_sm))"

definition host_net :: network where
  "host_net = (\<lambda>_ _. Inr (server_peer (Atreus_on service_host) LokiPolicy fresh_state))"

definition caller_host :: atreus_env where
  "caller_host = demo_env (\<lambda>_ _. Inr (server_peer (service_dispatch 7) (ice_policy (\<lambda>_. 0))
     (server_state (service_dispatch 7) (ice_policy (\<lambda>_. 0)) (object_image (UpdateHeaderField
       (NewRegister (draw service_host 0) ''s'' (this_ip service_host) (policy_port (ServiceSessionPolicy 80 :: unit service_policy))))) new_ice_sm)))"

theorem Delegated_service_reachable_witness:
  "Delegate host_net 1 ''s'' (\<lambda>g obj s. Inr (None, obj, s)) (ServiceSessionPolicy 80 :: unit service_policy)
      = Inr (DelegateExt ''s'' (\<lambda>g obj s. Inr (None, obj, s)) (ServiceSessionPolicy 80))
    \<and> opens_to caller_host LokiPolicy fresh_state (NewRequest 1 ''c'' ''s'') (''1'', kKartosPort) fresh_state"
proof -
  let ?pol = "ServiceSessionPolicy 80 :: unit service_policy" and ?q = "NewRequest 1 ''c'' ''s''"
  let ?st' = "server_state (Atreus_on service_host) LokiPolicy (object_image (UpdateHeaderField (NewRegister 1 ''s'' '''' (policy_port ?pol)))) fresh_state"
  have host: "this_ip service_host = ''1''" "others service_host = []" "\<And>a. address_ok service_host a" "\<And>a. address_ok caller_host a"
    "env_net service_host (ice_ip service_host) kIcePort = Inr (server_peer (service_dispatch 7) (ice_policy (\<lambda>_. 0)) new_ice_sm)"
    "host_net ''127.0.0.1'' kLokiPort = Inr (server_peer (Atreus_on service_host) LokiPolicy fresh_state)"
    by (simp_all add: service_host_def host_net_def caller_host_def demo_env_def)
  have len: "length ''s'' + length (this_ip service_host) < 2 ^ 30" by (simp add: host)
  have new: "ice_inv new_ice_sm" "''s'' \<notin> Domain (ice_rel new_ice_sm)" "map_of (at_services fresh_state) ''s'' = None"
    by (auto simp: new_ice_sm_def ice_inv_def ice_rel_def sets_wf_def set_of_def kv_wf_def fresh_state_def)
  have q: "GetType ?q = kBTRequest" "GetTraceId ?q = 0" "field_map ?q kRequestService = Some (VString ''s'')"
    "length ''s'' + length (GetServiceName ?q) < 2 ^ 30"
    by (simp_all add: GetType_def GetTraceId_def GetServiceName_def default_header_def)
  have "at_data ?st' = new_dm"
    using delegate_registers(2) [where net = host_net, OF len host(6,5), of 1 ?pol] by (simp add: fresh_state_def)
  then have dm: "and_then (AtreusDM_DoQuery ''s'' (at_data ?st')) (AtreusDM_DoBytes ''s'' (int (body_size ?q)))
      = Inr (new_dm\<lparr>querys := [(''s'', 1)], bytes := [(''s'', 14)]\<rparr>)"
    by (simp add: AtreusDM_DoQuery_def AtreusDM_DoBytes_def new_dm_def count_add_def count_half_def
        int_add_def int_range_def int_half_def count_of_def kv_emplace_def kv_modify_def)
  have caller: "env_net caller_host (ice_ip caller_host) kIcePort = Inr (server_peer (service_dispatch 7) (ice_policy (\<lambda>_. 0))
      (server_state (service_dispatch 7) (ice_policy (\<lambda>_. 0)) (object_image (UpdateHeaderField
        (NewRegister (draw service_host 0) ''s'' (this_ip service_host) (policy_port ?pol)))) new_ice_sm))"
    by (simp add: caller_host_def demo_env_def)
  from Delegated_service_reachable [where net = host_net and st_caller = fresh_state and h = "\<lambda>g obj s. Inr (None, obj, s)",
    OF len host(6,5) new refl refl caller host(4,3,2) constructors_wf(1) small_request q dm]
  show ?thesis unfolding host(1) by blast
qed


end
